(* ===== verification/Kernel_Prelude.thy ===== *)
theory Kernel_Prelude
  imports Main "HOL-Library.Monad_Syntax" "HOL-Library.Word" "HOL-Library.Code_Target_Nat"
begin

section \<open>Prelude: calls that may not return, error codes, shared lemmas\<close>

text \<open>
  Conventions of the whole development.

  A C function that can fail an \<^verbatim>\<open>assert\<close>, call \<^verbatim>\<open>panic\<close> or loop for ever is a HOL function
  into \<open>'a option\<close>: \<open>None\<close> means that the call does not return (\<^verbatim>\<open>panic\<close> is declared
  noreturn and ends in the monitor loop, so a failed assertion and a divergent loop are the
  same for the caller). Error codes are ordinary return values: the negative integers of
  \<^verbatim>\<open>libs/error.h\<close>. Mutable state is passed explicitly.

  The theory also holds the collections of rewrite rules (\<open>kernel_simps\<close>: unfolding of the
  small helpers; \<open>inv_intros\<close>: preservation lemmas) and facts about lists and sums that
  several components use.
\<close>

named_theorems kernel_simps \<open>definitions of the small helpers that proofs unfold at once\<close>
named_theorems inv_intros \<open>operations preserve the invariants\<close>

subsection \<open>Assertions\<close>

definition massert :: "bool \<Rightarrow> unit option" where
  "massert b = (if b then Some () else None)"

lemma massert_simps [simp]:
  "massert True = Some ()" "massert False = None"
  "massert b = Some u \<longleftrightarrow> b" "massert b = None \<longleftrightarrow> \<not> b"
  by (auto simp: massert_def)

lemma bind_massert [simp]:
  "(massert b \<bind> f) = Some y \<longleftrightarrow> b \<and> f () = Some y"
  "(massert b \<bind> f) = None \<longleftrightarrow> \<not> b \<or> f () = None"
  by (auto simp: massert_def)

lemma bind_SomeE:
  assumes "m \<bind> f = Some y"
  obtains x where "m = Some x" "f x = Some y"
  using assms by (cases m) auto

subsection \<open>Error codes and rounding\<close>

abbreviation E_INVAL :: int where "E_INVAL \<equiv> 3"
abbreviation E_NO_MEM :: int where "E_NO_MEM \<equiv> 4"

subsection \<open>Lists\<close>

lemma distinct_split_unique:
  assumes "distinct (us @ x # vs)" and "us @ x # vs = us' @ x # vs'"
  shows "us = us'" and "vs = vs'"
proof -
  from assms have "us = us' \<and> vs = vs'"
    by (metis append_Cons_eq_iff distinct.simps(2) distinct_append disjoint_iff
        list.set_intros(1))
  then show "us = us'" and "vs = vs'" by auto
qed

text \<open>A C \<^verbatim>\<open>int\<close> that does not overflow.\<close>

lemma sint_small32: "- (2 ^ 31) \<le> x \<Longrightarrow> x < 2 ^ 31 \<Longrightarrow> sint (word_of_int x :: 32 word) = x"
  by (simp add: sint_sbintrunc' signed_take_bit_int_eq_self)

end
