(* ===== verification/Dll.thy ===== *)
theory Dll
  imports Kernel_Prelude
begin

section \<open>Circular doubly linked lists (libs/list.h)\<close>

text \<open>
  The kernel's intrusive list. A node is an address of type \<open>'a\<close>; the store of all
  \<^verbatim>\<open>struct list_entry\<close> objects is a record of two functions, one per field. Every operation of
  \<^verbatim>\<open>list.h\<close> is a function on stores with the assignments in the order of the source, so aliasing
  between the arguments has the effect it has in C.

  \<open>dll h lh xs\<close> says that the ring through the list head \<open>lh\<close> holds exactly the nodes \<open>xs\<close>.
  The lemmas show what each operation does to that sequence, and that it leaves disjoint rings
  alone. The locale \<open>list_store\<close> is the contract the clients use (run queue, wait queue, timer
  list, page free lists); it is interpreted on the operations below.
\<close>

subsection \<open>Operations\<close>

record 'a links =
  lprev :: "'a \<Rightarrow> 'a"
  lnext :: "'a \<Rightarrow> 'a"

definition set_next :: "'a \<Rightarrow> 'a \<Rightarrow> 'a links \<Rightarrow> 'a links" where
  "set_next p x h = h\<lparr>lnext := (lnext h)(p := x)\<rparr>"

definition set_prev :: "'a \<Rightarrow> 'a \<Rightarrow> 'a links \<Rightarrow> 'a links" where
  "set_prev p x h = h\<lparr>lprev := (lprev h)(p := x)\<rparr>"

definition list_init :: "'a \<Rightarrow> 'a links \<Rightarrow> 'a links" where
  "list_init elm h = set_prev elm elm (set_next elm elm h)"

definition list_add_raw :: "'a \<Rightarrow> 'a \<Rightarrow> 'a \<Rightarrow> 'a links \<Rightarrow> 'a links" where
  "list_add_raw elm prv nxt h =
     set_prev elm prv (set_next elm nxt (set_next prv elm (set_prev nxt elm h)))"

definition list_del_raw :: "'a \<Rightarrow> 'a \<Rightarrow> 'a links \<Rightarrow> 'a links" where
  "list_del_raw prv nxt h = set_prev nxt prv (set_next prv nxt h)"

definition list_add_before :: "'a \<Rightarrow> 'a \<Rightarrow> 'a links \<Rightarrow> 'a links" where
  "list_add_before listelm elm h = list_add_raw elm (lprev h listelm) listelm h"

definition list_add_after :: "'a \<Rightarrow> 'a \<Rightarrow> 'a links \<Rightarrow> 'a links" where
  "list_add_after listelm elm h = list_add_raw elm listelm (lnext h listelm) h"

definition list_add :: "'a \<Rightarrow> 'a \<Rightarrow> 'a links \<Rightarrow> 'a links" where
  "list_add listelm elm h = list_add_after listelm elm h"

definition list_del :: "'a \<Rightarrow> 'a links \<Rightarrow> 'a links" where
  "list_del listelm h = list_del_raw (lprev h listelm) (lnext h listelm) h"

definition list_del_init :: "'a \<Rightarrow> 'a links \<Rightarrow> 'a links" where
  "list_del_init listelm h = list_init listelm (list_del listelm h)"

definition list_empty :: "'a \<Rightarrow> 'a links \<Rightarrow> bool" where
  "list_empty lh h \<longleftrightarrow> lnext h lh = lh"

definition list_next :: "'a \<Rightarrow> 'a links \<Rightarrow> 'a" where
  "list_next listelm h = lnext h listelm"

definition list_prev :: "'a \<Rightarrow> 'a links \<Rightarrow> 'a" where
  "list_prev listelm h = lprev h listelm"

lemma set_field_simps [simp]:
  "lnext (set_next p x h) = (lnext h)(p := x)" "lprev (set_next p x h) = lprev h"
  "lprev (set_prev p x h) = (lprev h)(p := x)" "lnext (set_prev p x h) = lnext h"
  by (simp_all add: set_next_def set_prev_def)

lemmas list_op_defs =
  list_init_def list_add_raw_def list_del_raw_def list_add_before_def list_add_after_def
  list_add_def list_del_def list_del_init_def list_empty_def list_next_def list_prev_def

subsection \<open>Abstraction to sequences\<close>

fun chain :: "'a links \<Rightarrow> 'a list \<Rightarrow> bool" where
  "chain h [] = True"
| "chain h [x] = True"
| "chain h (x # y # zs) = (lnext h x = y \<and> lprev h y = x \<and> chain h (y # zs))"

definition dll :: "'a links \<Rightarrow> 'a \<Rightarrow> 'a list \<Rightarrow> bool" where
  "dll h lh xs \<longleftrightarrow> distinct (lh # xs) \<and> chain h (lh # xs @ [lh])"

definition detached :: "'a links \<Rightarrow> 'a \<Rightarrow> bool" where
  "detached h x \<longleftrightarrow> lnext h x = x \<and> lprev h x = x"

lemma chain_append:
  "chain h (xs @ y # zs) \<longleftrightarrow> chain h (xs @ [y]) \<and> chain h (y # zs)"
proof (induction xs)
  case (Cons x xs)
  then show ?case by (cases xs) auto
qed simp

lemma chain_set_next:
  "p \<notin> set (butlast xs) \<Longrightarrow> chain (set_next p x h) xs = chain h xs"
  by (induction xs rule: chain.induct[of _ h]) auto

lemma chain_set_prev:
  "p \<notin> set (tl xs) \<Longrightarrow> chain (set_prev p x h) xs = chain h xs"
  by (induction xs rule: chain.induct[of _ h]) auto

lemma chain_link:
  assumes "chain h (us @ [p])" "chain h (n # vs)"
    and "p \<notin> set us" "p \<notin> set (butlast (n # vs))" "n \<notin> set (tl (us @ [p]))" "n \<notin> set vs"
  shows "chain (set_next p n (set_prev n p h)) (us @ p # n # vs)"
proof -
  let ?h = "set_next p n (set_prev n p h)"
  have "chain ?h (us @ [p])"
    using assms by (simp add: chain_set_next chain_set_prev)
  moreover have "chain ?h (n # vs)"
    using assms by (simp add: chain_set_next chain_set_prev)
  ultimately show ?thesis
    by (auto simp: chain_append [of _ us p "n # vs"])
qed

lemma chain_add_raw:
  assumes "chain h (us @ [p])" "chain h (n # vs)"
    and "p \<notin> set us" "p \<notin> set (butlast (n # vs))" "n \<notin> set (tl (us @ [p]))" "n \<notin> set vs"
    and "e \<notin> set us" "e \<noteq> p" "e \<noteq> n" "e \<notin> set vs"
  shows "chain (list_add_raw e p n h) (us @ p # e # n # vs)"
proof -
  let ?h = "set_next p e (set_prev e p h)"
  have *: "list_add_raw e p n h = set_next e n (set_prev n e ?h)"
    using assms by (simp add: list_add_raw_def set_next_def set_prev_def fun_upd_twist)
  have "chain ?h (us @ p # [e])"
    by (rule chain_link) (use assms in \<open>auto dest!: in_set_butlastD simp: tl_append split: list.splits\<close>)
  moreover have "chain ?h (n # vs)"
    using assms by (simp add: chain_set_next chain_set_prev)
  ultimately have "chain (set_next e n (set_prev n e ?h)) ((us @ [p]) @ e # n # vs)"
    by (intro chain_link) (use assms in \<open>auto dest: in_set_butlastD simp: tl_append split: list.splits\<close>)
  then show ?thesis by (simp add: *)
qed

lemma dll_NilD: "dll h lh [] \<Longrightarrow> lnext h lh = lh \<and> lprev h lh = lh"
  by (simp add: dll_def)

lemma dll_distinct: "dll h lh xs \<Longrightarrow> distinct xs \<and> lh \<notin> set xs"
  by (simp add: dll_def)

lemma dll_next_head: "dll h lh xs \<Longrightarrow> lnext h lh = (case xs of [] \<Rightarrow> lh | x # _ \<Rightarrow> x)"
  by (cases xs) (auto simp: dll_def)

lemma dll_splitD:
  assumes "dll h lh (us @ x # vs)"
  shows "chain h ((lh # us) @ [x])" "chain h (x # vs @ [lh])"
  using assms chain_append [of h "lh # us" x "vs @ [lh]"] by (simp_all add: dll_def)

lemma dll_next:
  "dll h lh (us @ x # vs) \<Longrightarrow> lnext h x = (case vs of [] \<Rightarrow> lh | y # _ \<Rightarrow> y)"
  by (drule dll_splitD(2)) (cases vs; simp)

lemma chain_snoc2: "chain h (us @ [p, x]) \<Longrightarrow> lprev h x = p"
  by (simp add: chain_append [of h us p "[x]"])

lemma dll_prev:
  "dll h lh (us @ x # vs) \<Longrightarrow> lprev h x = (if us = [] then lh else last us)"
  by (drule dll_splitD(1), cases us rule: rev_cases)
    (auto dest: chain_snoc2 [of h "lh # _", simplified])

lemma dll_prev_head: "dll h lh xs \<Longrightarrow> lprev h lh = (if xs = [] then lh else last xs)"
proof (cases xs rule: rev_cases)
  case (snoc us p)
  assume "dll h lh xs"
  then show ?thesis
    using snoc chain_snoc2 [of h "lh # us" p lh] by (simp add: dll_def)
qed (auto simp: dll_def)

lemma dll_next_last: "dll h lh (us @ vs) \<Longrightarrow> lnext h (last (lh # us)) = hd (vs @ [lh])"
proof (cases us rule: rev_cases)
  case (snoc us' p)
  assume "dll h lh (us @ vs)"
  then show ?thesis
    using dll_next [of h lh us' p vs] snoc by (cases vs) simp_all
qed (auto simp: dll_next_head split: list.splits)

lemmas dll_nav = dll_next_head dll_next dll_prev dll_prev_head

lemma dll_empty_iff: "dll h lh xs \<Longrightarrow> list_empty lh h \<longleftrightarrow> xs = []"
  by (cases xs) (auto simp: dll_def list_empty_def)

lemma dll_member_not_empty:
  assumes "dll h lh xs" "x \<in> set xs"
  shows "\<not> list_empty x h"
proof -
  from assms(2) obtain us vs where xs: "xs = us @ x # vs"
    by (auto simp: in_set_conv_decomp)
  have "lnext h x = (case vs of [] \<Rightarrow> lh | y # _ \<Rightarrow> y)"
    using assms(1) unfolding xs by (rule dll_next)
  moreover have "distinct xs" "lh \<notin> set xs"
    using assms(1) by (auto dest: dll_distinct)
  ultimately show ?thesis
    by (auto simp: list_empty_def xs split: list.splits)
qed

subsection \<open>Effect of the operations\<close>

text \<open>Insertion behind a node \<open>p\<close> of the ring whose successor is \<open>n\<close>.\<close>

lemma ring_seam:
  assumes "distinct (lh # us @ vs)" and ps: "lh # us = ps @ [p]" and ns: "vs @ [lh] = n # ns"
  shows "p \<notin> set ps" "p \<notin> set (butlast (n # ns))" "n \<notin> set (tl (ps @ [p]))" "n \<notin> set ns"
proof -
  have us: "tl (ps @ [p]) = us" and vs: "butlast (n # ns) = vs"
    unfolding ps [symmetric] ns [symmetric] by simp_all
  have "distinct (ps @ [p])" "distinct (n # ns)" "set (ps @ [p]) = insert lh (set us)"
    "set (n # ns) = insert lh (set vs)"
    using assms(1) unfolding ps [symmetric] ns [symmetric] by auto
  then show "p \<notin> set ps" "p \<notin> set (butlast (n # ns))" "n \<notin> set (tl (ps @ [p]))" "n \<notin> set ns"
    using assms(1) unfolding us vs by auto
qed

lemma dll_add_raw:
  assumes "dll h lh (us @ vs)" "e \<noteq> lh" "e \<notin> set (us @ vs)"
  shows "dll (list_add_raw e (last (lh # us)) (hd (vs @ [lh])) h) lh (us @ e # vs)"
proof -
  obtain ps p where ps: "lh # us = ps @ [p]" by (cases "lh # us" rule: rev_cases) auto
  obtain n ns where ns: "vs @ [lh] = n # ns" by (cases "vs @ [lh]") auto
  have "lh # (us @ vs) @ [lh] = (lh # us) @ (vs @ [lh])" by simp
  also have "\<dots> = ps @ p # n # ns" unfolding ps ns by simp
  finally have ring: "lh # (us @ vs) @ [lh] = ps @ p # n # ns" .
  have ch: "chain h (ps @ [p])" "chain h (n # ns)"
    using assms(1) chain_append [of h ps p "n # ns"] chain_append [of h "ps @ [p]" n ns]
    unfolding dll_def ring by (auto simp: chain_append [of h ps p "[n]"])
  have "distinct (lh # us @ vs)"
    using assms(1) by (simp add: dll_def)
  note seam = ring_seam [OF this ps ns]
  have "e \<notin> set (ps @ [p])" "e \<notin> set (n # ns)"
    using assms(2,3) unfolding ps [symmetric] ns [symmetric] by auto
  then have "chain (list_add_raw e p n h) (ps @ p # e # n # ns)"
    by (intro chain_add_raw ch seam) auto
  moreover have "ps @ p # e # n # ns = lh # (us @ e # vs) @ [lh]"
    using ps ns by (metis append.assoc append_Cons append_Nil)
  moreover have "last (lh # us) = p" "hd (vs @ [lh]) = n"
    unfolding ps ns by simp_all
  ultimately show ?thesis
    using assms by (simp only: dll_def) auto
qed

lemma dll_add_after_head:
  assumes "dll h lh xs" "e \<noteq> lh" "e \<notin> set xs"
  shows "dll (list_add_after lh e h) lh (e # xs)"
  using assms dll_add_raw [of h lh "[]" xs e]
  by (cases xs) (auto simp: list_add_after_def dll_next_head)

lemma dll_add_before_head:
  assumes "dll h lh xs" "e \<noteq> lh" "e \<notin> set xs"
  shows "dll (list_add_before lh e h) lh (xs @ [e])"
  using assms dll_add_raw [of h lh xs "[]" e]
  by (auto simp: list_add_before_def dll_prev_head)

lemma dll_add_before:
  assumes "dll h lh (us @ x # vs)" "e \<noteq> lh" "e \<notin> set (us @ x # vs)"
  shows "dll (list_add_before x e h) lh (us @ e # x # vs)"
  using assms dll_add_raw [of h lh us "x # vs" e] dll_prev [OF assms(1)]
  by (auto simp: list_add_before_def)

lemma dll_add_before_seam:
  assumes "dll h lh (us @ vs)" "e \<noteq> lh" "e \<notin> set (us @ vs)"
  shows "dll (list_add_before (hd (vs @ [lh])) e h) lh (us @ e # vs)"
  using assms dll_add_before_head [of h lh us e] dll_add_before [of h lh us _ _ e]
  by (cases vs) auto

lemma dll_add_after_seam:
  assumes "dll h lh (us @ vs)" "e \<noteq> lh" "e \<notin> set (us @ vs)"
  shows "dll (list_add_after (last (lh # us)) e h) lh (us @ e # vs)"
  using dll_add_raw [OF assms] unfolding list_add_after_def dll_next_last [OF assms(1)] .

lemma dll_add_after:
  assumes "dll h lh (us @ x # vs)" "e \<noteq> lh" "e \<notin> set (us @ x # vs)"
  shows "dll (list_add_after x e h) lh (us @ x # e # vs)"
  using assms dll_add_raw [of h lh "us @ [x]" vs e] dll_next [OF assms(1)]
  by (cases vs) (auto simp: list_add_after_def)

lemma dll_del:
  assumes "dll h lh (us @ x # vs)"
  shows "dll (list_del x h) lh (us @ vs)"
proof -
  obtain ps p where ps: "lh # us = ps @ [p]" by (cases "lh # us" rule: rev_cases) auto
  obtain n ns where ns: "vs @ [lh] = n # ns" by (cases "vs @ [lh]") auto
  have "p = last (lh # us)" "n = hd (vs @ [lh])"
    unfolding ps ns by simp_all
  then have nav: "lprev h x = p" "lnext h x = n"
    using dll_prev [OF assms] dll_next [OF assms] by (auto split: list.splits)
  have "chain h ((ps @ [p]) @ [x])" "chain h (x # n # ns)"
    using dll_splitD [OF assms] unfolding ps ns by auto
  then have ch: "chain h (ps @ [p])" "chain h (n # ns)"
    using chain_append [of h ps p "[x]"] by auto
  have "distinct (lh # us @ vs)"
    using assms by (simp add: dll_def)
  then have "chain (set_next p n (set_prev n p h)) (ps @ p # n # ns)"
    by (intro chain_link ch ring_seam [OF _ ps ns])
  moreover have "ps @ p # n # ns = lh # (us @ vs) @ [lh]"
    using ps ns by (metis append.assoc append_Cons append_Nil)
  moreover have "list_del x h = set_next p n (set_prev n p h)"
    by (simp add: list_del_def list_del_raw_def nav set_next_def set_prev_def)
  ultimately show ?thesis
    using assms by (simp only: dll_def) auto
qed

subsection \<open>What the operations leave alone\<close>

definition same_on :: "'a set \<Rightarrow> 'a links \<Rightarrow> 'a links \<Rightarrow> bool" where
  "same_on A h h' \<longleftrightarrow> (\<forall>a\<in>A. lnext h' a = lnext h a \<and> lprev h' a = lprev h a)"

lemma chain_same_on: "same_on (set xs) h h' \<Longrightarrow> chain h' xs = chain h xs"
  by (induction xs rule: chain.induct [of _ h]) (auto simp: same_on_def)

lemma dll_same_on: "same_on (set (lh # xs)) h h' \<Longrightarrow> dll h' lh xs = dll h lh xs"
  using chain_same_on [of "lh # xs @ [lh]" h h'] by (auto simp: dll_def same_on_def)

lemma detached_same_on: "same_on A h h' \<Longrightarrow> x \<in> A \<Longrightarrow> detached h' x = detached h x"
  by (auto simp: detached_def same_on_def)

lemma same_on_mono: "same_on A h h' \<Longrightarrow> B \<subseteq> A \<Longrightarrow> same_on B h h'"
  by (auto simp: same_on_def)

lemma same_on_trans: "same_on A h h' \<Longrightarrow> same_on A h' h'' \<Longrightarrow> same_on A h h''"
  by (auto simp: same_on_def)

lemma dll_keep: "dll h lh xs \<Longrightarrow> same_on A h h' \<Longrightarrow> set (lh # xs) \<subseteq> A \<Longrightarrow> dll h' lh xs"
  using dll_same_on [OF same_on_mono, of A h h' lh xs] by simp

lemma dll_neighbours:
  assumes "dll h lh xs" "x \<in> set (lh # xs)"
  shows "lnext h x \<in> set (lh # xs)" "lprev h x \<in> set (lh # xs)"
proof -
  have "lnext h x \<in> set (lh # xs) \<and> lprev h x \<in> set (lh # xs)"
  proof (cases "x = lh")
    case True
    then show ?thesis using assms by (auto simp: dll_nav split: list.splits)
  next
    case False
    then obtain us vs where xs: "xs = us @ x # vs"
      using assms(2) by (auto simp: in_set_conv_decomp)
    show ?thesis
      using assms(1) unfolding xs
      by (auto simp: dll_next dll_prev split: list.splits)
  qed
  then show "lnext h x \<in> set (lh # xs)" "lprev h x \<in> set (lh # xs)" by auto
qed

lemma add_footprint:
  assumes "dll h lh xs" "x \<in> set (lh # xs)"
  shows "same_on (- insert e (set (lh # xs))) h (list_add_before x e h)"
    and "same_on (- insert e (set (lh # xs))) h (list_add_after x e h)"
  using dll_neighbours [OF assms] assms(2) by (auto simp: same_on_def list_op_defs)

lemma del_footprint:
  assumes "dll h lh xs" "x \<in> set xs"
  shows "same_on (- set (lh # xs)) h (list_del x h)"
    and "same_on (- set (lh # xs)) h (list_del_init x h)"
  using dll_neighbours [OF assms(1), of x] assms(2) by (auto simp: same_on_def list_op_defs)

lemma dll_del_init:
  assumes "dll h lh (us @ x # vs)"
  shows "dll (list_del_init x h) lh (us @ vs)"
proof -
  have "same_on (set (lh # us @ vs)) (list_del x h) (list_del_init x h)"
    using dll_distinct [OF assms] by (auto simp: same_on_def list_del_init_def list_init_def)
  then show ?thesis
    using dll_del [OF assms] by (auto simp: dll_same_on)
qed

lemma detached_init [simp]: "detached (list_init x h) x"
  by (simp add: detached_def list_init_def)

lemma detached_del_init [simp]: "detached (list_del_init x h) x"
  by (simp add: list_del_init_def)

lemma detached_empty: "detached h x \<Longrightarrow> list_empty x h"
  by (simp add: detached_def list_empty_def)

lemma dll_init: "dll (list_init lh h) lh []"
  by (simp add: dll_def list_init_def)

subsection \<open>The contract of the list library\<close>

text \<open>
  What a client of \<^verbatim>\<open>list.h\<close> may rely on: \<open>rep h lh xs\<close> relates the store to the sequence
  held by the ring of \<open>lh\<close>. The lemmas of the locale are the ones every queue of the kernel
  needs: first-in first-out order, draining, and independence of two queues.
\<close>

locale list_store =
  fixes rep :: "'h \<Rightarrow> 'a \<Rightarrow> 'a list \<Rightarrow> bool"
    and add_before :: "'a \<Rightarrow> 'a \<Rightarrow> 'h \<Rightarrow> 'h"
    and del_init :: "'a \<Rightarrow> 'h \<Rightarrow> 'h"
    and nxt :: "'a \<Rightarrow> 'h \<Rightarrow> 'a"
  assumes rep_distinct: "rep h lh xs \<Longrightarrow> distinct (lh # xs)"
    and rep_next_head: "rep h lh xs \<Longrightarrow> nxt lh h = (case xs of [] \<Rightarrow> lh | x # _ \<Rightarrow> x)"
    and rep_add_tail: "rep h lh xs \<Longrightarrow> e \<notin> set (lh # xs) \<Longrightarrow> rep (add_before lh e h) lh (xs @ [e])"
    and rep_add_before: "rep h lh (us @ x # vs) \<Longrightarrow> e \<notin> set (lh # us @ x # vs) \<Longrightarrow>
      rep (add_before x e h) lh (us @ e # x # vs)"
    and rep_del: "rep h lh (us @ x # vs) \<Longrightarrow> rep (del_init x h) lh (us @ vs)"
    and rep_add_frame: "rep h lh xs \<Longrightarrow> x \<in> set (lh # xs) \<Longrightarrow> rep h lh' ys \<Longrightarrow>
      set (lh # xs) \<inter> set (lh' # ys) = {} \<Longrightarrow> e \<notin> set (lh' # ys) \<Longrightarrow> rep (add_before x e h) lh' ys"
    and rep_del_frame: "rep h lh xs \<Longrightarrow> x \<in> set xs \<Longrightarrow> rep h lh' ys \<Longrightarrow>
      set (lh # xs) \<inter> set (lh' # ys) = {} \<Longrightarrow> rep (del_init x h) lh' ys"
begin

definition pop :: "'a \<Rightarrow> 'h \<Rightarrow> 'h" where
  "pop lh h = del_init (nxt lh h) h"

lemma rep_pop: "rep h lh (x # xs) \<Longrightarrow> nxt lh h = x \<and> rep (pop lh h) lh xs"
  using rep_del [of h lh "[]" x xs] rep_next_head [of h lh "x # xs"] by (simp add: pop_def)

lemma rep_enqueue_all:
  "rep h lh xs \<Longrightarrow> distinct es \<Longrightarrow> set es \<inter> set (lh # xs) = {} \<Longrightarrow>
    rep (fold (add_before lh) es h) lh (xs @ es)"
proof (induction es arbitrary: h xs)
  case (Cons e es)
  then have "rep (add_before lh e h) lh (xs @ [e])"
    by (intro rep_add_tail) auto
  then have "rep (fold (add_before lh) es (add_before lh e h)) lh ((xs @ [e]) @ es)"
    using Cons.prems by (intro Cons.IH) auto
  then show ?case by simp
qed simp

lemma rep_pop_many: "rep h lh xs \<Longrightarrow> n \<le> length xs \<Longrightarrow> rep ((pop lh ^^ n) h) lh (drop n xs)"
proof (induction n)
  case (Suc n)
  then have "rep ((pop lh ^^ n) h) lh (xs ! n # drop (Suc n) xs)"
    by (simp add: Cons_nth_drop_Suc)
  then show ?case by (auto dest: rep_pop)
qed simp

lemma rep_fifo:
  assumes "rep h lh xs" "distinct es" "set es \<inter> set (lh # xs) = {}" "i < length es"
  shows "nxt lh ((pop lh ^^ (length xs + i)) (fold (add_before lh) es h)) = es ! i"
proof -
  have "rep ((pop lh ^^ (length xs + i)) (fold (add_before lh) es h)) lh (drop i es)"
    using rep_pop_many [OF rep_enqueue_all [OF assms(1-3)], of "length xs + i"] assms(4) by simp
  then show ?thesis
    using assms(4) by (auto simp: rep_next_head hd_drop_conv_nth split: list.splits)
      (metis hd_drop_conv_nth list.sel(1))
qed

lemma rep_add_del:
  assumes "rep h lh (us @ x # vs)" "e \<notin> set (lh # us @ x # vs)"
  shows "rep (del_init e (add_before x e h)) lh (us @ x # vs)"
  using rep_del [OF rep_add_before [OF assms]] by simp

lemma rep_move:
  assumes "rep h lh (x # xs)" "rep h lh' ys" "set (lh # x # xs) \<inter> set (lh' # ys) = {}"
  shows "rep (add_before lh' x (del_init x h)) lh xs"
    and "rep (add_before lh' x (del_init x h)) lh' (ys @ [x])"
proof -
  have 1: "rep (del_init x h) lh xs"
    using rep_del [of h lh "[]" x xs] assms(1) by simp
  have 2: "rep (del_init x h) lh' ys"
    by (rule rep_del_frame [OF assms(1) _ assms(2)]) (use assms(3) in auto)
  show "rep (add_before lh' x (del_init x h)) lh xs"
    by (rule rep_add_frame [OF 2 _ 1]) (use assms(3) rep_distinct [OF assms(1)] in auto)
  show "rep (add_before lh' x (del_init x h)) lh' (ys @ [x])"
    by (rule rep_add_tail [OF 2]) (use assms(3) in auto)
qed

end

interpretation klist: list_store dll list_add_before list_del_init list_next
proof (unfold_locales, goal_cases)
  case 1
  then show ?case by (simp add: dll_def)
next
  case 2
  then show ?case by (simp add: list_next_def dll_next_head)
next
  case 3
  then show ?case by (simp add: dll_add_before_head)
next
  case 4
  then show ?case by (simp add: dll_add_before)
next
  case 5
  then show ?case by (rule dll_del_init)
next
  case (6 h lh xs x lh' ys e)
  then have "same_on (set (lh' # ys)) h (list_add_before x e h)"
    by (intro same_on_mono [OF add_footprint(1)]) auto
  with 6 show ?case by (simp add: dll_same_on)
next
  case (7 h lh xs x lh' ys)
  then have "same_on (set (lh' # ys)) h (list_del_init x h)"
    by (intro same_on_mono [OF del_footprint(2)]) auto
  with 7 show ?case by (simp add: dll_same_on)
qed

subsection \<open>Properties\<close>

text \<open>A list used with \<^verbatim>\<open>list_add_before\<close> on its head and \<^verbatim>\<open>list_del_init\<close> on its first entry is a
  first-in first-out queue. If the ring of \<open>lh\<close> holds \<open>xs\<close> and the entries \<open>es\<close> are appended one
  after the other, then after removing \<open>length xs + i\<close> first entries the first entry is \<open>es ! i\<close>.\<close>

theorem list_fifo_order:
  assumes "dll h lh xs" "distinct es" "set es \<inter> set (lh # xs) = {}" "i < length es"
  shows "list_next lh (((\<lambda>h. list_del_init (list_next lh h) h) ^^ (length xs + i))
    (fold (list_add_before lh) es h)) = es ! i"
  using klist.rep_fifo [OF assms] by (simp add: klist.pop_def [abs_def])

theorem list_fifo_order_witness:
  "list_next (0::nat) (((\<lambda>h. list_del_init (list_next 0 h) h) ^^ (length ([]::nat list) + 1))
    (fold (list_add_before 0) [7, 8, 9] (list_init 0 \<lparr>lprev = id, lnext = id\<rparr>))) = 8"
  using list_fifo_order [OF dll_init [of "0::nat" "\<lparr>lprev = id, lnext = id\<rparr>"], of "[7, 8, 9]" 1]
  by simp

text \<open>C26: insertion and removal at any position. Inserting a new entry \<open>e\<close> before or after the entry
  \<open>x\<close> of a list puts it exactly there, removing \<open>x\<close> removes exactly \<open>x\<close>, and a list that shares
  no entry with the one operated on is unchanged by all three operations.\<close>

theorem list_ops_positional:
  assumes "dll h lh (us @ x # vs)" "e \<notin> set (lh # us @ x # vs)"
    and "dll h lh' ys" "set (lh' # ys) \<inter> insert e (set (lh # us @ x # vs)) = {}"
  shows "dll (list_add_before x e h) lh (us @ e # x # vs) \<and> dll (list_add_before x e h) lh' ys \<and>
    dll (list_add_after x e h) lh (us @ x # e # vs) \<and> dll (list_add_after x e h) lh' ys \<and>
    dll (list_del x h) lh (us @ vs) \<and> dll (list_del x h) lh' ys"
proof -
  have "x \<in> set (us @ x # vs)" by simp
  then have "same_on (set (lh' # ys)) h (list_add_before x e h)"
    "same_on (set (lh' # ys)) h (list_add_after x e h)" "same_on (set (lh' # ys)) h (list_del x h)"
    using assms(4)
    by (auto intro!: same_on_mono [OF add_footprint(1) [OF assms(1)]]
        same_on_mono [OF add_footprint(2) [OF assms(1)]] same_on_mono [OF del_footprint(1) [OF assms(1)]])
  then show ?thesis
    using assms dll_add_before [OF assms(1), of e] dll_add_after [OF assms(1), of e] dll_del [OF assms(1)]
    by (simp add: dll_same_on)
qed

theorem list_ops_positional_witness:
  "let h = list_add_before 0 2 (list_add_before 0 1 (list_init 10 (list_init (0::nat) \<lparr>lprev = id, lnext = id\<rparr>)))
   in dll (list_add_before 1 5 h) 0 ([] @ 5 # 1 # [2]) \<and> dll (list_add_before 1 5 h) 10 [] \<and>
    dll (list_add_after 1 5 h) 0 ([] @ 1 # 5 # [2]) \<and> dll (list_add_after 1 5 h) 10 [] \<and>
    dll (list_del 1 h) 0 ([] @ [2]) \<and> dll (list_del 1 h) 10 []"
proof -
  let ?h = "list_add_before 0 2 (list_add_before 0 1 (list_init 10 (list_init (0::nat) \<lparr>lprev = id, lnext = id\<rparr>)))"
  have "dll ?h 0 ([] @ 1 # [2])" "dll ?h 10 []"
    by (simp_all add: dll_def list_op_defs)
  from list_ops_positional [OF this(1) _ this(2), of 5] show ?thesis by (simp add: Let_def)
qed

end
