(* ===== verification/Free_Blocks.thy ===== *)
theory Free_Blocks
  imports Kernel_Prelude
begin

section \<open>Free block lists: the abstract state of the page allocators\<close>

text \<open>
  A page allocator that keeps one free list has, as its abstract state, the list of its blocks
  \<open>(b, k)\<close>: \<open>k\<close> free pages starting at page \<open>b\<close>. \<open>ordered\<close> says that blocks are not empty
  and come in address order without overlap, \<open>coalesced\<close> that moreover no two blocks touch.
  A coalesced list is determined by the set of pages it covers (\<open>coalesced_unique\<close>), and it
  serves every request that the free pages could serve at all (\<open>coalesced_complete\<close>).
\<close>

type_synonym block = "nat \<times> nat"

definition ordered :: "block list \<Rightarrow> bool" where
  "ordered bs \<longleftrightarrow> (\<forall>(b, k)\<in>set bs. 0 < k) \<and> sorted_wrt (\<lambda>x y. fst x + snd x \<le> fst y) bs"

definition coalesced :: "block list \<Rightarrow> bool" where
  "coalesced bs \<longleftrightarrow> (\<forall>(b, k)\<in>set bs. 0 < k) \<and> sorted_wrt (\<lambda>x y. fst x + snd x < fst y) bs"

definition span :: "block \<Rightarrow> nat set" where
  "span x = {fst x ..< fst x + snd x}"

definition free_set :: "block list \<Rightarrow> nat set" where
  "free_set bs = (\<Union>x\<in>set bs. span x)"

lemma span_iff [simp]: "p \<in> span (b, k) \<longleftrightarrow> b \<le> p \<and> p < b + k"
  by (auto simp: span_def)

lemma free_set_simps [simp]:
  "free_set [] = {}" "free_set (x # bs) = span x \<union> free_set bs"
  "free_set (us @ vs) = free_set us \<union> free_set vs"
  by (auto simp: free_set_def)

lemma finite_free_set [simp]: "finite (free_set bs)"
  by (auto simp: free_set_def span_def)

lemma coalesced_ordered: "coalesced bs \<Longrightarrow> ordered bs"
  unfolding coalesced_def ordered_def by (auto elim: sorted_wrt_mono_rel [rotated])

lemma ordered_Cons:
  "ordered (x # bs) \<longleftrightarrow> 0 < snd x \<and> (\<forall>y\<in>set bs. fst x + snd x \<le> fst y) \<and> ordered bs"
  by (cases x) (auto simp: ordered_def)

lemma coalesced_Cons:
  "coalesced (x # bs) \<longleftrightarrow> 0 < snd x \<and> (\<forall>y\<in>set bs. fst x + snd x < fst y) \<and> coalesced bs"
  by (cases x) (auto simp: coalesced_def)

lemma ordered_append:
  "ordered (us @ vs) \<longleftrightarrow>
     ordered us \<and> ordered vs \<and> (\<forall>x\<in>set us. \<forall>y\<in>set vs. fst x + snd x \<le> fst y)"
  by (auto simp: ordered_def sorted_wrt_append)

lemma coalesced_append:
  "coalesced (us @ vs) \<longleftrightarrow>
     coalesced us \<and> coalesced vs \<and> (\<forall>x\<in>set us. \<forall>y\<in>set vs. fst x + snd x < fst y)"
  by (auto simp: coalesced_def sorted_wrt_append)

lemma ordered_Nil [simp]: "ordered []" and coalesced_Nil [simp]: "coalesced []"
  by (auto simp: ordered_def coalesced_def)

lemma ordered_snd_pos: "ordered bs \<Longrightarrow> x \<in> set bs \<Longrightarrow> 0 < snd x"
  by (auto simp: ordered_def)

lemma ordered_distinct_fst: "ordered bs \<Longrightarrow> distinct (map fst bs)"
  by (induction bs) (force simp: ordered_Cons)+

lemma free_set_ge: "ordered bs \<Longrightarrow> (\<forall>y\<in>set bs. m \<le> fst y) \<Longrightarrow> p \<in> free_set bs \<Longrightarrow> m \<le> p"
  by (auto simp: free_set_def span_def)

lemma fst_in_free_set: "ordered bs \<Longrightarrow> x \<in> set bs \<Longrightarrow> fst x \<in> free_set bs"
  using ordered_snd_pos [of bs x] by (force simp: free_set_def span_def)

lemma card_free_set: "ordered bs \<Longrightarrow> card (free_set bs) = sum_list (map snd bs)"
proof (induction bs)
  case (Cons x bs)
  have "span x \<inter> free_set bs = {}"
    using Cons.prems by (auto simp: ordered_Cons free_set_def span_def)
  with Cons show ?case
    by (simp add: ordered_Cons card_Un_disjoint span_def)
qed simp

subsection \<open>Coalesced lists are canonical\<close>

lemma coalesced_hd_Min:
  assumes "coalesced ((b, k) # bs)"
  shows "Min (free_set ((b, k) # bs)) = b"
proof (rule Min_eqI)
  fix p assume "p \<in> free_set ((b, k) # bs)"
  then show "b \<le> p"
    using assms by (auto simp: coalesced_Cons free_set_def span_def)
qed (use assms in \<open>auto simp: coalesced_Cons span_def\<close>)

lemma coalesced_gap:
  assumes "coalesced ((b, k) # bs)"
  shows "b + k \<notin> free_set ((b, k) # bs)"
  using assms by (auto simp: coalesced_Cons free_set_def span_def)

lemma coalesced_hd_eq:
  assumes "coalesced ((b, k) # bs)" "coalesced ((b', k') # bs')"
    and "free_set ((b, k) # bs) = free_set ((b', k') # bs')"
  shows "b = b' \<and> k = k'"
proof -
  have b: "b = b'"
    using coalesced_hd_Min [OF assms(1)] coalesced_hd_Min [OF assms(2)] assms(3) by simp
  have "b + k \<notin> free_set ((b', k') # bs')" "b' + k' \<notin> free_set ((b, k) # bs)"
    using coalesced_gap [OF assms(1)] coalesced_gap [OF assms(2)] assms(3) by metis+
  then have "\<not> k < k'" "\<not> k' < k"
    using b by auto
  then show ?thesis using b by simp
qed

lemma free_set_tl:
  assumes "coalesced (x # bs)"
  shows "free_set bs = free_set (x # bs) - span x"
  using assms by (auto simp: coalesced_Cons free_set_def span_def)

lemma coalesced_unique:
  "coalesced bs \<Longrightarrow> coalesced bs' \<Longrightarrow> free_set bs = free_set bs' \<Longrightarrow> bs = bs'"
proof (induction bs arbitrary: bs')
  case Nil
  then show ?case by (cases bs') (auto simp: coalesced_Cons span_def)
next
  case (Cons x bs)
  then obtain y cs where bs': "bs' = y # cs"
    by (cases bs') (auto simp: coalesced_Cons span_def)
  have "x = y"
    using coalesced_hd_eq [of "fst x" "snd x" bs "fst y" "snd y" cs] Cons.prems bs' by (simp add: prod_eq_iff)
  moreover have "free_set bs = free_set cs"
    using free_set_tl Cons.prems unfolding bs' \<open>x = y\<close> by metis
  ultimately show ?case
    using Cons bs' by (auto simp: coalesced_Cons)
qed

lemma coalesced_complete:
  "coalesced bs \<Longrightarrow> 0 < n \<Longrightarrow> {b..<b + n} \<subseteq> free_set bs \<Longrightarrow>
    \<exists>x\<in>set bs. {b..<b + n} \<subseteq> span x"
proof (induction bs)
  case (Cons x bs)
  obtain c k where x: "x = (c, k)" by fastforce
  have "b \<in> {b..<b + n}" using Cons.prems(2) by simp
  then have b: "b \<in> free_set (x # bs)" using Cons.prems(3) by blast
  show ?case
  proof (cases "b < c + k")
    case True
    have "c \<le> b"
      using coalesced_hd_Min [of c k bs] Cons.prems(1) b x by (metis Min_le finite_free_set)
    moreover have "\<not> c + k < b + n"
    proof
      assume "c + k < b + n"
      with True have "c + k \<in> {b..<b + n}" by simp
      with Cons.prems(1,3) show False
        using coalesced_gap [of c k bs] x by blast
    qed
    ultimately show ?thesis using x by (auto simp: span_def)
  next
    case False
    then have "{b..<b + n} \<subseteq> free_set bs"
      using Cons.prems(3) x by (auto simp: subset_iff)
    with Cons show ?thesis by (auto simp: coalesced_Cons)
  qed
qed auto

end
