(* ===== verification/Page_Allocator.thy ===== *)
theory Page_Allocator
  imports Kernel_Prelude
begin

section \<open>The interface of a physical page allocator (struct pmm\_manager)\<close>

text \<open>
  \<^verbatim>\<open>kern/mm/pmm.h\<close> declares the allocators' interface: \<^verbatim>\<open>alloc_pages\<close>, \<^verbatim>\<open>free_pages\<close> and
  \<^verbatim>\<open>nr_free_pages\<close>. The locale states what a kernel that calls them relies on: \<open>inv U s F\<close> says
  that the allocator in state \<open>s\<close> manages the pages \<open>U\<close>, of which exactly those in \<open>F\<close> are free.

  The client is a kernel that performs any sequence of requests, remembers the blocks it was
  given and returns only such blocks. Inside the locale: no call of such a client panics, and
  the blocks it holds never overlap each other or the free pages.
\<close>

datatype request = Alloc nat | Release nat

text \<open>\<open>Release i\<close> frees the \<open>i\<close>-th block held. The client asks for at least one page.\<close>

fun serve ::
  "(nat \<Rightarrow> 's \<Rightarrow> (nat option \<times> 's) option) \<Rightarrow> (nat \<Rightarrow> nat \<Rightarrow> 's \<Rightarrow> 's option) \<Rightarrow>
    request list \<Rightarrow> 's \<times> (nat \<times> nat) list \<Rightarrow> ('s \<times> (nat \<times> nat) list) option" where
  "serve alloc release [] (s, held) = Some (s, held)"
| "serve alloc release (Alloc n # rs) (s, held) =
     (if n = 0 then serve alloc release rs (s, held)
      else do {
        (r, s') \<leftarrow> alloc n s;
        serve alloc release rs (s', (case r of None \<Rightarrow> held | Some b \<Rightarrow> (b, n) # held))
      })"
| "serve alloc release (Release i # rs) (s, held) =
     (if length held \<le> i then serve alloc release rs (s, held)
      else do {
        s' \<leftarrow> release (fst (held ! i)) (snd (held ! i)) s;
        serve alloc release rs (s', take i held @ drop (Suc i) held)
      })"

definition extent :: "nat \<times> nat \<Rightarrow> nat set" where
  "extent x = {fst x..<fst x + snd x}"

fun disjoint_blocks :: "(nat \<times> nat) list \<Rightarrow> bool" where
  "disjoint_blocks [] = True"
| "disjoint_blocks (x # xs) \<longleftrightarrow> (\<forall>y\<in>set xs. extent x \<inter> extent y = {}) \<and> disjoint_blocks xs"

definition held_ok :: "nat set \<Rightarrow> nat set \<Rightarrow> (nat \<times> nat) list \<Rightarrow> bool" where
  "held_ok U F held \<longleftrightarrow>
     disjoint_blocks held \<and> (\<forall>x\<in>set held. 0 < snd x \<and> extent x \<subseteq> U - F)"

lemma disjoint_blocks_append:
  "disjoint_blocks (xs @ ys) \<longleftrightarrow> disjoint_blocks xs \<and> disjoint_blocks ys \<and>
    (\<forall>x\<in>set xs. \<forall>y\<in>set ys. extent x \<inter> extent y = {})"
  by (induction xs) auto

lemma held_ok_Nil [simp]: "held_ok U F []"
  by (simp add: held_ok_def)

lemma held_ok_alloc:
  assumes "held_ok U F held" "F \<subseteq> U" "0 < n" "{b..<b + n} \<subseteq> F"
  shows "held_ok U (F - {b..<b + n}) ((b, n) # held)"
proof -
  have e: "extent (b, n) = {b..<b + n}" by (simp add: extent_def)
  then have "\<forall>y\<in>set held. extent (b, n) \<inter> extent y = {}"
    using assms(1,4) unfolding held_ok_def by blast
  then show ?thesis
    using assms e unfolding held_ok_def by auto
qed

lemma held_ok_release:
  assumes "held_ok U F held" "i < length held"
  shows "held_ok U (F \<union> extent (held ! i)) (take i held @ drop (Suc i) held)"
    and "extent (held ! i) \<subseteq> U - F" and "0 < snd (held ! i)"
proof -
  have eq: "held = take i held @ held ! i # drop (Suc i) held"
    using assms(2) by (simp add: id_take_nth_drop)
  then have "set held = insert (held ! i) (set (take i held @ drop (Suc i) held))"
    by (metis Un_insert_right list.simps(15) set_append)
  moreover have "disjoint_blocks (take i held @ held ! i # drop (Suc i) held)"
    using assms(1) eq by (metis held_ok_def)
  ultimately show "held_ok U (F \<union> extent (held ! i)) (take i held @ drop (Suc i) held)"
    "extent (held ! i) \<subseteq> U - F" "0 < snd (held ! i)"
    using assms(1) unfolding held_ok_def disjoint_blocks_append by auto
qed

locale page_allocator =
  fixes alloc :: "nat \<Rightarrow> 's \<Rightarrow> (nat option \<times> 's) option"
    and release :: "nat \<Rightarrow> nat \<Rightarrow> 's \<Rightarrow> 's option"
    and nr :: "'s \<Rightarrow> nat"
    and inv :: "nat set \<Rightarrow> 's \<Rightarrow> nat set \<Rightarrow> bool"
  assumes inv_subset: "inv U s F \<Longrightarrow> F \<subseteq> U"
    and nr_card: "inv U s F \<Longrightarrow> nr s = card F"
    and alloc_ok: "inv U s F \<Longrightarrow> 0 < n \<Longrightarrow> alloc n s = Some (Some b, s') \<Longrightarrow>
      {b..<b + n} \<subseteq> F \<and> inv U s' (F - {b..<b + n})"
    and alloc_fail: "inv U s F \<Longrightarrow> 0 < n \<Longrightarrow> \<forall>c. \<not> {c..<c + n} \<subseteq> F \<Longrightarrow> alloc n s = Some (None, s)"
    and alloc_sat: "inv U s F \<Longrightarrow> 0 < n \<Longrightarrow> {c..<c + n} \<subseteq> F \<Longrightarrow> \<exists>b s'. alloc n s = Some (Some b, s')"
    and release_ok: "inv U s F \<Longrightarrow> 0 < n \<Longrightarrow> {b..<b + n} \<subseteq> U - F \<Longrightarrow>
      \<exists>s'. release b n s = Some s' \<and> inv U s' (F \<union> {b..<b + n})"
begin

lemma alloc_cases:
  assumes "inv U s F" "0 < n"
  obtains "alloc n s = Some (None, s)"
    | b s' where "alloc n s = Some (Some b, s')" "{b..<b + n} \<subseteq> F" "inv U s' (F - {b..<b + n})"
  using alloc_fail [OF assms] alloc_sat [OF assms] alloc_ok [OF assms] by metis

theorem serve_ok:
  "inv U s F \<Longrightarrow> held_ok U F held \<Longrightarrow>
    \<exists>s' held' F'. serve alloc release rs (s, held) = Some (s', held') \<and> inv U s' F' \<and> held_ok U F' held'"
proof (induction rs arbitrary: s held F)
  case (Cons r rs)
  show ?case
  proof (cases r)
    case (Alloc n)
    show ?thesis
    proof (cases "n = 0")
      case False
      then have "0 < n" by simp
      from Cons.prems(1) this show ?thesis
      proof (cases rule: alloc_cases)
        case 1
        then show ?thesis using Cons Alloc False by simp
      next
        case (2 b s')
        from Cons.IH [OF 2(3) held_ok_alloc [OF Cons.prems(2) inv_subset [OF Cons.prems(1)] \<open>0 < n\<close> 2(2)]]
        show ?thesis using Alloc False 2(1) by simp
      qed
    qed (use Cons Alloc in simp)
  next
    case (Release i)
    show ?thesis
    proof (cases "length held \<le> i")
      case False
      then have i: "i < length held" by simp
      note h = held_ok_release [OF Cons.prems(2) i]
      from release_ok [OF Cons.prems(1) h(3)] h(2) obtain s' where
        s': "release (fst (held ! i)) (snd (held ! i)) s = Some s'" "inv U s' (F \<union> extent (held ! i))"
        by (auto simp: extent_def)
      from Cons.IH [OF s'(2) h(1)] show ?thesis using Release False s'(1) by simp
    qed (use Cons Release in simp)
  qed
qed auto

lemma alloc_release_count:
  assumes "inv U s F" "finite U" "0 < n" "alloc n s = Some (Some b, s')"
  shows "\<exists>s''. release b n s' = Some s'' \<and> inv U s'' F \<and> nr s'' = nr s"
proof -
  note a = alloc_ok [OF assms(1,3,4)]
  have "{b..<b + n} \<subseteq> U - (F - {b..<b + n})" using a inv_subset [OF assms(1)] by blast
  from release_ok [OF conjunct2 [OF a] assms(3) this] obtain s'' where
    "release b n s' = Some s''" "inv U s'' (F - {b..<b + n} \<union> {b..<b + n})" by blast
  moreover have "F - {b..<b + n} \<union> {b..<b + n} = F" using a by blast
  ultimately show ?thesis using nr_card assms(1) by metis
qed

end

end
