(* ===== verification/Slub_Pages.thy ===== *)
theory Slub_Pages
  imports Dll Free_Blocks Page_Allocator
begin

unbundle bit_operations_syntax

section \<open>Page descriptors and the page layer of the SLUB allocator (lab2/kern/mm/slub\_pmm.c)\<close>

text \<open>
  The physical page allocator that lab 2 installs (\<^verbatim>\<open>slub_pmm_manager\<close>): a best-fit allocator on
  an address ordered free list threaded through the \<^verbatim>\<open>page_link\<close> fields of the page descriptors.
  A \<^verbatim>\<open>struct Page *\<close> is the index of the descriptor in the array \<^verbatim>\<open>pages\<close>, so pointer
  comparison and pointer arithmetic are those of the indices. The free list is modelled at the
  level of its links (theory \<open>Dll\<close>); \<^verbatim>\<open>property\<close> and \<^verbatim>\<open>nr_free\<close> are 32-bit counters.

  \<open>pages_inv U s bs\<close>: the descriptors and links of \<open>s\<close> represent the coalesced block list
  \<open>bs\<close> within the managed pages \<open>U\<close>. The lemmas show what every operation does to \<open>bs\<close> and to
  the set of free pages.
\<close>

subsection \<open>Page descriptors (kern/mm/memlayout.h, kern/mm/pmm.h)\<close>

datatype plink = FreeList | PageLink nat

record page =
  ref :: int
  flags :: "64 word"
  property :: nat

record pmm =
  pages :: "nat \<Rightarrow> page"
  flinks :: "plink links"
  nr_free :: nat

abbreviation u32 :: "nat \<Rightarrow> nat" where
  "u32 n \<equiv> n mod 2 ^ 32"

definition PageReserved :: "page \<Rightarrow> bool" where
  "PageReserved p \<longleftrightarrow> drop_bit 0 (flags p) AND 1 \<noteq> 0"

definition PageProperty :: "page \<Rightarrow> bool" where
  "PageProperty p \<longleftrightarrow> drop_bit 1 (flags p) AND 1 \<noteq> 0"

definition SetPageProperty :: "page \<Rightarrow> page" where
  "SetPageProperty p = p\<lparr>flags := flags p OR push_bit 1 1\<rparr>"

definition ClearPageProperty :: "page \<Rightarrow> page" where
  "ClearPageProperty p = p\<lparr>flags := flags p AND NOT (push_bit 1 1)\<rparr>"

definition set_page_ref :: "int \<Rightarrow> page \<Rightarrow> page" where
  "set_page_ref v p = p\<lparr>ref := v\<rparr>"

definition upd_page :: "nat \<Rightarrow> (page \<Rightarrow> page) \<Rightarrow> pmm \<Rightarrow> pmm" where
  "upd_page i f s = s\<lparr>pages := (pages s)(i := f (pages s i))\<rparr>"

definition upd_links :: "(plink links \<Rightarrow> plink links) \<Rightarrow> pmm \<Rightarrow> pmm" where
  "upd_links f s = s\<lparr>flinks := f (flinks s)\<rparr>"

subsection \<open>Operations\<close>

definition page_area_init :: "pmm \<Rightarrow> pmm" where
  "page_area_init s = (upd_links (list_init FreeList) s)\<lparr>nr_free := 0\<rparr>"

text \<open>The search loop of \<^verbatim>\<open>page_insert_block\<close>: \<open>None\<close> if the ring is damaged and it never ends.\<close>

partial_function (option) insert_pos :: "nat \<Rightarrow> plink \<Rightarrow> plink links \<Rightarrow> plink option" where
  "insert_pos base le h =
     (case list_next le h of
        FreeList \<Rightarrow> Some FreeList
      | PageLink p \<Rightarrow> if base < p then Some (PageLink p) else insert_pos base (PageLink p) h)"

definition page_insert_block :: "nat \<Rightarrow> pmm \<Rightarrow> pmm option" where
  "page_insert_block base s = do {
     le \<leftarrow> insert_pos base FreeList (flinks s);
     Some (upd_links (list_add_before le (PageLink base)) s)
   }"

text \<open>The two halves of \<^verbatim>\<open>page_try_merge\<close>; the first returns the block that survives.\<close>

definition merge_prev :: "nat \<Rightarrow> pmm \<Rightarrow> nat \<times> pmm" where
  "merge_prev base s =
     (case list_prev (PageLink base) (flinks s) of
        FreeList \<Rightarrow> (base, s)
      | PageLink p \<Rightarrow>
          if p + property (pages s p) = base then
            (p, upd_links (list_del (PageLink base))
                 (upd_page base ClearPageProperty
                   (upd_page p (\<lambda>x. x\<lparr>property := u32 (property x + property (pages s base))\<rparr>) s)))
          else (base, s))"

definition merge_next :: "nat \<Rightarrow> pmm \<Rightarrow> pmm" where
  "merge_next base s =
     (case list_next (PageLink base) (flinks s) of
        FreeList \<Rightarrow> s
      | PageLink p \<Rightarrow>
          if base + property (pages s base) = p then
            upd_links (list_del (PageLink p))
              (upd_page p ClearPageProperty
                (upd_page base (\<lambda>x. x\<lparr>property := u32 (property x + property (pages s p))\<rparr>) s))
          else s)"

definition page_try_merge :: "nat \<Rightarrow> pmm \<Rightarrow> pmm" where
  "page_try_merge base s = (case merge_prev base s of (base', s') \<Rightarrow> merge_next base' s')"

fun init_loop :: "nat list \<Rightarrow> pmm \<Rightarrow> pmm option" where
  "init_loop [] s = Some s"
| "init_loop (i # is) s = do {
     massert (PageReserved (pages s i));
     init_loop is (upd_page i (\<lambda>p. set_page_ref 0 (p\<lparr>flags := 0, property := 0\<rparr>)) s)
   }"

fun free_loop :: "nat list \<Rightarrow> pmm \<Rightarrow> pmm option" where
  "free_loop [] s = Some s"
| "free_loop (i # is) s = do {
     massert (\<not> PageReserved (pages s i) \<and> \<not> PageProperty (pages s i));
     free_loop is (upd_page i (\<lambda>p. set_page_ref 0 (p\<lparr>flags := 0, property := 0\<rparr>)) s)
   }"

definition insert_and_merge :: "nat \<Rightarrow> nat \<Rightarrow> pmm \<Rightarrow> pmm option" where
  "insert_and_merge base n s = do {
     let s = upd_page base (\<lambda>p. SetPageProperty (p\<lparr>property := u32 n\<rparr>)) s;
     let s = s\<lparr>nr_free := u32 (nr_free s + n)\<rparr>;
     let s = upd_links (list_init (PageLink base)) s;
     s \<leftarrow> page_insert_block base s;
     Some (page_try_merge base s)
   }"

definition slub_page_init_memmap :: "nat \<Rightarrow> nat \<Rightarrow> pmm \<Rightarrow> pmm option" where
  "slub_page_init_memmap base n s = do {
     massert (0 < n);
     s \<leftarrow> init_loop [base..<base + n] s;
     insert_and_merge base n s
   }"

definition slub_page_free :: "nat \<Rightarrow> nat \<Rightarrow> pmm \<Rightarrow> pmm option" where
  "slub_page_free base n s = do {
     massert (0 < n);
     s \<leftarrow> free_loop [base..<base + n] s;
     insert_and_merge base n s
   }"

partial_function (option) best_scan ::
  "nat \<Rightarrow> pmm \<Rightarrow> plink \<Rightarrow> nat option \<Rightarrow> nat \<Rightarrow> (nat option \<times> nat) option" where
  "best_scan n s le best best_size =
     (case list_next le (flinks s) of
        FreeList \<Rightarrow> Some (best, best_size)
      | PageLink p \<Rightarrow>
          if \<not> PageProperty (pages s p) then None
          else if n \<le> property (pages s p) \<and> (best = None \<or> property (pages s p) < best_size)
          then best_scan n s (PageLink p) (Some p) (property (pages s p))
          else best_scan n s (PageLink p) best best_size)"

definition slub_page_alloc :: "nat \<Rightarrow> pmm \<Rightarrow> (nat option \<times> pmm) option" where
  "slub_page_alloc n s = do {
     massert (0 < n);
     if nr_free s < n then Some (None, s)
     else do {
       (found, best_size) \<leftarrow> best_scan n s FreeList None 0;
       (case found of
          None \<Rightarrow> Some (None, s)
        | Some best \<Rightarrow> do {
            let s = upd_links (list_del (PageLink best)) s;
            s \<leftarrow> (if n < best_size then
                     page_insert_block (best + n)
                       (upd_links (list_init (PageLink (best + n)))
                         (upd_page (best + n) (\<lambda>p. SetPageProperty (p\<lparr>property := best_size - n\<rparr>)) s))
                   else Some s);
            let s = fold (\<lambda>i. upd_page i (\<lambda>p. ClearPageProperty (p\<lparr>property := 0\<rparr>))) [best..<best + n] s;
            Some (Some best, s\<lparr>nr_free := nr_free s - n\<rparr>)
          })
     }
   }"

definition slub_page_nr_free :: "pmm \<Rightarrow> nat" where
  "slub_page_nr_free s = nr_free s"

declare insert_pos.simps [code] best_scan.simps [code]

subsection \<open>Flag bits\<close>

lemma bit_and_1_nonzero: "(w :: 'a::len word) AND 1 \<noteq> 0 \<longleftrightarrow> bit w 0"
  by (simp add: and_one_eq bit_0 odd_iff_mod_2_eq_one)

lemma flag_simps [simp]:
  "PageReserved p \<longleftrightarrow> bit (flags p) 0"
  "PageProperty p \<longleftrightarrow> bit (flags p) 1"
  by (auto simp: PageReserved_def PageProperty_def bit_and_1_nonzero bit_simps)

lemma SetPageProperty_sel [simp]:
  "bit (flags (SetPageProperty p)) i \<longleftrightarrow> bit (flags p) i \<or> i = 1"
  "property (SetPageProperty p) = property p" "ref (SetPageProperty p) = ref p"
  by (auto simp: SetPageProperty_def bit_simps)

lemma ClearPageProperty_sel [simp]:
  "bit (flags (ClearPageProperty p)) i \<longleftrightarrow> bit (flags p) i \<and> i \<noteq> 1"
  "property (ClearPageProperty p) = property p" "ref (ClearPageProperty p) = ref p"
  by (auto simp: ClearPageProperty_def bit_simps dest: bit_imp_le_length)

lemma upd_sel [simp]:
  "pages (upd_page i f s) = (pages s)(i := f (pages s i))"
  "flinks (upd_page i f s) = flinks s" "nr_free (upd_page i f s) = nr_free s"
  "flinks (upd_links g s) = g (flinks s)"
  "pages (upd_links g s) = pages s" "nr_free (upd_links g s) = nr_free s"
  "flags (set_page_ref v p) = flags p" "property (set_page_ref v p) = property p"
  "ref (set_page_ref v p) = v"
  by (simp_all add: upd_page_def upd_links_def set_page_ref_def)

subsection \<open>Representation of a block list\<close>

definition pages_rep :: "pmm \<Rightarrow> block list \<Rightarrow> bool" where
  "pages_rep s bs \<longleftrightarrow>
     dll (flinks s) FreeList (map PageLink (map fst bs)) \<and>
     (\<forall>x\<in>set bs. property (pages s (fst x)) = snd x) \<and>
     (\<forall>p. PageProperty (pages s p) \<longleftrightarrow> p \<in> fst ` set bs) \<and>
     nr_free s = sum_list (map snd bs) \<and> nr_free s < 2 ^ 32"

definition pages_inv :: "nat set \<Rightarrow> pmm \<Rightarrow> block list \<Rightarrow> bool" where
  "pages_inv U s bs \<longleftrightarrow>
     pages_rep s bs \<and> coalesced bs \<and> free_set bs \<subseteq> U \<and> (\<forall>p\<in>U. \<not> PageReserved (pages s p))"

lemma distinct_blocks: "ordered bs \<Longrightarrow> distinct (map fst bs)"
  by (rule ordered_distinct_fst)

lemma block_le_total: "x \<in> set bs \<Longrightarrow> snd x \<le> sum_list (map snd bs)"
  for bs :: "block list"
  using member_le_sum_list [of "snd x" "map snd bs"] by auto

subsection \<open>The loops on a well-formed free list\<close>

lemma insert_pos_ring:
  "dll h FreeList (map PageLink (us @ vs)) \<Longrightarrow>
    insert_pos base (last (FreeList # map PageLink us)) h =
      Some (hd (map PageLink (dropWhile (\<lambda>p. p \<le> base) vs) @ [FreeList]))"
proof (induction vs arbitrary: us)
  case Nil
  then have "list_next (last (FreeList # map PageLink us)) h = FreeList"
    using dll_next_last [of h FreeList "map PageLink us" "[]"] by (simp add: list_next_def)
  then show ?case by (subst insert_pos.simps) simp
next
  case (Cons v vs)
  have nxt: "list_next (last (FreeList # map PageLink us)) h = PageLink v"
    using dll_next_last [of h FreeList "map PageLink us" "map PageLink (v # vs)"] Cons.prems
    by (simp add: list_next_def)
  show ?case
  proof (cases "base < v")
    case True
    then show ?thesis using nxt by (subst insert_pos.simps) simp
  next
    case False
    then show ?thesis
      using nxt Cons.IH [of "us @ [v]"] Cons.prems by (subst insert_pos.simps) simp
  qed
qed

lemma page_insert_block_ok:
  assumes "dll (flinks s) FreeList (map PageLink ps)" "base \<notin> set ps"
  shows "\<exists>h. page_insert_block base s = Some (s\<lparr>flinks := h\<rparr>) \<and>
    dll h FreeList (map PageLink
      (takeWhile (\<lambda>p. p \<le> base) ps @ base # dropWhile (\<lambda>p. p \<le> base) ps))"
proof -
  let ?t = "takeWhile (\<lambda>p. p \<le> base) ps" and ?d = "dropWhile (\<lambda>p. p \<le> base) ps"
  have "map PageLink ps = map PageLink ?t @ map PageLink ?d"
    by (simp flip: map_append)
  then have ring: "dll (flinks s) FreeList (map PageLink ?t @ map PageLink ?d)"
    using assms(1) by (simp only:)
  have "insert_pos base FreeList (flinks s) = Some (hd (map PageLink ?d @ [FreeList]))"
    using insert_pos_ring [of "flinks s" "[]" ps base] assms(1) by simp
  moreover have "dll (list_add_before (hd (map PageLink ?d @ [FreeList])) (PageLink base) (flinks s))
      FreeList (map PageLink ?t @ PageLink base # map PageLink ?d)"
    by (rule dll_add_before_seam [OF ring])
      (use assms(2) in \<open>auto dest: set_takeWhileD set_dropWhileD\<close>)
  ultimately show ?thesis
    by (auto simp: page_insert_block_def upd_links_def)
qed

definition same_reserved :: "pmm \<Rightarrow> pmm \<Rightarrow> bool" where
  "same_reserved s s' \<longleftrightarrow> (\<forall>p. PageReserved (pages s' p) = PageReserved (pages s p))"

lemma same_reserved_refl [simp]: "same_reserved s s"
  and same_reserved_trans: "same_reserved s s' \<Longrightarrow> same_reserved s' s'' \<Longrightarrow> same_reserved s s''"
  by (auto simp: same_reserved_def)

abbreviation clean_page :: page where
  "clean_page \<equiv> \<lparr>ref = 0, flags = 0, property = 0\<rparr>"

lemma reset_page [simp]: "set_page_ref 0 (p\<lparr>flags := 0, property := 0\<rparr>) = clean_page"
  by (simp add: set_page_ref_def)

lemma free_loop_ok:
  "(\<forall>i\<in>set is. \<not> PageReserved (pages s i) \<and> \<not> PageProperty (pages s i)) \<Longrightarrow> distinct is \<Longrightarrow>
    free_loop is s = Some (s\<lparr>pages := (\<lambda>i. if i \<in> set is then clean_page else pages s i)\<rparr>)"
  by (induction "is" arbitrary: s) (auto simp: upd_page_def fun_eq_iff intro!: arg_cong [where f = "\<lambda>f. s\<lparr>pages := f\<rparr>" for s])

lemma init_loop_ok:
  "(\<forall>i\<in>set is. PageReserved (pages s i)) \<Longrightarrow> distinct is \<Longrightarrow>
    init_loop is s = Some (s\<lparr>pages := (\<lambda>i. if i \<in> set is then clean_page else pages s i)\<rparr>)"
proof (induction "is" arbitrary: s)
  case (Cons i "is")
  have "\<forall>j\<in>set is. PageReserved (pages (s\<lparr>pages := (pages s)(i := clean_page)\<rparr>) j)"
    using Cons.prems by auto
  with Cons show ?case
    by (auto simp: upd_page_def fun_eq_iff intro!: arg_cong [where f = "\<lambda>f. s\<lparr>pages := f\<rparr>" for s])
qed simp

subsection \<open>Inserting and merging a block\<close>

lemma ordered_insert:
  assumes "ordered bs" "0 < n" "span (base, n) \<inter> free_set bs = {}"
  defines "us \<equiv> takeWhile (\<lambda>x. fst x \<le> base) bs" and "vs \<equiv> dropWhile (\<lambda>x. fst x \<le> base) bs"
  shows "ordered (us @ (base, n) # vs)"
proof -
  have bs: "bs = us @ vs" by (simp add: us_def vs_def)
  have o: "ordered us" "ordered vs" "\<forall>x\<in>set us. \<forall>y\<in>set vs. fst x + snd x \<le> fst y"
    using assms(1) unfolding bs ordered_append by auto
  have 1: "fst x + snd x \<le> base" if x: "x \<in> set us" for x
  proof (rule ccontr)
    assume "\<not> fst x + snd x \<le> base"
    moreover have "fst x \<le> base" using x unfolding us_def by (auto dest: set_takeWhileD)
    ultimately have "base \<in> span x" by (simp add: span_def)
    moreover have "x \<in> set bs" using x by (simp add: bs)
    ultimately have "base \<in> free_set bs" by (auto simp: free_set_def)
    moreover have "base \<in> span (base, n)" using assms(2) by simp
    ultimately show False using assms(3) by blast
  qed
  have "\<forall>y\<in>set vs. base < fst y"
  proof (cases vs)
    case (Cons v vs')
    then have "base < fst v" using hd_dropWhile [of "\<lambda>x. fst x \<le> base" bs] unfolding vs_def by auto
    then show ?thesis using o(2) unfolding Cons ordered_Cons by fastforce
  qed simp
  then have 2: "base + n \<le> fst y" if y: "y \<in> set vs" for y
  proof -
    have "fst y \<in> free_set bs" using y by (intro fst_in_free_set [OF assms(1)]) (simp add: bs)
    then have "fst y \<notin> span (base, n)" using assms(3) by blast
    then show ?thesis using \<open>\<forall>y\<in>set vs. base < fst y\<close> y by auto
  qed
  show ?thesis
    using o 1 2 assms(2) by (auto simp: ordered_append ordered_Cons)
qed

lemma pages_rep_insert:
  assumes rep: "pages_rep s bs" and "ordered bs" "0 < n" "span (base, n) \<inter> free_set bs = {}"
    and "nr_free s + n < 2 ^ 32"
  defines "us \<equiv> takeWhile (\<lambda>x. fst x \<le> base) bs" and "vs \<equiv> dropWhile (\<lambda>x. fst x \<le> base) bs"
  defines "s1 \<equiv> upd_links (list_init (PageLink base))
    ((upd_page base (\<lambda>p. SetPageProperty (p\<lparr>property := u32 n\<rparr>)) s)\<lparr>nr_free := u32 (nr_free s + n)\<rparr>)"
  shows "\<exists>s2. page_insert_block base s1 = Some s2 \<and> pages_rep s2 (us @ (base, n) # vs) \<and>
    same_reserved s s2"
proof -
  have notin: "base \<notin> set (map fst bs)"
    using assms(2-4) fst_in_free_set by fastforce
  then have "dll (flinks s1) FreeList (map PageLink (map fst bs))"
    using rep by (subst dll_same_on [where h = "flinks s"])
      (auto simp: s1_def same_on_def list_init_def pages_rep_def)
  from page_insert_block_ok [OF this notin] obtain h where
    h: "page_insert_block base s1 = Some (s1\<lparr>flinks := h\<rparr>)"
    "dll h FreeList (map PageLink (map fst (us @ (base, n) # vs)))"
    by (auto simp: takeWhile_map dropWhile_map us_def vs_def o_def)
  have "set bs = set us \<union> set vs" "sum_list (map snd bs) = sum_list (map snd us) + sum_list (map snd vs)"
    unfolding us_def vs_def by (metis set_append takeWhile_dropWhile_id)
      (metis map_append sum_list_append takeWhile_dropWhile_id)
  then have "pages_rep (s1\<lparr>flinks := h\<rparr>) (us @ (base, n) # vs)"
    using rep h(2) notin assms(5) by (auto simp: pages_rep_def s1_def)
  with h(1) show ?thesis
    by (auto simp: same_reserved_def s1_def)
qed

lemma pages_rep_merge:
  assumes rep: "pages_rep s (us @ (b, j) # (c, k) # vs)" and "ordered (us @ (b, j) # (c, k) # vs)"
    and "b + j = c"
  defines "s' \<equiv> upd_links (list_del (PageLink c)) (upd_page c ClearPageProperty
    (upd_page b (\<lambda>x. x\<lparr>property := u32 (property x + property (pages s c))\<rparr>) s))"
  shows "pages_rep s' (us @ (b, j + k) # vs)" and "same_reserved s s'"
proof -
  have dist: "distinct (map fst (us @ (b, j) # (c, k) # vs))"
    using assms(2) by (rule ordered_distinct_fst)
  have "j + k < 2 ^ 32"
    using rep by (auto simp: pages_rep_def)
  moreover have "dll (list_del (PageLink c) (flinks s)) FreeList (map PageLink (map fst (us @ (b, j + k) # vs)))"
    using rep dll_del [of "flinks s" FreeList "map PageLink (map fst us @ [b])" "PageLink c"
        "map PageLink (map fst vs)"]
    by (simp add: pages_rep_def)
  ultimately show "pages_rep s' (us @ (b, j + k) # vs)"
    using rep dist by (auto simp: pages_rep_def s'_def)
  show "same_reserved s s'" by (auto simp: same_reserved_def s'_def)
qed

lemma coalesced_snoc:
  "coalesced (us @ [x]) \<longleftrightarrow> coalesced us \<and> 0 < snd x \<and> (\<forall>y\<in>set us. fst y + snd y < fst x)"
  by (auto simp: coalesced_append coalesced_Cons)

lemma ordered_last_gap:
  assumes "ordered (us @ (b, j) # x # vs)" "b + j < fst x"
  shows "\<forall>y\<in>set (us @ [(b, j)]). fst y + snd y < fst x"
  using assms by (force simp: ordered_append ordered_Cons)

lemma merge_prev_ok:
  assumes rep: "pages_rep s (us @ x # vs)" and ord: "ordered (us @ x # vs)" and "coalesced us"
  shows "\<exists>s' us' x'. merge_prev (fst x) s = (fst x', s') \<and> pages_rep s' (us' @ x' # vs) \<and>
    ordered (us' @ x' # vs) \<and> coalesced (us' @ [x']) \<and>
    free_set (us' @ x' # vs) = free_set (us @ x # vs) \<and> same_reserved s s'"
proof (cases us rule: rev_cases)
  case Nil
  then have "list_prev (PageLink (fst x)) (flinks s) = FreeList"
    using rep dll_prev [of "flinks s" FreeList "[]"] by (auto simp: pages_rep_def list_prev_def)
  then have "merge_prev (fst x) s = (fst x, s)" by (simp add: merge_prev_def)
  moreover have "coalesced ([] @ [x])" using ord by (auto simp: coalesced_Cons ordered_append ordered_Cons)
  ultimately show ?thesis using rep ord Nil same_reserved_refl by blast
next
  case (snoc us' p)
  obtain b j c k where [simp]: "p = (b, j)" "x = (c, k)" by fastforce
  have nav: "list_prev (PageLink c) (flinks s) = PageLink b"
    using rep dll_prev [of "flinks s" FreeList "map PageLink (map fst us)" "PageLink c"]
    by (auto simp: pages_rep_def list_prev_def snoc)
  have pr: "property (pages s b) = j"
    using rep by (auto simp: pages_rep_def snoc)
  show ?thesis
  proof (cases "b + j = c")
    case True
    note m = pages_rep_merge [of s us' b j c k vs]
    have "ordered (us' @ (b, j + k) # vs)" "coalesced (us' @ [(b, j + k)])"
      using ord assms(3) True by (auto simp: snoc ordered_append ordered_Cons coalesced_snoc)
    moreover have "free_set (us' @ (b, j + k) # vs) = free_set (us @ x # vs)"
      using True by (auto simp: snoc)
    moreover have "merge_prev c s = (b, upd_links (list_del (PageLink c)) (upd_page c ClearPageProperty
        (upd_page b (\<lambda>x. x\<lparr>property := u32 (property x + property (pages s c))\<rparr>) s)))"
      using True nav pr by (simp add: merge_prev_def)
    ultimately show ?thesis
      using m rep ord True by (auto simp: snoc intro!: exI [of _ us'] exI [of _ "b"] exI [of _ "j + k"])
  next
    case False
    then have "b + j < c" using ord by (auto simp: snoc ordered_append ordered_Cons)
    then have "coalesced (us @ [x])"
      using ordered_last_gap [of us' b j x vs] ord assms(3) by (auto simp: snoc coalesced_append coalesced_Cons ordered_append ordered_Cons)
    moreover have "merge_prev c s = (c, s)" using False nav pr by (simp add: merge_prev_def)
    ultimately show ?thesis using rep ord same_reserved_refl by fastforce
  qed
qed

lemma merge_next_ok:
  assumes rep: "pages_rep s (us @ x # vs)" and ord: "ordered (us @ x # vs)"
    and co: "coalesced (us @ [x])" "coalesced vs"
  shows "\<exists>bs. pages_rep (merge_next (fst x) s) bs \<and> coalesced bs \<and>
    free_set bs = free_set (us @ x # vs) \<and> same_reserved s (merge_next (fst x) s)"
proof (cases vs)
  case Nil
  then have "list_next (PageLink (fst x)) (flinks s) = FreeList"
    using rep dll_next [of "flinks s" FreeList "map PageLink (map fst us)" _ "[]"]
    by (auto simp: pages_rep_def list_next_def)
  then have "merge_next (fst x) s = s" by (simp add: merge_next_def)
  then show ?thesis using rep co Nil by auto
next
  case (Cons y vs')
  obtain b j c k where [simp]: "x = (b, j)" "y = (c, k)" by fastforce
  have nav: "list_next (PageLink b) (flinks s) = PageLink c"
    using rep dll_next [of "flinks s" FreeList "map PageLink (map fst us)" "PageLink b"
        "map PageLink (map fst vs)"]
    by (auto simp: pages_rep_def list_next_def Cons)
  have pr: "property (pages s b) = j"
    using rep by (auto simp: pages_rep_def Cons)
  show ?thesis
  proof (cases "b + j = c")
    case True
    have "coalesced (us @ (b, j + k) # vs')"
      using ord co True by (fastforce simp: Cons ordered_append ordered_Cons coalesced_append coalesced_Cons)
    moreover have "free_set (us @ (b, j + k) # vs') = free_set (us @ x # vs)"
      using True by (auto simp: Cons)
    moreover have "merge_next b s = upd_links (list_del (PageLink c)) (upd_page c ClearPageProperty
        (upd_page b (\<lambda>x. x\<lparr>property := u32 (property x + property (pages s c))\<rparr>) s))"
      using True nav pr by (simp add: merge_next_def)
    then have "pages_rep (merge_next b s) (us @ (b, j + k) # vs')" "same_reserved s (merge_next b s)"
      using pages_rep_merge [of s us b j c k vs'] rep ord True by (simp_all only: Cons \<open>x = (b, j)\<close> \<open>y = (c, k)\<close>)
    ultimately show ?thesis by fastforce
  next
    case False
    then have "coalesced (us @ x # vs)"
      using ord co by (force simp: Cons ordered_append ordered_Cons coalesced_append coalesced_Cons)
    moreover have "merge_next b s = s" using False nav pr by (simp add: merge_next_def)
    ultimately show ?thesis using rep by auto
  qed
qed

lemma insert_and_merge_ok:
  assumes "pages_rep s bs" "coalesced bs" "0 < n" "span (base, n) \<inter> free_set bs = {}"
    and "nr_free s + n < 2 ^ 32"
  shows "\<exists>s' bs'. insert_and_merge base n s = Some s' \<and> pages_rep s' bs' \<and> coalesced bs' \<and>
    free_set bs' = free_set bs \<union> span (base, n) \<and> same_reserved s s'"
proof -
  let ?us = "takeWhile (\<lambda>x. fst x \<le> base) bs" and ?vs = "dropWhile (\<lambda>x. fst x \<le> base) bs"
  have bs: "bs = ?us @ ?vs" by simp
  have co: "coalesced ?us" "coalesced ?vs" using assms(2) bs by (metis coalesced_append)+
  have ord: "ordered (?us @ (base, n) # ?vs)"
    using assms by (intro ordered_insert coalesced_ordered)
  obtain s2 where s2: "insert_and_merge base n s = Some (page_try_merge base s2)"
    "pages_rep s2 (?us @ (base, n) # ?vs)" "same_reserved s s2"
    using pages_rep_insert [OF assms(1) coalesced_ordered [OF assms(2)] assms(3-5)]
    by (auto simp: insert_and_merge_def)
  obtain s3 us x where s3: "merge_prev base s2 = (fst x, s3)" "pages_rep s3 (us @ x # ?vs)"
    "ordered (us @ x # ?vs)" "coalesced (us @ [x])" "same_reserved s2 s3"
    "free_set (us @ x # ?vs) = free_set (?us @ (base, n) # ?vs)"
    using merge_prev_ok [OF s2(2) ord co(1)] by auto
  obtain bs' where "pages_rep (merge_next (fst x) s3) bs'" "coalesced bs'"
    "free_set bs' = free_set (us @ x # ?vs)" "same_reserved s3 (merge_next (fst x) s3)"
    using merge_next_ok [OF s3(2,3,4) co(2)] by auto
  moreover have "free_set (?us @ (base, n) # ?vs) = free_set bs \<union> span (base, n)"
    by (subst (3) bs) (simp only: free_set_simps, blast)
  ultimately show ?thesis
    using s2 s3 by (metis page_try_merge_def prod.case same_reserved_trans)
qed

subsection \<open>Freeing pages\<close>

lemma pages_rep_clean:
  assumes "pages_rep s bs" "fst ` set bs \<inter> A = {}"
  shows "pages_rep (s\<lparr>pages := (\<lambda>i. if i \<in> A then clean_page else pages s i)\<rparr>) bs"
proof -
  have "fst x \<notin> A" if "x \<in> set bs" for x
    using assms(2) that by blast
  then show ?thesis using assms(1) by (auto simp: pages_rep_def)
qed

lemma slub_page_free_inv:
  assumes inv: "pages_inv U s bs" and "0 < n" "{base..<base + n} \<subseteq> U" "{base..<base + n} \<inter> free_set bs = {}"
    and "nr_free s + n < 2 ^ 32"
  shows "\<exists>s' bs'. slub_page_free base n s = Some s' \<and> pages_inv U s' bs' \<and>
    free_set bs' = free_set bs \<union> {base..<base + n}"
proof -
  let ?s = "s\<lparr>pages := (\<lambda>i. if i \<in> set [base..<base + n] then clean_page else pages s i)\<rparr>"
  have rep: "pages_rep s bs" and co: "coalesced bs" using inv by (auto simp: pages_inv_def)
  have heads: "fst ` set bs \<subseteq> free_set bs"
    using co fst_in_free_set [OF coalesced_ordered] by blast
  then have "free_loop [base..<base + n] s = Some ?s"
    using inv assms(3,4) by (intro free_loop_ok) (auto simp: pages_inv_def pages_rep_def)
  moreover have "pages_rep ?s bs"
    using heads assms(4) by (intro pages_rep_clean [OF rep]) auto
  moreover have "span (base, n) = {base..<base + n}" by (simp add: span_def)
  ultimately obtain s' bs' where "slub_page_free base n s = Some s'" "pages_rep s' bs'" "coalesced bs'"
    "free_set bs' = free_set bs \<union> {base..<base + n}" "same_reserved ?s s'"
    using insert_and_merge_ok [of ?s bs n base] co assms(2,4,5)
    by (auto simp: slub_page_free_def Int_commute)
  moreover from this have "pages_inv U s' bs'"
    using inv assms(3) by (auto simp: pages_inv_def same_reserved_def)
  ultimately show ?thesis by blast
qed

lemma slub_page_init_memmap_inv:
  assumes inv: "pages_inv U s bs" and "0 < n" "\<forall>i\<in>{base..<base + n}. PageReserved (pages s i)"
    and "nr_free s + n < 2 ^ 32"
  shows "\<exists>s' bs'. slub_page_init_memmap base n s = Some s' \<and> pages_inv (U \<union> {base..<base + n}) s' bs' \<and>
    free_set bs' = free_set bs \<union> {base..<base + n}"
proof -
  let ?s = "s\<lparr>pages := (\<lambda>i. if i \<in> set [base..<base + n] then clean_page else pages s i)\<rparr>"
  have rep: "pages_rep s bs" and co: "coalesced bs" using inv by (auto simp: pages_inv_def)
  have disj: "{base..<base + n} \<inter> U = {}"
    using inv assms(3) by (auto simp: pages_inv_def)
  have heads: "fst ` set bs \<subseteq> U"
    using co fst_in_free_set [OF coalesced_ordered] inv by (auto simp: pages_inv_def)
  have "init_loop [base..<base + n] s = Some ?s"
    using assms(3) by (intro init_loop_ok) auto
  moreover have "pages_rep ?s bs"
    using heads disj by (intro pages_rep_clean [OF rep]) auto
  moreover have "span (base, n) \<inter> free_set bs = {}"
    using inv disj by (auto simp: pages_inv_def span_def)
  ultimately obtain s' bs' where "slub_page_init_memmap base n s = Some s'" "pages_rep s' bs'" "coalesced bs'"
    "free_set bs' = free_set bs \<union> {base..<base + n}" "same_reserved ?s s'"
    using insert_and_merge_ok [of ?s bs n base] co assms(2,4)
    by (auto simp: slub_page_init_memmap_def span_def)
  moreover from this have "pages_inv (U \<union> {base..<base + n}) s' bs'"
    using inv by (auto simp: pages_inv_def same_reserved_def)
  ultimately show ?thesis by blast
qed

subsection \<open>Best fit allocation\<close>

fun best_fit :: "nat \<Rightarrow> block list \<Rightarrow> nat option \<times> nat \<Rightarrow> nat option \<times> nat" where
  "best_fit n [] acc = acc"
| "best_fit n (x # bs) acc =
     best_fit n bs (if n \<le> snd x \<and> (fst acc = None \<or> snd x < snd acc) then (Some (fst x), snd x) else acc)"

lemma best_scan_ring:
  "pages_rep s (us @ vs) \<Longrightarrow>
    best_scan n s (last (FreeList # map PageLink (map fst us))) b k = Some (best_fit n vs (b, k))"
proof (induction vs arbitrary: us b k)
  case Nil
  then have "list_next (last (FreeList # map PageLink (map fst us))) (flinks s) = FreeList"
    using dll_next_last [of "flinks s" FreeList "map PageLink (map fst us)" "[]"]
    by (simp add: list_next_def pages_rep_def)
  then show ?case by (subst best_scan.simps) simp
next
  case (Cons v vs)
  have nxt: "list_next (last (FreeList # map PageLink (map fst us))) (flinks s) = PageLink (fst v)"
    using dll_next_last [of "flinks s" FreeList "map PageLink (map fst us)" "map PageLink (map fst (v # vs))"]
      Cons.prems by (simp add: list_next_def pages_rep_def)
  have "PageProperty (pages s (fst v))" "property (pages s (fst v)) = snd v"
    using Cons.prems by (auto simp: pages_rep_def)
  then show ?case
    using nxt Cons.IH [of "us @ [v]"] Cons.prems by (subst best_scan.simps) auto
qed

definition best_for :: "nat \<Rightarrow> block set \<Rightarrow> nat option \<times> nat \<Rightarrow> bool" where
  "best_for n A acc \<longleftrightarrow>
     (case acc of
        (None, _) \<Rightarrow> \<forall>x\<in>A. snd x < n
      | (Some b, k) \<Rightarrow> (b, k) \<in> A \<and> n \<le> k \<and> (\<forall>x\<in>A. n \<le> snd x \<longrightarrow> k \<le> snd x))"

lemma best_for_step:
  "best_for n A acc \<Longrightarrow> best_for n (insert x A)
    (if n \<le> snd x \<and> (fst acc = None \<or> snd x < snd acc) then (Some (fst x), snd x) else acc)"
  by (cases acc; cases "fst acc") (force simp: best_for_def)+

lemma best_fit_best: "best_for n A acc \<Longrightarrow> best_for n (A \<union> set bs) (best_fit n bs acc)"
proof (induction bs arbitrary: A acc)
  case (Cons x bs)
  from Cons.IH [OF best_for_step [OF Cons.prems, of x]] show ?case by simp
qed simp

lemma best_fit_None: "best_fit n bs (None, 0) = (None, k) \<Longrightarrow> \<forall>x\<in>set bs. snd x < n"
  and best_fit_Some: "best_fit n bs (None, 0) = (Some b, k) \<Longrightarrow>
    (b, k) \<in> set bs \<and> n \<le> k \<and> (\<forall>x\<in>set bs. n \<le> snd x \<longrightarrow> k \<le> snd x)"
  using best_fit_best [of n "{}" "(None, 0)" bs] by (auto simp: best_for_def)

lemma fold_clear:
  "fold (\<lambda>i. upd_page i (\<lambda>p. ClearPageProperty (p\<lparr>property := 0\<rparr>))) is s =
    s\<lparr>pages := (\<lambda>i. if i \<in> set is then ClearPageProperty ((pages s i)\<lparr>property := 0\<rparr>) else pages s i)\<rparr>"
proof (induction "is" arbitrary: s)
  case (Cons i "is")
  have "ClearPageProperty ((ClearPageProperty (p\<lparr>property := 0\<rparr>))\<lparr>property := 0\<rparr>) =
    ClearPageProperty (p\<lparr>property := 0\<rparr>)" for p
    by (simp add: ClearPageProperty_def and.assoc)
  with Cons show ?case by (auto simp: upd_page_def fun_eq_iff)
qed simp

definition carve :: "block list \<Rightarrow> nat \<Rightarrow> nat \<Rightarrow> nat \<Rightarrow> block list \<Rightarrow> block list" where
  "carve us b k n vs = us @ (if n < k then [(b + n, k - n)] else []) @ vs"

lemma coalesced_carve:
  assumes "coalesced (us @ (b, k) # vs)" "0 < n" "n \<le> k"
  shows "coalesced (carve us b k n vs)"
    and "free_set (carve us b k n vs) = free_set (us @ (b, k) # vs) - {b..<b + n}"
proof -
  show "coalesced (carve us b k n vs)"
    using assms by (force simp: carve_def coalesced_append coalesced_Cons)
  have "free_set us \<inter> {b..<b + n} = {}" "free_set vs \<inter> {b..<b + n} = {}"
    using assms by (auto simp: coalesced_append coalesced_Cons free_set_def span_def)
  then show "free_set (carve us b k n vs) = free_set (us @ (b, k) # vs) - {b..<b + n}"
    using assms(3) by (auto simp: carve_def)
qed

lemma takeWhile_split:
  assumes "\<forall>x\<in>set us. P x" "\<forall>x\<in>set vs. \<not> P x"
  shows "takeWhile P (us @ vs) = us" "dropWhile P (us @ vs) = vs"
  using assms by (simp_all add: takeWhile_append2 dropWhile_append2)
    (cases vs; simp)+

lemma slub_page_alloc_best:
  assumes inv: "pages_inv U s bs" and n: "0 < n" and best: "best_fit n bs (None, 0) = (Some b, k)"
    and bs: "bs = us @ (b, k) # vs"
  shows "\<exists>s'. slub_page_alloc n s = Some (Some b, s') \<and> pages_inv U s' (carve us b k n vs)"
proof -
  have rep: "pages_rep s bs" and co: "coalesced bs" using inv by (auto simp: pages_inv_def)
  have nk: "n \<le> k" using best_fit_Some [OF best] by simp
  then have enough: "\<not> nr_free s < n" using rep by (auto simp: pages_rep_def bs)
  have scan: "best_scan n s FreeList None 0 = Some (Some b, k)"
    using best_scan_ring [of s "[]" bs n None 0] rep best by simp
  have lo: "\<forall>x\<in>set us. fst x < b" and hi: "\<forall>x\<in>set vs. b + k < fst x"
    using co by (auto simp: bs coalesced_append coalesced_Cons)
  let ?s1 = "upd_links (list_del (PageLink b)) s"
  have ring1: "dll (flinks ?s1) FreeList (map PageLink (map fst (us @ vs)))"
    using rep dll_del [of "flinks s" FreeList "map PageLink (map fst us)" "PageLink b"]
    by (simp add: pages_rep_def bs)
  define s2 where "s2 = (if n < k then
     upd_links (list_init (PageLink (b + n)))
       (upd_page (b + n) (\<lambda>p. SetPageProperty (p\<lparr>property := k - n\<rparr>)) ?s1) else ?s1)"
  obtain h where h: "(if n < k then page_insert_block (b + n) s2 else Some s2) = Some (s2\<lparr>flinks := h\<rparr>)"
    "dll h FreeList (map PageLink (map fst (carve us b k n vs)))"
  proof (cases "n < k")
    case True
    have notin: "b + n \<notin> set (map fst (us @ vs))"
      using lo hi True by fastforce
    then have "dll (flinks s2) FreeList (map PageLink (map fst (us @ vs)))"
      using ring1 True by (subst dll_same_on [where h = "flinks ?s1"])
        (auto simp: s2_def same_on_def list_init_def)
    moreover have "takeWhile (\<lambda>p. p \<le> b + n) (map fst us @ map fst vs) = map fst us"
      "dropWhile (\<lambda>p. p \<le> b + n) (map fst us @ map fst vs) = map fst vs"
      using lo hi True by (intro takeWhile_split; force)+
    ultimately show ?thesis
      using page_insert_block_ok [of s2 "map fst (us @ vs)" "b + n"] notin True that
      by (auto simp: carve_def)
  next
    case False
    then show ?thesis using ring1 that [of "flinks s2"] by (simp add: s2_def carve_def)
  qed
  let ?s3 = "s2\<lparr>flinks := h\<rparr>"
  define s' where "s' = (fold (\<lambda>i. upd_page i (\<lambda>p. ClearPageProperty (p\<lparr>property := 0\<rparr>)))
    [b..<b + n] ?s3)\<lparr>nr_free := nr_free ?s3 - n\<rparr>"
  have "(if n < k then page_insert_block (b + n) (upd_links (list_init (PageLink (b + n)))
       (upd_page (b + n) (\<lambda>p. SetPageProperty (p\<lparr>property := k - n\<rparr>)) ?s1)) else Some ?s1) = Some ?s3"
    using h(1) unfolding s2_def by presburger
  then have alloc: "slub_page_alloc n s = Some (Some b, s')"
    using n enough scan unfolding slub_page_alloc_def s'_def Let_def
    by (simp add: fold_clear del: upd_sel split del: if_split)
  have "pages_rep s' (carve us b k n vs)"
    using rep h(2) nk lo hi n unfolding bs
    by (auto simp: pages_rep_def s'_def s2_def fold_clear carve_def)
  moreover have "\<forall>p\<in>U. \<not> PageReserved (pages s' p)"
    using inv by (auto simp: pages_inv_def s'_def s2_def fold_clear)
  moreover note coalesced_carve [OF co [unfolded bs] n nk]
  ultimately have "pages_inv U s' (carve us b k n vs)"
    using inv by (auto simp: pages_inv_def bs)
  with alloc show ?thesis by blast
qed

lemma slub_page_alloc_none:
  assumes inv: "pages_inv U s bs" and "0 < n" "\<forall>x\<in>set bs. snd x < n"
  shows "slub_page_alloc n s = Some (None, s)"
proof -
  have "best_scan n s FreeList None 0 = Some (best_fit n bs (None, 0))"
    using best_scan_ring [of s "[]" bs n None 0] inv by (simp add: pages_inv_def)
  moreover obtain r k where "best_fit n bs (None, 0) = (r, k)" by fastforce
  moreover have "r = None"
    using best_fit_Some [of n bs _ k] assms(3) calculation(2) by (cases r) fastforce+
  ultimately show ?thesis using assms(2) by (simp add: slub_page_alloc_def)
qed

lemma slub_page_alloc_cases:
  assumes inv: "pages_inv U s bs" and "0 < n"
  obtains (none) "slub_page_alloc n s = Some (None, s)" "\<forall>x\<in>set bs. snd x < n"
    | (some) us b k vs s' where "slub_page_alloc n s = Some (Some b, s')" "bs = us @ (b, k) # vs"
      "n \<le> k" "\<forall>x\<in>set bs. n \<le> snd x \<longrightarrow> k \<le> snd x" "pages_inv U s' (carve us b k n vs)"
proof (cases "best_fit n bs (None, 0)")
  case (Pair r k)
  show ?thesis
  proof (cases r)
    case None
    then show ?thesis
      using best_fit_None [of n bs k] slub_page_alloc_none [OF assms] Pair none by simp
  next
    case (Some b)
    with Pair have best: "best_fit n bs (None, 0) = (Some b, k)" by simp
    then obtain us vs where "bs = us @ (b, k) # vs"
      using best_fit_Some [OF best] by (auto simp: in_set_conv_decomp)
    then show ?thesis
      using slub_page_alloc_best [OF assms best] best_fit_Some [OF best] some by blast
  qed
qed

subsection \<open>The SLUB page layer meets the allocator contract\<close>

definition slub_inv :: "nat set \<Rightarrow> pmm \<Rightarrow> nat set \<Rightarrow> bool" where
  "slub_inv U s F \<longleftrightarrow> finite U \<and> card U < 2 ^ 32 \<and> (\<exists>bs. pages_inv U s bs \<and> free_set bs = F)"

lemma slub_inv_nr_free: "slub_inv U s F \<Longrightarrow> nr_free s = card F"
  by (auto simp: slub_inv_def pages_inv_def pages_rep_def card_free_set [OF coalesced_ordered])

lemma no_fit:
  assumes "coalesced bs" "0 < n" "\<forall>x\<in>set bs. snd x < n"
  shows "\<not> {c..<c + n} \<subseteq> free_set bs"
proof
  assume "{c..<c + n} \<subseteq> free_set bs"
  from coalesced_complete [OF assms(1,2) this] obtain x where "x \<in> set bs" "{c..<c + n} \<subseteq> span x" by blast
  then have "card {c..<c + n} \<le> card (span x)" by (intro card_mono) (auto simp: span_def)
  with assms(3) \<open>x \<in> set bs\<close> show False by (force simp: span_def)
qed

interpretation slub: page_allocator slub_page_alloc slub_page_free slub_page_nr_free slub_inv
proof (unfold_locales, goal_cases)
  case 1
  then show ?case by (auto simp: slub_inv_def pages_inv_def)
next
  case 2
  then show ?case by (simp add: slub_page_nr_free_def slub_inv_nr_free)
next
  case (3 U s F n b s')
  then obtain bs where bs: "pages_inv U s bs" "free_set bs = F" by (auto simp: slub_inv_def)
  from bs(1) 3(2) show ?case
  proof (cases rule: slub_page_alloc_cases)
    case (some us b' k vs s'')
    then have [simp]: "b' = b" "s'' = s'" using 3(3) by auto
    have "coalesced (us @ (b, k) # vs)" using bs(1) some by (simp add: pages_inv_def)
    note c = coalesced_carve [OF this 3(2) some(3)]
    have "{b..<b + n} \<subseteq> F" using bs(2) some(2,3) by auto
    with c some(2,5) bs(2) 3(1) show ?thesis by (auto simp: slub_inv_def)
  qed (use 3(3) in simp)
next
  case (4 U s F n)
  then obtain bs where bs: "pages_inv U s bs" "free_set bs = F" by (auto simp: slub_inv_def)
  from bs(1) 4(2) show ?case
  proof (cases rule: slub_page_alloc_cases)
    case (some us b k vs s')
    then have "{b..<b + n} \<subseteq> F" using bs(2) by auto
    with 4(3) show ?thesis by blast
  qed simp
next
  case (5 U s F n c)
  then obtain bs where bs: "pages_inv U s bs" "free_set bs = F" by (auto simp: slub_inv_def)
  from bs(1) 5(2) show ?case
  proof (cases rule: slub_page_alloc_cases)
    case none
    then show ?thesis using no_fit [of bs n c] bs 5 by (auto simp: pages_inv_def)
  qed simp
next
  case (6 U s F n b)
  then obtain bs where bs: "pages_inv U s bs" "free_set bs = F" by (auto simp: slub_inv_def)
  have "card (F \<union> {b..<b + n}) \<le> card U"
    using 6 bs by (intro card_mono) (auto simp: slub_inv_def pages_inv_def)
  moreover have "card (F \<union> {b..<b + n}) = card F + n"
    using 6(3) bs(2) by (subst card_Un_disjoint) auto
  ultimately have "nr_free s + n < 2 ^ 32"
    using 6(1) slub_inv_nr_free [OF 6(1)] by (simp add: slub_inv_def)
  from slub_page_free_inv [OF bs(1) 6(2) _ _ this, of b] 6(1,3) bs(2) show ?case
    by (auto simp: slub_inv_def)
qed

subsection \<open>Properties\<close>

text \<open>A booted allocator: every page reserved, then \<^verbatim>\<open>slub_page_init_memmap\<close> takes over some.\<close>

definition reserved_pmm :: pmm where
  "reserved_pmm = page_area_init
     \<lparr>pages = (\<lambda>_. \<lparr>ref = 0, flags = 1, property = 0\<rparr>), flinks = \<lparr>lprev = id, lnext = id\<rparr>, nr_free = 7\<rparr>"

lemma reserved_pmm_inv: "pages_inv {} reserved_pmm []"
  by (auto simp: reserved_pmm_def page_area_init_def pages_inv_def pages_rep_def dll_init bit_1_iff)

lemma booted_inv:
  assumes "0 < n" "n < 2 ^ 32"
  shows "\<exists>s. slub_page_init_memmap b n reserved_pmm = Some s \<and> pages_inv {b..<b + n} s [(b, n)]"
proof -
  have "\<forall>i\<in>{b..<b + n}. PageReserved (pages reserved_pmm i)" "nr_free reserved_pmm = 0"
    by (auto simp: reserved_pmm_def page_area_init_def)
  with slub_page_init_memmap_inv [OF reserved_pmm_inv assms(1), of b] assms(2) obtain s bs where
    s: "slub_page_init_memmap b n reserved_pmm = Some s" "pages_inv {b..<b + n} s bs"
      "free_set bs = {b..<b + n}" by auto
  have "bs = [(b, n)]"
    by (rule coalesced_unique) (use s assms(1) in \<open>auto simp: pages_inv_def coalesced_Cons span_def\<close>)
  with s show ?thesis by blast
qed

text \<open>C11: allocation by best fit. On a well-formed free list a request for \<open>n > 0\<close> pages always
  returns. It returns NULL, with nothing changed, only if there is no run of \<open>n\<close> consecutive free
  pages; otherwise it returns the start of a smallest block that is large enough, exactly the
  first \<open>n\<close> pages of it stop being free, the counter drops by \<open>n\<close> and the list stays well formed.\<close>

theorem slub_page_alloc_correct:
  assumes "pages_inv U s bs" "0 < n"
  shows "case slub_page_alloc n s of
      None \<Rightarrow> False
    | Some (None, s') \<Rightarrow> s' = s \<and> (\<forall>c. \<not> {c..<c + n} \<subseteq> free_set bs)
    | Some (Some b, s') \<Rightarrow>
        (\<exists>k. (b, k) \<in> set bs \<and> n \<le> k \<and> (\<forall>x\<in>set bs. n \<le> snd x \<longrightarrow> k \<le> snd x)) \<and>
        (\<exists>bs'. pages_inv U s' bs' \<and> free_set bs' = free_set bs - {b..<b + n}) \<and>
        nr_free s' = nr_free s - n"
  using assms
proof (cases rule: slub_page_alloc_cases)
  case none
  then show ?thesis using no_fit assms by (auto simp: pages_inv_def)
next
  case (some us b k vs s')
  have co: "coalesced (us @ (b, k) # vs)" using assms(1) some(2) by (simp add: pages_inv_def)
  have "nr_free s = sum_list (map snd bs)" "nr_free s' = sum_list (map snd (carve us b k n vs))"
    using assms(1) some(5) by (auto simp: pages_inv_def pages_rep_def)
  then have "nr_free s' = nr_free s - n" using some(2,3) by (auto simp: carve_def)
  with some coalesced_carve [OF co assms(2) some(3)] show ?thesis by auto
qed

theorem slub_page_alloc_correct_witness:
  "\<exists>s. slub_page_init_memmap 2 10 reserved_pmm = Some s \<and> (case slub_page_alloc 3 s of
      None \<Rightarrow> False
    | Some (None, s') \<Rightarrow> s' = s \<and> (\<forall>c. \<not> {c..<c + 3} \<subseteq> free_set [(2, 10)])
    | Some (Some b, s') \<Rightarrow>
        (\<exists>k. (b, k) \<in> set [(2, 10)] \<and> 3 \<le> k \<and> (\<forall>x\<in>set [(2 :: nat, 10 :: nat)]. 3 \<le> snd x \<longrightarrow> k \<le> snd x)) \<and>
        (\<exists>bs'. pages_inv {2..<12} s' bs' \<and> free_set bs' = free_set [(2, 10)] - {b..<b + 3}) \<and>
        nr_free s' = nr_free s - 3)"
proof -
  obtain s where s: "slub_page_init_memmap 2 10 reserved_pmm = Some s" "pages_inv {2..<12} s [(2, 10)]"
    using booted_inv [of 10 2] by auto
  have "0 < (3::nat)" by simp
  from slub_page_alloc_correct [OF s(2) this] s(1) show ?thesis
    by (intro exI [of _ s] conjI)
qed

text \<open>C25: freeing what was allocated restores the allocator. After a successful allocation of \<open>n\<close>
  pages, freeing them returns and gives back the very same block list: the remainder split off
  by the allocation is merged again.\<close>

theorem slub_alloc_free_roundtrip:
  assumes "pages_inv U s bs" "0 < n" "slub_page_alloc n s = Some (Some b, s')"
  shows "\<exists>s''. slub_page_free b n s' = Some s'' \<and> pages_inv U s'' bs"
  using assms(1,2)
proof (cases rule: slub_page_alloc_cases)
  case (some us b' k vs t)
  then have [simp]: "b' = b" "t = s'" using assms(3) by auto
  have co: "coalesced (us @ (b, k) # vs)" and U: "free_set bs \<subseteq> U"
    using assms(1) some(2) by (auto simp: pages_inv_def)
  have F: "{b..<b + n} \<subseteq> free_set bs" using some(2,3) by auto
  have nr: "nr_free s' + n < 2 ^ 32"
    using assms(1) some(2,3,5) by (auto simp: pages_inv_def pages_rep_def carve_def)
  note c = coalesced_carve [OF co assms(2) some(3)]
  have "pages_inv U s' (carve us b k n vs)" "{b..<b + n} \<subseteq> U" "{b..<b + n} \<inter> free_set (carve us b k n vs) = {}"
    using some(5) F U c(2) by auto
  from slub_page_free_inv [OF this(1) assms(2) this(2,3) nr]
  obtain s'' bs'' where s'': "slub_page_free b n s' = Some s''" "pages_inv U s'' bs''"
    "free_set bs'' = free_set (carve us b k n vs) \<union> {b..<b + n}" by blast
  then have "free_set bs'' = free_set bs" using F unfolding c(2) some(2) \<open>b' = b\<close> by blast
  then have "bs'' = bs"
    using s''(2) assms(1) by (intro coalesced_unique) (simp_all add: pages_inv_def)
  with s'' show ?thesis by blast
qed (use assms(3) in simp)

theorem slub_alloc_free_roundtrip_witness:
  "\<exists>s b s' s''. slub_page_init_memmap 2 10 reserved_pmm = Some s \<and>
    slub_page_alloc 3 s = Some (Some b, s') \<and> slub_page_free b 3 s' = Some s'' \<and>
    pages_inv {2..<12} s'' [(2, 10)]"
proof -
  obtain s where s: "slub_page_init_memmap 2 10 reserved_pmm = Some s" "pages_inv {2..<12} s [(2, 10)]"
    using booted_inv [of 10 2] by auto
  have "0 < (3::nat)" by simp
  from s(2) this obtain b s' where "slub_page_alloc 3 s = Some (Some b, s')"
    by (cases rule: slub_page_alloc_cases) auto
  with s slub_alloc_free_roundtrip [OF s(2) \<open>0 < 3\<close> this] show ?thesis by blast
qed

text \<open>C10: no page is ever handed out twice. Whatever sequence of allocation requests and of
  releases of blocks it was given a kernel performs, every call returns, and the blocks it holds
  are pairwise disjoint, disjoint from the free pages, and inside the managed pages.\<close>

theorem slub_serve_safe:
  assumes "slub_inv U s F" "held_ok U F held"
  shows "\<exists>s' held' F'. serve slub_page_alloc slub_page_free rs (s, held) = Some (s', held') \<and>
    slub_inv U s' F' \<and> held_ok U F' held'"
  using assms by (rule slub.serve_ok)

theorem slub_serve_safe_witness:
  "\<exists>s s' held' F'. slub_page_init_memmap 2 10 reserved_pmm = Some s \<and>
    serve slub_page_alloc slub_page_free [Alloc 3, Alloc 4, Release 1, Alloc 2, Release 0] (s, []) =
      Some (s', held') \<and> slub_inv {2..<12} s' F' \<and> held_ok {2..<12} F' held'"
proof -
  obtain s where s: "slub_page_init_memmap 2 10 reserved_pmm = Some s" "pages_inv {2..<12} s [(2, 10)]"
    using booted_inv [of 10 2] by auto
  have "slub_inv {2..<12} s {2..<12}"
    using s(2) by (auto simp: slub_inv_def span_def intro!: exI [of _ "[(2, 10)]"])
  from s(1) slub_serve_safe [OF this held_ok_Nil] show ?thesis by blast
qed

end
