(* ===== verification/Default_Pmm.thy ===== *)
theory Default_Pmm
  imports Slub_Pages
begin

section \<open>First-fit and best-fit allocators (default\_pmm.c, best\_fit\_pmm.c)\<close>

text \<open>
  The allocator that labs 3 to 8 install (\<^verbatim>\<open>default_pmm_manager\<close>) and its best-fit variant of
  lab 2, on the page descriptors and links of theory \<open>Slub_Pages\<close>. Both keep the free list in
  address order with the insertion loop \<open>insert_scan\<close>. That loop has no \<^verbatim>\<open>break\<close> after it appends
  behind the last entry, so it visits the entry it has just inserted and inserts it a second time,
  behind itself; the model keeps this. The lemmas show that allocation is right on every
  well-formed list, that freeing is right whenever the block does not become the last one, and
  what goes wrong otherwise.
\<close>

subsection \<open>Operations\<close>

definition default_init :: "pmm \<Rightarrow> pmm" where
  "default_init s = (upd_links (list_init FreeList) s)\<lparr>nr_free := 0\<rparr>"

partial_function (option) insert_scan :: "nat \<Rightarrow> plink \<Rightarrow> plink links \<Rightarrow> plink links option" where
  "insert_scan base le h =
     (case list_next le h of
        FreeList \<Rightarrow> Some h
      | PageLink p \<Rightarrow>
          if base < p then Some (list_add_before (PageLink p) (PageLink base) h)
          else insert_scan base (PageLink p)
            (if list_next (PageLink p) h = FreeList then list_add (PageLink p) (PageLink base) h else h))"

definition insert_ordered :: "nat \<Rightarrow> pmm \<Rightarrow> pmm option" where
  "insert_ordered base s =
     (if list_empty FreeList (flinks s) then Some (upd_links (list_add FreeList (PageLink base)) s)
      else map_option (\<lambda>h. s\<lparr>flinks := h\<rparr>) (insert_scan base FreeList (flinks s)))"

definition default_init_memmap :: "nat \<Rightarrow> nat \<Rightarrow> pmm \<Rightarrow> pmm option" where
  "default_init_memmap base n s = do {
     massert (0 < n);
     s \<leftarrow> init_loop [base..<base + n] s;
     let s = upd_page base (\<lambda>p. SetPageProperty (p\<lparr>property := u32 n\<rparr>)) s;
     insert_ordered base (s\<lparr>nr_free := u32 (nr_free s + n)\<rparr>)
   }"

partial_function (option) first_scan :: "nat \<Rightarrow> pmm \<Rightarrow> plink \<Rightarrow> nat option option" where
  "first_scan n s le =
     (case list_next le (flinks s) of
        FreeList \<Rightarrow> Some None
      | PageLink p \<Rightarrow> if n \<le> property (pages s p) then Some (Some p) else first_scan n s (PageLink p))"

definition take_from :: "nat \<Rightarrow> nat \<Rightarrow> pmm \<Rightarrow> pmm" where
  "take_from page n s = (
     let prev = list_prev (PageLink page) (flinks s);
         s1 = upd_links (list_del (PageLink page)) s;
         s2 = (if n < property (pages s1 page) then
                 upd_links (list_add prev (PageLink (page + n)))
                   (upd_page (page + n)
                     (\<lambda>p. SetPageProperty (p\<lparr>property := property (pages s1 page) - n\<rparr>)) s1)
               else s1);
         s3 = s2\<lparr>nr_free := nr_free s2 - n\<rparr>
     in upd_page page ClearPageProperty s3)"

definition default_alloc_pages :: "nat \<Rightarrow> pmm \<Rightarrow> (nat option \<times> pmm) option" where
  "default_alloc_pages n s = do {
     massert (0 < n);
     if nr_free s < n then Some (None, s)
     else do {
       page \<leftarrow> first_scan n s FreeList;
       Some (page, (case page of None \<Rightarrow> s | Some p \<Rightarrow> take_from p n s))
     }
   }"

fun release_loop :: "nat list \<Rightarrow> pmm \<Rightarrow> pmm option" where
  "release_loop [] s = Some s"
| "release_loop (i # is) s = do {
     massert (\<not> PageReserved (pages s i) \<and> \<not> PageProperty (pages s i));
     release_loop is (upd_page i (\<lambda>p. set_page_ref 0 (p\<lparr>flags := 0\<rparr>)) s)
   }"

definition default_free_pages :: "nat \<Rightarrow> nat \<Rightarrow> pmm \<Rightarrow> pmm option" where
  "default_free_pages base n s = do {
     massert (0 < n);
     s \<leftarrow> release_loop [base..<base + n] s;
     let s = upd_page base (\<lambda>p. SetPageProperty (p\<lparr>property := u32 n\<rparr>)) s;
     s \<leftarrow> insert_ordered base (s\<lparr>nr_free := u32 (nr_free s + n)\<rparr>);
     let (base', s) = merge_prev base s;
     Some (merge_next base' s)
   }"

definition default_nr_free_pages :: "pmm \<Rightarrow> nat" where
  "default_nr_free_pages s = nr_free s"

text \<open>The best-fit variant: its own scan, and no reset of \<^verbatim>\<open>property\<close> when taking over memory.\<close>

partial_function (option) min_scan ::
  "nat \<Rightarrow> pmm \<Rightarrow> plink \<Rightarrow> nat option \<Rightarrow> nat \<Rightarrow> nat option option" where
  "min_scan n s le page min_size =
     (case list_next le (flinks s) of
        FreeList \<Rightarrow> Some page
      | PageLink p \<Rightarrow>
          if n \<le> property (pages s p) \<and> property (pages s p) < min_size
          then min_scan n s (PageLink p) (Some p) (property (pages s p))
          else min_scan n s (PageLink p) page min_size)"

definition best_fit_alloc_pages :: "nat \<Rightarrow> pmm \<Rightarrow> (nat option \<times> pmm) option" where
  "best_fit_alloc_pages n s = do {
     massert (0 < n);
     if nr_free s < n then Some (None, s)
     else do {
       page \<leftarrow> min_scan n s FreeList None (u32 (nr_free s + 1));
       Some (page, (case page of None \<Rightarrow> s | Some p \<Rightarrow> take_from p n s))
     }
   }"

fun unreserve_loop :: "nat list \<Rightarrow> pmm \<Rightarrow> pmm option" where
  "unreserve_loop [] s = Some s"
| "unreserve_loop (i # is) s = do {
     massert (PageReserved (pages s i));
     unreserve_loop is (upd_page i (\<lambda>p. set_page_ref 0 (p\<lparr>flags := 0\<rparr>)) s)
   }"

definition best_fit_init_memmap :: "nat \<Rightarrow> nat \<Rightarrow> pmm \<Rightarrow> pmm option" where
  "best_fit_init_memmap base n s = do {
     massert (0 < n);
     s \<leftarrow> unreserve_loop [base..<base + n] s;
     let s = upd_page base (\<lambda>p. SetPageProperty (p\<lparr>property := u32 n\<rparr>)) s;
     insert_ordered base (s\<lparr>nr_free := u32 (nr_free s + n)\<rparr>)
   }"

definition best_fit_free_pages :: "nat \<Rightarrow> nat \<Rightarrow> pmm \<Rightarrow> pmm option" where
  "best_fit_free_pages base n s = do {
     massert (0 < n);
     s \<leftarrow> release_loop [base..<base + n] s;
     let s = upd_page base (\<lambda>p. SetPageProperty (p\<lparr>property := u32 n\<rparr>)) s;
     s \<leftarrow> insert_ordered base (s\<lparr>nr_free := u32 (nr_free s + n)\<rparr>);
     let (base', s) = merge_prev base s;
     Some (merge_next base' s)
   }"

declare insert_scan.simps [code] first_scan.simps [code] min_scan.simps [code]

subsection \<open>Allocation on a well-formed list\<close>

lemma first_scan_ring:
  "pages_rep s (us @ vs) \<Longrightarrow>
    first_scan n s (last (FreeList # map PageLink (map fst us))) =
      Some (map_option fst (find (\<lambda>x. n \<le> snd x) vs))"
proof (induction vs arbitrary: us)
  case Nil
  then have "list_next (last (FreeList # map PageLink (map fst us))) (flinks s) = FreeList"
    using dll_next_last [of "flinks s" FreeList "map PageLink (map fst us)" "[]"]
    by (simp add: list_next_def pages_rep_def)
  then show ?case by (subst first_scan.simps) simp
next
  case (Cons v vs)
  have nxt: "list_next (last (FreeList # map PageLink (map fst us))) (flinks s) = PageLink (fst v)"
    using dll_next_last [of "flinks s" FreeList "map PageLink (map fst us)" "map PageLink (map fst (v # vs))"]
      Cons.prems by (simp add: list_next_def pages_rep_def)
  have "property (pages s (fst v)) = snd v"
    using Cons.prems by (auto simp: pages_rep_def)
  then show ?case
    using nxt Cons.IH [of "us @ [v]"] Cons.prems by (subst first_scan.simps) auto
qed

lemma min_scan_ring:
  "pages_rep s (us @ vs) \<Longrightarrow>
    min_scan n s (last (FreeList # map PageLink (map fst us))) (Some b) k =
      Some (fst (best_fit n vs (Some b, k)))"
proof (induction vs arbitrary: us b k)
  case Nil
  then have "list_next (last (FreeList # map PageLink (map fst us))) (flinks s) = FreeList"
    using dll_next_last [of "flinks s" FreeList "map PageLink (map fst us)" "[]"]
    by (simp add: list_next_def pages_rep_def)
  then show ?case by (subst min_scan.simps) simp
next
  case (Cons v vs)
  have nxt: "list_next (last (FreeList # map PageLink (map fst us))) (flinks s) = PageLink (fst v)"
    using dll_next_last [of "flinks s" FreeList "map PageLink (map fst us)" "map PageLink (map fst (v # vs))"]
      Cons.prems by (simp add: list_next_def pages_rep_def)
  have "property (pages s (fst v)) = snd v"
    using Cons.prems by (auto simp: pages_rep_def)
  then show ?case
    using nxt Cons.IH [of "us @ [v]"] Cons.prems by (subst min_scan.simps) auto
qed

lemma min_scan_ring_None:
  "pages_rep s (us @ vs) \<Longrightarrow> \<forall>x\<in>set vs. snd x < m \<Longrightarrow>
    min_scan n s (last (FreeList # map PageLink (map fst us))) None m =
      Some (fst (best_fit n vs (None, 0)))"
proof (induction vs arbitrary: us)
  case Nil
  then have "list_next (last (FreeList # map PageLink (map fst us))) (flinks s) = FreeList"
    using dll_next_last [of "flinks s" FreeList "map PageLink (map fst us)" "[]"]
    by (simp add: list_next_def pages_rep_def)
  then show ?case by (subst min_scan.simps) simp
next
  case (Cons v vs)
  have nxt: "list_next (last (FreeList # map PageLink (map fst us))) (flinks s) = PageLink (fst v)"
    using dll_next_last [of "flinks s" FreeList "map PageLink (map fst us)" "map PageLink (map fst (v # vs))"]
      Cons.prems by (simp add: list_next_def pages_rep_def)
  have "property (pages s (fst v)) = snd v"
    using Cons.prems by (auto simp: pages_rep_def)
  then show ?case
    using nxt Cons.IH [of "us @ [v]"] min_scan_ring [of s "us @ [v]" vs n "fst v" "snd v"] Cons.prems
    by (subst min_scan.simps) auto
qed

lemma take_from_inv:
  assumes inv: "pages_inv U s bs" and bs: "bs = us @ (b, k) # vs" and n: "0 < n" "n \<le> k"
  shows "pages_inv U (take_from b n s) (carve us b k n vs)"
proof -
  have rep: "pages_rep s bs" and co: "coalesced bs" using inv by (auto simp: pages_inv_def)
  have lo: "\<forall>x\<in>set us. fst x < b" and hi: "\<forall>x\<in>set vs. b + k < fst x"
    using co by (auto simp: bs coalesced_append coalesced_Cons)
  have prev: "list_prev (PageLink b) (flinks s) = last (FreeList # map PageLink (map fst us))"
    using rep dll_prev [of "flinks s" FreeList "map PageLink (map fst us)" "PageLink b"]
    by (auto simp: pages_rep_def bs list_prev_def)
  have ring: "dll (list_del (PageLink b) (flinks s)) FreeList (map PageLink (map fst us) @ map PageLink (map fst vs))"
    using rep dll_del [of "flinks s" FreeList "map PageLink (map fst us)" "PageLink b"]
    by (simp add: pages_rep_def bs)
  have pr: "property (pages s b) = k" using rep by (auto simp: pages_rep_def bs)
  have "dll (flinks (take_from b n s)) FreeList (map PageLink (map fst (carve us b k n vs)))"
  proof (cases "n < k")
    case True
    then have "b + n \<notin> fst ` set us" "b + n \<notin> fst ` set vs" using lo hi by fastforce+
    then have "PageLink (b + n) \<notin> set (map PageLink (map fst us) @ map PageLink (map fst vs))" by auto
    from dll_add_after_seam [OF ring _ this] True show ?thesis
      unfolding take_from_def Let_def prev by (simp add: pr carve_def list_add_def)
  qed (use ring in \<open>simp add: take_from_def Let_def pr carve_def\<close>)
  then have "pages_rep (take_from b n s) (carve us b k n vs)"
    using rep n lo hi unfolding pages_rep_def bs
    by (auto simp: take_from_def Let_def pr carve_def)
  moreover have "\<forall>p\<in>U. \<not> PageReserved (pages (take_from b n s) p)"
    using inv by (auto simp: pages_inv_def take_from_def Let_def)
  ultimately show ?thesis
    using inv coalesced_carve [OF co [unfolded bs] n] by (auto simp: pages_inv_def bs)
qed


lemma find_split:
  "find P xs = Some x \<Longrightarrow> \<exists>us vs. xs = us @ x # vs \<and> P x \<and> (\<forall>y\<in>set us. \<not> P y)"
  by (induction xs) (force split: if_splits intro: exI [of _ "_ # _"])+

lemma default_alloc_cases:
  assumes inv: "pages_inv U s bs" and "0 < n"
  obtains (none) "default_alloc_pages n s = Some (None, s)" "\<forall>x\<in>set bs. snd x < n"
    | (some) us b k vs where "default_alloc_pages n s = Some (Some b, take_from b n s)"
      "bs = us @ (b, k) # vs" "n \<le> k" "\<forall>x\<in>set us. snd x < n"
      "pages_inv U (take_from b n s) (carve us b k n vs)"
proof -
  have rep: "pages_rep s bs" using inv by (simp add: pages_inv_def)
  have scan: "first_scan n s FreeList = Some (map_option fst (find (\<lambda>x. n \<le> snd x) bs))"
    using first_scan_ring [of s "[]" bs n] rep by simp
  show ?thesis
  proof (cases "find (\<lambda>x. n \<le> snd x) bs")
    case None
    then have "\<forall>x\<in>set bs. snd x < n" by (auto simp: find_None_iff not_le)
    moreover have "default_alloc_pages n s = Some (None, s)"
      using scan None assms(2) by (simp add: default_alloc_pages_def)
    ultimately show ?thesis using none by blast
  next
    case (Some x)
    then obtain us vs where bs: "bs = us @ x # vs" "n \<le> snd x" "\<forall>y\<in>set us. snd y < n"
      using find_split [OF Some] by (auto simp: not_le)
    then have "\<not> nr_free s < n" using rep by (auto simp: pages_rep_def)
    then have "default_alloc_pages n s = Some (Some (fst x), take_from (fst x) n s)"
      using scan Some assms(2) by (simp add: default_alloc_pages_def)
    then show ?thesis
      using some [of "fst x" us "snd x" vs] take_from_inv [OF inv, of us "fst x" "snd x" vs n] bs assms(2)
      by simp
  qed
qed

lemma best_fit_alloc_cases:
  assumes inv: "pages_inv U s bs" and "0 < n" and room: "nr_free s + 1 < 2 ^ 32"
  obtains (none) "best_fit_alloc_pages n s = Some (None, s)" "\<forall>x\<in>set bs. snd x < n"
    | (some) us b k vs where "best_fit_alloc_pages n s = Some (Some b, take_from b n s)"
      "bs = us @ (b, k) # vs" "n \<le> k" "\<forall>x\<in>set bs. n \<le> snd x \<longrightarrow> k \<le> snd x"
      "pages_inv U (take_from b n s) (carve us b k n vs)"
proof -
  have rep: "pages_rep s bs" using inv by (simp add: pages_inv_def)
  have "\<forall>x\<in>set bs. snd x < nr_free s + 1"
    using rep by (auto simp: pages_rep_def less_Suc_eq_le dest: block_le_total)
  then have scan: "min_scan n s FreeList None (u32 (nr_free s + 1)) = Some (fst (best_fit n bs (None, 0)))"
    using min_scan_ring_None [of s "[]" bs "nr_free s + 1" n] rep room by simp
  obtain r k where rk: "best_fit n bs (None, 0) = (r, k)" by fastforce
  show ?thesis
  proof (cases r)
    case None
    then show ?thesis
      using none best_fit_None [of n bs k] rk scan assms(2) by (simp add: best_fit_alloc_pages_def)
  next
    case (Some b)
    then have bk: "(b, k) \<in> set bs" "n \<le> k" "\<forall>x\<in>set bs. n \<le> snd x \<longrightarrow> k \<le> snd x"
      using best_fit_Some [of n bs b k] rk by auto
    then obtain us vs where bs: "bs = us @ (b, k) # vs" by (auto simp: in_set_conv_decomp)
    then have "\<not> nr_free s < n" using rep bk by (auto simp: pages_rep_def)
    then have "best_fit_alloc_pages n s = Some (Some b, take_from b n s)"
      using scan rk Some assms(2) by (simp add: best_fit_alloc_pages_def)
    then show ?thesis
      using some bs bk take_from_inv [OF inv bs assms(2)] by blast
  qed
qed

subsection \<open>The insertion loop\<close>

lemma insert_scan_middle:
  "dll h FreeList (map PageLink (us @ ts @ q # vs)) \<Longrightarrow> \<forall>p\<in>set ts. p < base \<Longrightarrow> base < q \<Longrightarrow>
    insert_scan base (last (FreeList # map PageLink us)) h =
      Some (list_add_before (PageLink q) (PageLink base) h)"
proof (induction ts arbitrary: us)
  case Nil
  then have "list_next (last (FreeList # map PageLink us)) h = PageLink q"
    using dll_next_last [of h FreeList "map PageLink us" "map PageLink (q # vs)"] by (simp add: list_next_def)
  then show ?case using Nil.prems by (subst insert_scan.simps) simp
next
  case (Cons t ts)
  have nxt: "list_next (last (FreeList # map PageLink us)) h = PageLink t"
    using dll_next_last [of h FreeList "map PageLink us" "map PageLink (t # ts @ q # vs)"] Cons.prems
    by (simp add: list_next_def)
  have "list_next (PageLink t) h \<noteq> FreeList"
    using dll_next_last [of h FreeList "map PageLink (us @ [t])" "map PageLink (ts @ q # vs)"] Cons.prems
    by (cases ts) (simp_all add: list_next_def)
  then show ?case
    using nxt Cons.IH [of "us @ [t]"] Cons.prems by (subst insert_scan.simps) simp
qed

lemma insert_scan_tail:
  "dll h FreeList (map PageLink (us @ ts @ [q])) \<Longrightarrow> \<forall>p\<in>set (ts @ [q]). p < base \<Longrightarrow>
    base \<notin> set us \<Longrightarrow>
    insert_scan base (last (FreeList # map PageLink us)) h =
      Some (list_add (PageLink base) (PageLink base) (list_add (PageLink q) (PageLink base) h))"
proof (induction ts arbitrary: us)
  case Nil
  have nxt: "list_next (last (FreeList # map PageLink us)) h = PageLink q"
    using dll_next_last [of h FreeList "map PageLink us" "map PageLink [q]"] Nil.prems
    by (simp add: list_next_def)
  have end': "list_next (PageLink q) h = FreeList"
    using dll_next [of h FreeList "map PageLink us" "PageLink q" "[]"] Nil.prems by (simp add: list_next_def)
  let ?h = "list_add (PageLink q) (PageLink base) h"
  have 1: "list_next (PageLink q) ?h = PageLink base" "list_next (PageLink base) ?h = FreeList"
    "list_next (PageLink base) (list_add (PageLink base) (PageLink base) ?h) = FreeList"
    using end' Nil.prems(2) by (auto simp: list_op_defs)
  then have "insert_scan base (PageLink base) (list_add (PageLink base) (PageLink base) ?h) =
      Some (list_add (PageLink base) (PageLink base) ?h)"
    by (subst insert_scan.simps) simp
  then have "insert_scan base (PageLink q) ?h = Some (list_add (PageLink base) (PageLink base) ?h)"
    using 1 by (subst insert_scan.simps) simp
  then show ?case using nxt end' Nil.prems(2) by (subst insert_scan.simps) simp
next
  case (Cons t ts)
  have nxt: "list_next (last (FreeList # map PageLink us)) h = PageLink t"
    using dll_next_last [of h FreeList "map PageLink us" "map PageLink (t # ts @ [q])"] Cons.prems
    by (simp add: list_next_def)
  have "list_next (PageLink t) h \<noteq> FreeList"
    using dll_next_last [of h FreeList "map PageLink (us @ [t])" "map PageLink (ts @ [q])"] Cons.prems
    by (cases ts) (simp_all add: list_next_def)
  then show ?case
    using nxt Cons.IH [of "us @ [t]"] Cons.prems by (subst insert_scan.simps) simp
qed

lemma insert_ordered_ok:
  assumes "dll (flinks s) FreeList (map PageLink ps)" "base \<notin> set ps"
    and "ps = [] \<or> (\<exists>p\<in>set ps. base < p)"
  shows "\<exists>h. insert_ordered base s = Some (s\<lparr>flinks := h\<rparr>) \<and>
    dll h FreeList (map PageLink
      (takeWhile (\<lambda>p. p \<le> base) ps @ base # dropWhile (\<lambda>p. p \<le> base) ps))"
proof (cases "ps = []")
  case True
  then show ?thesis
    using assms(1) dll_add_after_head [of "flinks s" FreeList "[]" "PageLink base"]
    by (auto simp: insert_ordered_def dll_empty_iff upd_links_def list_add_def)
next
  case False
  define t where "t = takeWhile (\<lambda>p. p \<le> base) ps"
  have "dropWhile (\<lambda>p. p \<le> base) ps \<noteq> []" using assms(3) False by (auto simp: dropWhile_eq_Nil_conv not_le)
  then obtain q vs where d: "dropWhile (\<lambda>p. p \<le> base) ps = q # vs"
    by (cases "dropWhile (\<lambda>p. p \<le> base) ps") auto
  then have q: "base < q" using hd_dropWhile [of "\<lambda>p. p \<le> base" ps] by auto
  have ps: "ps = t @ q # vs" using takeWhile_dropWhile_id [of "\<lambda>p. p \<le> base" ps] d by (simp add: t_def)
  have t: "\<forall>p\<in>set t. p < base"
    using assms(2) unfolding t_def by (metis le_neq_implies_less set_takeWhileD)
  have ring: "dll (flinks s) FreeList (map PageLink (t @ q # vs))" using assms(1) unfolding ps .
  have "insert_scan base FreeList (flinks s) = Some (list_add_before (PageLink q) (PageLink base) (flinks s))"
    using insert_scan_middle [of "flinks s" "[]" t q vs base] ring t q by simp
  then have "insert_ordered base s = Some (s\<lparr>flinks := list_add_before (PageLink q) (PageLink base) (flinks s)\<rparr>)"
    using ring by (simp add: insert_ordered_def dll_empty_iff)
  moreover have "dll (list_add_before (PageLink q) (PageLink base) (flinks s)) FreeList
      (map PageLink t @ PageLink base # PageLink q # map PageLink vs)"
    using assms(2) ring unfolding ps by (intro dll_add_before) auto
  ultimately show ?thesis unfolding d t_def [symmetric] by auto
qed

definition released :: "page \<Rightarrow> page" where
  "released p = set_page_ref 0 (p\<lparr>flags := 0\<rparr>)"

lemma released_sel [simp]: "flags (released p) = 0" "released (released p) = released p"
  by (simp_all add: released_def set_page_ref_def)

lemma release_loop_ok:
  "(\<forall>i\<in>set is. \<not> PageReserved (pages s i) \<and> \<not> PageProperty (pages s i)) \<Longrightarrow>
    release_loop is s = Some (s\<lparr>pages := (\<lambda>i. if i \<in> set is then released (pages s i) else pages s i)\<rparr>)"
proof (induction "is" arbitrary: s)
  case (Cons i "is")
  have "upd_page i (\<lambda>p. set_page_ref 0 (p\<lparr>flags := 0\<rparr>)) s = upd_page i released s"
    by (simp add: upd_page_def released_def)
  moreover have "\<forall>j\<in>set is. \<not> PageReserved (pages (upd_page i released s) j) \<and>
      \<not> PageProperty (pages (upd_page i released s) j)"
    using Cons.prems by auto
  ultimately show ?case
    using Cons.prems Cons.IH [of "upd_page i released s"]
    by (auto simp: upd_page_def fun_eq_iff intro!: arg_cong [where f = "\<lambda>f. s\<lparr>pages := f\<rparr>" for s])
qed simp

lemma default_free_prefix:
  assumes inv: "pages_inv U s bs" and "0 < n" "{base..<base + n} \<subseteq> U" "{base..<base + n} \<inter> free_set bs = {}"
    and "nr_free s + n < 2 ^ 32"
  obtains s1 where "flinks s1 = flinks s" "nr_free s1 = nr_free s + n"
    "default_free_pages base n s = insert_ordered base s1 \<bind> (\<lambda>s. let (base', s) = merge_prev base s in Some (merge_next base' s))"
    "PageProperty (pages s1 base)" "property (pages s1 base) = n"
    "\<forall>p. p \<noteq> base \<longrightarrow> PageProperty (pages s1 p) = PageProperty (pages s p)"
    "\<forall>p. p \<notin> {base..<base + n} \<longrightarrow> pages s1 p = pages s p"
    "\<forall>p\<in>U. \<not> PageReserved (pages s1 p)"
proof -
  let ?s = "s\<lparr>pages := (\<lambda>i. if i \<in> set [base..<base + n] then released (pages s i) else pages s i)\<rparr>"
  let ?s1 = "(upd_page base (\<lambda>p. SetPageProperty (p\<lparr>property := u32 n\<rparr>)) ?s)\<lparr>nr_free := nr_free s + n\<rparr>"
  have rep: "pages_rep s bs" and co: "coalesced bs" using inv by (auto simp: pages_inv_def)
  have heads: "fst ` set bs \<subseteq> free_set bs"
    using co fst_in_free_set [OF coalesced_ordered] by blast
  then have clean: "\<forall>i\<in>set [base..<base + n]. \<not> PageReserved (pages s i) \<and> \<not> PageProperty (pages s i)"
    using inv assms(3,4) by (auto simp: pages_inv_def pages_rep_def)
  then have "release_loop [base..<base + n] s = Some ?s" by (rule release_loop_ok)
  then have "default_free_pages base n s = insert_ordered base ?s1 \<bind>
      (\<lambda>s. let (base', s) = merge_prev base s in Some (merge_next base' s))"
    using assms(2,5) by (simp add: default_free_pages_def Let_def)
  then show ?thesis
    using that [of ?s1] clean inv assms(2,5) by (auto simp: pages_inv_def)
qed

lemma pages_rep_add:
  assumes "pages_rep s (us @ vs)" "dll (flinks s') FreeList (map PageLink (map fst (us @ (base, n) # vs)))"
    and "property (pages s' base) = n" "\<And>x. x \<in> set (us @ vs) \<Longrightarrow> pages s' (fst x) = pages s (fst x)"
    and "PageProperty (pages s' base)" "\<forall>p. p \<noteq> base \<longrightarrow> PageProperty (pages s' p) = PageProperty (pages s p)"
    and "nr_free s' = nr_free s + n" "nr_free s + n < 2 ^ 32"
  shows "pages_rep s' (us @ (base, n) # vs)"
proof -
  have "PageProperty (pages s' p) \<longleftrightarrow> p \<in> fst ` set (us @ (base, n) # vs)" for p
    using assms(1,5,6) by (cases "p = base") (simp_all add: pages_rep_def)
  then show ?thesis using assms unfolding pages_rep_def by auto
qed

lemma default_free_inv:
  assumes inv: "pages_inv U s bs" and "0 < n" "{base..<base + n} \<subseteq> U" "{base..<base + n} \<inter> free_set bs = {}"
    and "nr_free s + n < 2 ^ 32" and room: "bs = [] \<or> (\<exists>x\<in>set bs. base < fst x)"
  shows "\<exists>s' bs'. default_free_pages base n s = Some s' \<and> pages_inv U s' bs' \<and>
    free_set bs' = free_set bs \<union> {base..<base + n}"
proof -
  obtain s1 where s1: "flinks s1 = flinks s" "nr_free s1 = nr_free s + n"
    "default_free_pages base n s = insert_ordered base s1 \<bind> (\<lambda>s. let (base', s) = merge_prev base s in Some (merge_next base' s))"
    "PageProperty (pages s1 base)" "property (pages s1 base) = n"
    "\<forall>p. p \<noteq> base \<longrightarrow> PageProperty (pages s1 p) = PageProperty (pages s p)"
    "\<forall>p. p \<notin> {base..<base + n} \<longrightarrow> pages s1 p = pages s p" "\<forall>p\<in>U. \<not> PageReserved (pages s1 p)"
    using default_free_prefix [OF assms(1-5)] by blast
  let ?us = "takeWhile (\<lambda>x. fst x \<le> base) bs" and ?vs = "dropWhile (\<lambda>x. fst x \<le> base) bs"
  have rep: "pages_rep s bs" and co: "coalesced bs" using inv by (auto simp: pages_inv_def)
  have bs: "bs = ?us @ ?vs" by simp
  have co': "coalesced ?us" "coalesced ?vs" using co bs by (metis coalesced_append)+
  have sp: "span (base, n) \<inter> free_set bs = {}" using assms(4) by (auto simp: span_def)
  have ord: "ordered (?us @ (base, n) # ?vs)"
    using co assms(2) sp by (intro ordered_insert coalesced_ordered)
  have heads: "fst x \<notin> {base..<base + n}" if "x \<in> set bs" for x
    using that co fst_in_free_set [OF coalesced_ordered] assms(4) by blast
  then have notin: "base \<notin> set (map fst bs)" using assms(2) by force
  obtain h where h: "insert_ordered base s1 = Some (s1\<lparr>flinks := h\<rparr>)"
    "dll h FreeList (map PageLink (map fst (?us @ (base, n) # ?vs)))"
    using insert_ordered_ok [of s1 "map fst bs" base] rep notin room s1(1)
    by (auto simp: pages_rep_def takeWhile_map dropWhile_map o_def)
  have "pages_rep s (?us @ ?vs)" using rep by simp
  then have "pages_rep (s1\<lparr>flinks := h\<rparr>) (?us @ (base, n) # ?vs)"
    by (rule pages_rep_add) (use h(2) s1 assms(5) heads notin bs in auto)
  from merge_prev_ok [OF this ord co'(1)] obtain s3 us x where
    s3: "merge_prev base (s1\<lparr>flinks := h\<rparr>) = (fst x, s3)" "pages_rep s3 (us @ x # ?vs)"
    "ordered (us @ x # ?vs)" "coalesced (us @ [x])" "same_reserved (s1\<lparr>flinks := h\<rparr>) s3"
    "free_set (us @ x # ?vs) = free_set (?us @ (base, n) # ?vs)" by auto
  obtain bs' where bs': "pages_rep (merge_next (fst x) s3) bs'" "coalesced bs'"
    "free_set bs' = free_set (us @ x # ?vs)" "same_reserved s3 (merge_next (fst x) s3)"
    using merge_next_ok [OF s3(2,3,4) co'(2)] by auto
  have F: "free_set (?us @ (base, n) # ?vs) = free_set bs \<union> {base..<base + n}"
    by (subst (3) bs) (simp only: free_set_simps span_def fst_conv snd_conv, blast)
  have "pages_inv U (merge_next (fst x) s3) bs'"
    using bs' s3 s1(8) F inv assms(3) by (auto simp: pages_inv_def same_reserved_def)
  moreover have "default_free_pages base n s = Some (merge_next (fst x) s3)"
    using s1(3) h(1) s3(1) by simp
  ultimately show ?thesis using bs'(3) s3(6) F by blast
qed

lemma default_free_tail:
  assumes inv: "pages_inv U s bs" and "0 < n" "{base..<base + n} \<subseteq> U" "{base..<base + n} \<inter> free_set bs = {}"
    and "nr_free s + n < 2 ^ 32" and "bs \<noteq> []" "\<forall>x\<in>set bs. fst x < base"
  shows "\<exists>s'. default_free_pages base n s = Some s' \<and> list_prev (PageLink base) (flinks s') = PageLink base \<and>
    list_prev FreeList (flinks s') = PageLink base"
proof -
  obtain s1 where s1: "flinks s1 = flinks s"
    "default_free_pages base n s = insert_ordered base s1 \<bind> (\<lambda>s. let (base', s) = merge_prev base s in Some (merge_next base' s))"
    "property (pages s1 base) = n"
    using default_free_prefix [OF assms(1-5)] by blast
  obtain ts q where bs: "map fst bs = ts @ [q]" using assms(6) by (cases "map fst bs" rule: rev_cases) auto
  have ring: "dll (flinks s) FreeList (map PageLink (ts @ [q]))"
    using inv bs by (auto simp: pages_inv_def pages_rep_def)
  let ?h = "list_add (PageLink base) (PageLink base) (list_add (PageLink q) (PageLink base) (flinks s))"
  have "\<forall>p\<in>set (ts @ [q]). p < base" using assms(7) unfolding bs [symmetric] by auto
  then have "insert_scan base FreeList (flinks s) = Some ?h"
    using insert_scan_tail [of "flinks s" "[]" ts q base] ring by simp
  then have ins: "insert_ordered base s1 = Some (s1\<lparr>flinks := ?h\<rparr>)"
    using ring s1(1) by (simp add: insert_ordered_def dll_empty_iff)
  have "lnext (flinks s) (PageLink q) = FreeList"
    using dll_next [of "flinks s" FreeList "map PageLink ts" "PageLink q" "[]"] ring by simp
  then have nav: "lprev ?h (PageLink base) = PageLink base" "lnext ?h (PageLink base) = FreeList"
    "lprev ?h FreeList = PageLink base"
    by (auto simp: list_op_defs)
  then have "merge_prev base (s1\<lparr>flinks := ?h\<rparr>) = (base, s1\<lparr>flinks := ?h\<rparr>)"
    using s1(3) assms(2) by (simp add: merge_prev_def list_prev_def)
  moreover have "merge_next base (s1\<lparr>flinks := ?h\<rparr>) = s1\<lparr>flinks := ?h\<rparr>"
    using nav by (simp add: merge_next_def list_next_def)
  ultimately have "default_free_pages base n s = Some (s1\<lparr>flinks := ?h\<rparr>)"
    using s1(2) ins by simp
  with nav show ?thesis by (simp add: list_prev_def)
qed

lemma self_prev_no_ring:
  assumes "lprev h lh = e" "lprev h e = e" "e \<noteq> lh"
  shows "\<not> dll h lh xs"
proof
  assume ring: "dll h lh xs"
  then have "xs \<noteq> []" "last xs = e" using assms dll_prev_head [OF ring] by (auto split: if_splits)
  then obtain us where xs: "xs = us @ [e]" by (metis append_butlast_last_id)
  with dll_prev [of h lh us e "[]"] ring assms(2,3) have "us \<noteq> []" "last us = e" by (auto split: if_splits)
  then show False using dll_distinct [OF ring] xs by (metis distinct_append disjoint_iff last_in_set list.set_intros(1))
qed

subsection \<open>Properties\<close>

text \<open>C27: first-fit allocation. On a well-formed free list a request for \<open>n > 0\<close> pages returns. It
  returns NULL, with nothing changed, only if no run of \<open>n\<close> consecutive pages is free; otherwise
  it returns the start of the first block in address order that is large enough, exactly its
  first \<open>n\<close> pages stop being free, and the list stays well formed and coalesced.\<close>

theorem default_alloc_first_fit:
  assumes "pages_inv U s bs" "0 < n"
  shows "case default_alloc_pages n s of
      None \<Rightarrow> False
    | Some (None, s') \<Rightarrow> s' = s \<and> (\<forall>c. \<not> {c..<c + n} \<subseteq> free_set bs)
    | Some (Some b, s') \<Rightarrow>
        (\<exists>k. (b, k) \<in> set bs \<and> n \<le> k \<and> (\<forall>x\<in>set bs. n \<le> snd x \<longrightarrow> b \<le> fst x)) \<and>
        (\<exists>bs'. pages_inv U s' bs' \<and> free_set bs' = free_set bs - {b..<b + n})"
  using assms
proof (cases rule: default_alloc_cases)
  case none
  then show ?thesis using no_fit assms by (auto simp: pages_inv_def)
next
  case (some us b k vs)
  have co: "coalesced (us @ (b, k) # vs)" using assms(1) some(2) by (simp add: pages_inv_def)
  then have "\<forall>x\<in>set bs. n \<le> snd x \<longrightarrow> b \<le> fst x"
    using some(2,4) by (force simp: coalesced_append coalesced_Cons)
  moreover have "(b, k) \<in> set bs" using some(2) by simp
  ultimately show ?thesis
    using some coalesced_carve [OF co assms(2) some(3)] by auto
qed

theorem default_alloc_first_fit_witness:
  "\<exists>s. slub_page_init_memmap 2 10 reserved_pmm = Some s \<and> (case default_alloc_pages 3 s of
      None \<Rightarrow> False
    | Some (None, s') \<Rightarrow> s' = s \<and> (\<forall>c. \<not> {c..<c + 3} \<subseteq> free_set [(2, 10)])
    | Some (Some b, s') \<Rightarrow>
        (\<exists>k. (b, k) \<in> set [(2 :: nat, 10 :: nat)] \<and> 3 \<le> k \<and> (\<forall>x\<in>set [(2 :: nat, 10 :: nat)]. 3 \<le> snd x \<longrightarrow> b \<le> fst x)) \<and>
        (\<exists>bs'. pages_inv {2..<12} s' bs' \<and> free_set bs' = free_set [(2, 10)] - {b..<b + 3}))"
proof -
  obtain s where s: "slub_page_init_memmap 2 10 reserved_pmm = Some s" "pages_inv {2..<12} s [(2, 10)]"
    using booted_inv [of 10 2] by auto
  have "0 < (3::nat)" by simp
  from default_alloc_first_fit [OF s(2) this] s(1) show ?thesis
    by (intro exI [of _ s] conjI)
qed

text \<open>C31: the best-fit variant of lab 2. As long as the counter of free pages plus one fits 32 bits
  (the initial bound of its search is \<^verbatim>\<open>nr_free + 1\<close>), it returns NULL only if no run of \<open>n\<close> pages
  is free, and otherwise a smallest sufficient block, from which it carves exactly \<open>n\<close> pages.\<close>

theorem best_fit_alloc_correct:
  assumes "pages_inv U s bs" "0 < n" "nr_free s + 1 < 2 ^ 32"
  shows "case best_fit_alloc_pages n s of
      None \<Rightarrow> False
    | Some (None, s') \<Rightarrow> s' = s \<and> (\<forall>c. \<not> {c..<c + n} \<subseteq> free_set bs)
    | Some (Some b, s') \<Rightarrow>
        (\<exists>k. (b, k) \<in> set bs \<and> n \<le> k \<and> (\<forall>x\<in>set bs. n \<le> snd x \<longrightarrow> k \<le> snd x)) \<and>
        (\<exists>bs'. pages_inv U s' bs' \<and> free_set bs' = free_set bs - {b..<b + n})"
  using assms
proof (cases rule: best_fit_alloc_cases)
  case none
  then show ?thesis using no_fit assms by (auto simp: pages_inv_def)
next
  case (some us b k vs)
  have co: "coalesced (us @ (b, k) # vs)" using assms(1) some(2) by (simp add: pages_inv_def)
  with some coalesced_carve [OF co assms(2) some(3)] show ?thesis by auto
qed

theorem best_fit_alloc_correct_witness:
  "\<exists>s. slub_page_init_memmap 2 10 reserved_pmm = Some s \<and> (case best_fit_alloc_pages 3 s of
      None \<Rightarrow> False
    | Some (None, s') \<Rightarrow> s' = s \<and> (\<forall>c. \<not> {c..<c + 3} \<subseteq> free_set [(2, 10)])
    | Some (Some b, s') \<Rightarrow>
        (\<exists>k. (b, k) \<in> set [(2, 10)] \<and> 3 \<le> k \<and> (\<forall>x\<in>set [(2 :: nat, 10 :: nat)]. 3 \<le> snd x \<longrightarrow> k \<le> snd x)) \<and>
        (\<exists>bs'. pages_inv {2..<12} s' bs' \<and> free_set bs' = free_set [(2, 10)] - {b..<b + 3}))"
proof -
  obtain s where s: "slub_page_init_memmap 2 10 reserved_pmm = Some s" "pages_inv {2..<12} s [(2, 10)]"
    using booted_inv [of 10 2] by auto
  have "0 < (3::nat)" "nr_free s + 1 < 2 ^ 32" using s(2) by (auto simp: pages_inv_def pages_rep_def)
  from best_fit_alloc_correct [OF s(2) this] s(1) show ?thesis
    by (intro exI [of _ s] conjI)
qed

text \<open>C28: freeing in the first-fit allocator when the block does not become the last of a non-empty
  list. The call returns, the freed pages are added to the free pages, and the list is again
  ordered, coalesced and well linked.\<close>

theorem default_free_not_last:
  assumes "pages_inv U s bs" "0 < n" "{base..<base + n} \<subseteq> U - free_set bs" "nr_free s + n < 2 ^ 32"
    and "bs = [] \<or> (\<exists>x\<in>set bs. base < fst x)"
  shows "\<exists>s' bs'. default_free_pages base n s = Some s' \<and> pages_inv U s' bs' \<and>
    free_set bs' = free_set bs \<union> {base..<base + n}"
  using default_free_inv [OF assms(1,2) _ _ assms(4,5)] assms(3) by blast

theorem default_free_not_last_witness:
  "\<exists>s s1 s' bs'. slub_page_init_memmap 2 10 reserved_pmm = Some s \<and>
    default_alloc_pages 3 s = Some (Some 2, s1) \<and>
    default_free_pages 2 3 s1 = Some s' \<and> pages_inv {2..<12} s' bs' \<and> free_set bs' = {2..<12}"
proof -
  obtain s where s: "slub_page_init_memmap 2 10 reserved_pmm = Some s" "pages_inv {2..<12} s [(2, 10)]"
    using booted_inv [of 10 2] by auto
  have "0 < (3::nat)" by simp
  from s(2) this obtain s1 where s1: "default_alloc_pages 3 s = Some (Some 2, s1)"
    "pages_inv {2..<12} s1 [(5, 7)]"
    by (cases rule: default_alloc_cases) (auto simp: carve_def Cons_eq_append_conv)
  have "{2..<2 + 3} \<subseteq> {2..<12} - free_set [(5 :: nat, 7)]" by (auto simp: span_def)
  moreover have "nr_free s1 + 3 < 2 ^ 32" using s1(2) by (auto simp: pages_inv_def pages_rep_def)
  moreover have "[(5 :: nat, 7 :: nat)] = [] \<or> (\<exists>x\<in>set [(5 :: nat, 7 :: nat)]. 2 < fst x)" by simp
  ultimately obtain s' bs' where "default_free_pages 2 3 s1 = Some s'" "pages_inv {2..<12} s' bs'"
    "free_set bs' = free_set [(5, 7)] \<union> {2..<2 + 3}"
    using default_free_not_last [OF s1(2) \<open>0 < 3\<close>] by blast
  moreover have "free_set [(5 :: nat, 7)] \<union> {2..<2 + 3} = {2..<12}" by (auto simp: span_def)
  ultimately show ?thesis using s(1) s1(1) by metis
qed

text \<open>C29: freeing behind the last block damages the list. If the freed block lies behind every block
  of a non-empty free list, \<^verbatim>\<open>default_free_pages\<close> returns with the block's \<^verbatim>\<open>prev\<close> link pointing to
  the block itself, and the links are no doubly linked ring for any sequence of blocks.\<close>

theorem default_free_last_breaks_ring:
  assumes "pages_inv U s bs" "0 < n" "{base..<base + n} \<subseteq> U - free_set bs" "nr_free s + n < 2 ^ 32"
    and "bs \<noteq> []" "\<forall>x\<in>set bs. fst x < base"
  shows "\<exists>s'. default_free_pages base n s = Some s' \<and>
    list_prev (PageLink base) (flinks s') = PageLink base \<and> (\<forall>xs. \<not> dll (flinks s') FreeList xs)"
proof -
  have "{base..<base + n} \<subseteq> U" "{base..<base + n} \<inter> free_set bs = {}" using assms(3) by auto
  from default_free_tail [OF assms(1,2) this assms(4-6)] obtain s' where
    s': "default_free_pages base n s = Some s'" "list_prev (PageLink base) (flinks s') = PageLink base"
    "list_prev FreeList (flinks s') = PageLink base" by blast
  then have "\<not> dll (flinks s') FreeList xs" for xs
    using self_prev_no_ring [of "flinks s'" FreeList "PageLink base" xs] by (simp add: list_prev_def)
  with s' show ?thesis by blast
qed

theorem default_free_last_breaks_ring_witness:
  "\<exists>s1 s'. pages_inv {2..<12} s1 [(2, 2)] \<and> default_free_pages 8 4 s1 = Some s' \<and>
    list_prev (PageLink 8) (flinks s') = PageLink 8 \<and> (\<forall>xs. \<not> dll (flinks s') FreeList xs)"
proof -
  let ?s = "upd_links (list_add FreeList (PageLink 2))
    (upd_page 2 (\<lambda>p. SetPageProperty (p\<lparr>property := 2\<rparr>))
      (reserved_pmm\<lparr>pages := (\<lambda>_. clean_page), nr_free := 2\<rparr>))"
  have inv: "pages_inv {2..<12} ?s [(2, 2)]"
    by (auto simp: pages_inv_def pages_rep_def dll_def list_op_defs coalesced_Cons span_def
        reserved_pmm_def page_area_init_def)
  have "{8..<8 + 4} \<subseteq> {2..<12} - free_set [(2 :: nat, 2)]" by (auto simp: span_def)
  from default_free_last_breaks_ring [OF inv _ this] have
    "\<exists>s'. default_free_pages 8 4 ?s = Some s' \<and>
      list_prev (PageLink 8) (flinks s') = PageLink 8 \<and> (\<forall>xs. \<not> dll (flinks s') FreeList xs)"
    by simp
  with inv show ?thesis by blast
qed

text \<open>An example of what the damage leads to, a page handed out twice: on a freshly initialised allocator of 13
  pages this sequence of requests, each of which frees only what it was given, ends with the
  block of five pages at page 2 held twice.\<close>

lemma double_allocation_run:
  "map_option snd (do {
     s \<leftarrow> default_init_memmap 0 13 reserved_pmm;
     serve default_alloc_pages default_free_pages
       [Alloc 1, Alloc 1, Alloc 5, Alloc 1, Alloc 5, Release 4, Release 2, Alloc 5, Release 1, Alloc 5] (s, [])
   }) = Some [(2, 5), (2, 5), (7, 1), (1, 1)]"
  by code_simp

end
