(* ===== verification/Skew_Heap.thy ===== *)
theory Skew_Heap
  imports Kernel_Prelude "HOL-Library.Tree_Multiset"
begin

section \<open>Skew heaps (libs/skew\_heap.h)\<close>

text \<open>
  The priority queue behind the stride scheduler, an intrusive tree of \<^verbatim>\<open>skew_heap_entry\<close> nodes with
  parent, left and right pointers. Nodes are addresses of type \<open>'a\<close>, NULL is \<open>None\<close>, and the store
  of all nodes is a record of three functions. \<open>skew_heap_merge\<close> recurses along right spines, so it
  is a \<open>partial_function\<close>: on a cyclic structure it does not return.

  \<open>heap_rep h r p t\<close> relates pointers to the tree \<open>t\<close> that they form, root \<open>r\<close> with parent pointer
  \<open>p\<close>. The refinement lemmas show that the pointer operations return and implement \<open>smerge\<close> and
  \<open>sremove\<close> on trees; the algebraic lemmas show that these keep the elements and the heap order.
\<close>

subsection \<open>Operations\<close>

record 'a skew_heap_entry =
  sparent :: "'a \<Rightarrow> 'a option"
  sleft :: "'a \<Rightarrow> 'a option"
  sright :: "'a \<Rightarrow> 'a option"

definition set_parent :: "'a \<Rightarrow> 'a option \<Rightarrow> 'a skew_heap_entry \<Rightarrow> 'a skew_heap_entry" where
  "set_parent a x h = h\<lparr>sparent := (sparent h)(a := x)\<rparr>"

definition set_left :: "'a \<Rightarrow> 'a option \<Rightarrow> 'a skew_heap_entry \<Rightarrow> 'a skew_heap_entry" where
  "set_left a x h = h\<lparr>sleft := (sleft h)(a := x)\<rparr>"

definition set_right :: "'a \<Rightarrow> 'a option \<Rightarrow> 'a skew_heap_entry \<Rightarrow> 'a skew_heap_entry" where
  "set_right a x h = h\<lparr>sright := (sright h)(a := x)\<rparr>"

definition skew_heap_init :: "'a \<Rightarrow> 'a skew_heap_entry \<Rightarrow> 'a skew_heap_entry" where
  "skew_heap_init a h = set_left a None (set_right a None (set_parent a None h))"

text \<open>\<^verbatim>\<open>if (l) l->parent = a\<close>\<close>

definition adopt :: "'a option \<Rightarrow> 'a option \<Rightarrow> 'a skew_heap_entry \<Rightarrow> 'a skew_heap_entry" where
  "adopt l p h = (case l of None \<Rightarrow> h | Some x \<Rightarrow> set_parent x p h)"

partial_function (option) skew_heap_merge ::
  "('a \<Rightarrow> 'a \<Rightarrow> int) \<Rightarrow> 'a option \<Rightarrow> 'a option \<Rightarrow> 'a skew_heap_entry \<Rightarrow>
    ('a option \<times> 'a skew_heap_entry) option" where
  "skew_heap_merge cmp a b h =
     (case a of
        None \<Rightarrow> Some (b, h)
      | Some x \<Rightarrow>
          (case b of
             None \<Rightarrow> Some (a, h)
           | Some y \<Rightarrow>
               if cmp x y = - 1 then do {
                 (l, h') \<leftarrow> skew_heap_merge cmp (sright h x) b h;
                 Some (a, adopt l (Some x) (set_right x (sleft h x) (set_left x l h')))
               } else do {
                 (l, h') \<leftarrow> skew_heap_merge cmp a (sright h y) h;
                 Some (b, adopt l (Some y) (set_right y (sleft h y) (set_left y l h')))
               }))"

definition skew_heap_insert ::
  "('a \<Rightarrow> 'a \<Rightarrow> int) \<Rightarrow> 'a option \<Rightarrow> 'a \<Rightarrow> 'a skew_heap_entry \<Rightarrow>
    ('a option \<times> 'a skew_heap_entry) option" where
  "skew_heap_insert cmp a b h = skew_heap_merge cmp a (Some b) (skew_heap_init b h)"

definition skew_heap_remove ::
  "('a \<Rightarrow> 'a \<Rightarrow> int) \<Rightarrow> 'a option \<Rightarrow> 'a \<Rightarrow> 'a skew_heap_entry \<Rightarrow>
    ('a option \<times> 'a skew_heap_entry) option" where
  "skew_heap_remove cmp a b h = do {
     let p = sparent h b;
     (r, h) \<leftarrow> skew_heap_merge cmp (sleft h b) (sright h b) h;
     let h = adopt r p h;
     (case p of
        None \<Rightarrow> Some (r, h)
      | Some q \<Rightarrow> Some (a, if sleft h q = Some b then set_left q r h else set_right q r h))
   }"

declare skew_heap_merge.simps [code]

lemma set_sheap_simps [simp]:
  "sparent (set_parent a x h) = (sparent h)(a := x)" "sleft (set_parent a x h) = sleft h"
  "sright (set_parent a x h) = sright h"
  "sleft (set_left a x h) = (sleft h)(a := x)" "sparent (set_left a x h) = sparent h"
  "sright (set_left a x h) = sright h"
  "sright (set_right a x h) = (sright h)(a := x)" "sparent (set_right a x h) = sparent h"
  "sleft (set_right a x h) = sleft h"
  by (simp_all add: set_parent_def set_left_def set_right_def)

lemma adopt_simps [simp]:
  "sleft (adopt l p h) = sleft h" "sright (adopt l p h) = sright h"
  "sparent (adopt l p h) = (case l of None \<Rightarrow> sparent h | Some x \<Rightarrow> (sparent h)(x := p))"
  by (auto simp: adopt_def split: option.splits)

subsection \<open>The same operations on trees\<close>

fun smerge :: "('a \<Rightarrow> 'a \<Rightarrow> int) \<Rightarrow> 'a tree \<Rightarrow> 'a tree \<Rightarrow> 'a tree" where
  "smerge cmp Leaf t = t"
| "smerge cmp (Node l a r) Leaf = Node l a r"
| "smerge cmp (Node l a r) (Node l' b r') =
     (if cmp a b = - 1 then Node (smerge cmp r (Node l' b r')) a l
      else Node (smerge cmp (Node l a r) r') b l')"

fun sremove :: "('a \<Rightarrow> 'a \<Rightarrow> int) \<Rightarrow> 'a \<Rightarrow> 'a tree \<Rightarrow> 'a tree" where
  "sremove cmp b Leaf = Leaf"
| "sremove cmp b (Node l a r) =
     (if a = b then smerge cmp l r
      else if b \<in> set_tree l then Node (sremove cmp b l) a r
      else Node l a (sremove cmp b r))"

text \<open>Heap order for a comparison function, and when the function is a total preorder on a set.\<close>

fun heap_ordered :: "('a \<Rightarrow> 'a \<Rightarrow> int) \<Rightarrow> 'a tree \<Rightarrow> bool" where
  "heap_ordered cmp Leaf = True"
| "heap_ordered cmp (Node l a r) \<longleftrightarrow>
     heap_ordered cmp l \<and> heap_ordered cmp r \<and> (\<forall>x\<in>set_tree l \<union> set_tree r. cmp x a \<noteq> - 1)"

definition compares :: "('a \<Rightarrow> 'a \<Rightarrow> int) \<Rightarrow> 'a set \<Rightarrow> bool" where
  "compares cmp A \<longleftrightarrow>
     (\<forall>x\<in>A. \<forall>y\<in>A. cmp x y = - 1 \<longrightarrow> cmp y x \<noteq> - 1) \<and>
     (\<forall>x\<in>A. \<forall>y\<in>A. \<forall>z\<in>A. cmp y x \<noteq> - 1 \<longrightarrow> cmp z y \<noteq> - 1 \<longrightarrow> cmp z x \<noteq> - 1)"

lemma compares_mono: "compares cmp A \<Longrightarrow> B \<subseteq> A \<Longrightarrow> compares cmp B"
  unfolding compares_def by blast

lemma compares_cong: "\<forall>x\<in>A. \<forall>y\<in>A. cmp' x y = cmp x y \<Longrightarrow> compares cmp' A = compares cmp A"
  unfolding compares_def by (simp cong: ball_cong)

lemma mset_smerge [simp]: "mset_tree (smerge cmp t u) = mset_tree t + mset_tree u"
  by (induction cmp t u rule: smerge.induct) auto

lemma set_smerge [simp]: "set_tree (smerge cmp t u) = set_tree t \<union> set_tree u"
  by (simp flip: set_mset_tree)

lemma mset_sremove:
  "b \<in> set_tree t \<Longrightarrow> add_mset b (mset_tree (sremove cmp b t)) = mset_tree t"
proof (induction t)
  case (Node l a r)
  consider "a = b" | "a \<noteq> b" "b \<in> set_tree l" | "a \<noteq> b" "b \<notin> set_tree l" "b \<in> set_tree r"
    using Node.prems by auto
  then show ?case
  proof cases
    case 2
    then have "mset_tree l = add_mset b (mset_tree (sremove cmp b l))" using Node.IH(1) by simp
    then show ?thesis using 2 by simp
  next
    case 3
    then have "mset_tree r = add_mset b (mset_tree (sremove cmp b r))" using Node.IH(2) by simp
    then show ?thesis using 3 by simp
  qed simp
qed simp

lemma heap_ordered_smerge:
  "heap_ordered cmp t \<Longrightarrow> heap_ordered cmp u \<Longrightarrow> compares cmp (set_tree t \<union> set_tree u) \<Longrightarrow>
    heap_ordered cmp (smerge cmp t u)"
proof (induction cmp t u rule: smerge.induct)
  case (3 cmp l a r l' b r')
  let ?A = "set_tree (Node l a r) \<union> set_tree (Node l' b r')"
  have c: "\<forall>x\<in>?A. \<forall>y\<in>?A. cmp x y = - 1 \<longrightarrow> cmp y x \<noteq> - 1"
    "\<forall>x\<in>?A. \<forall>y\<in>?A. \<forall>z\<in>?A. cmp y x \<noteq> - 1 \<longrightarrow> cmp z y \<noteq> - 1 \<longrightarrow> cmp z x \<noteq> - 1"
    using 3(5) unfolding compares_def by blast+
  show ?case
  proof (cases "cmp a b = - 1")
    case True
    have "cmp x a \<noteq> - 1" if "x \<in> set_tree l' \<union> set_tree r'" for x
      using c(2) [rule_format, of a b x] c(1) [rule_format, of a b] 3(4) that True by auto
    moreover have "heap_ordered cmp (smerge cmp r (Node l' b r'))"
      using 3 True by (intro 3(1)) (auto elim: compares_mono)
    ultimately show ?thesis using 3(3) True c(1) [rule_format, of a b] by auto
  next
    case False
    have "cmp x b \<noteq> - 1" if "x \<in> set_tree l \<union> set_tree r" for x
      using c(2) [rule_format, of b a x] 3(3) that False by auto
    moreover have "heap_ordered cmp (smerge cmp (Node l a r) r')"
      using 3 False by (intro 3(2)) (auto elim: compares_mono)
    ultimately show ?thesis using 3(4) False by auto
  qed
qed auto

lemma set_sremove_subset: "set_tree (sremove cmp b t) \<subseteq> set_tree t"
  by (induction t) auto

lemma heap_ordered_sremove:
  "heap_ordered cmp t \<Longrightarrow> compares cmp (set_tree t) \<Longrightarrow> heap_ordered cmp (sremove cmp b t)"
proof (induction t)
  case (Node l a r)
  have "compares cmp (set_tree l)" "compares cmp (set_tree r)" "compares cmp (set_tree l \<union> set_tree r)"
    using Node.prems(2) by (auto elim: compares_mono)
  then show ?case
    using Node set_sremove_subset [of cmp b l] set_sremove_subset [of cmp b r]
    by (auto intro: heap_ordered_smerge)
qed simp

lemma heap_root_min:
  "heap_ordered cmp (Node l a r) \<Longrightarrow> x \<in> set_tree (Node l a r) \<Longrightarrow> x = a \<or> cmp x a \<noteq> - 1"
  by auto

subsection \<open>Pointers represent a tree\<close>

definition troot :: "'a tree \<Rightarrow> 'a option" where
  "troot t = (case t of Leaf \<Rightarrow> None | Node _ a _ \<Rightarrow> Some a)"

lemma troot_simps [simp]: "troot Leaf = None" "troot (Node l a r) = Some a"
  by (simp_all add: troot_def)

lemma troot_in: "troot t = Some x \<Longrightarrow> x \<in> set_tree t"
  by (cases t) auto

text \<open>\<open>parents h t p\<close>: the parent pointer of the root of \<open>t\<close>, if there is one, is \<open>p\<close>.\<close>

definition parents :: "'a skew_heap_entry \<Rightarrow> 'a tree \<Rightarrow> 'a option \<Rightarrow> bool" where
  "parents h t p \<longleftrightarrow> (\<forall>x. troot t = Some x \<longrightarrow> sparent h x = p)"

fun shape :: "'a skew_heap_entry \<Rightarrow> 'a tree \<Rightarrow> bool" where
  "shape h Leaf = True"
| "shape h (Node l a r) \<longleftrightarrow>
     sleft h a = troot l \<and> sright h a = troot r \<and> parents h l (Some a) \<and> parents h r (Some a) \<and>
     shape h l \<and> shape h r"

abbreviation nodup :: "'a tree \<Rightarrow> bool" where
  "nodup t \<equiv> distinct (inorder t)"

definition heap_rep :: "'a skew_heap_entry \<Rightarrow> 'a option \<Rightarrow> 'a option \<Rightarrow> 'a tree \<Rightarrow> bool" where
  "heap_rep h r p t \<longleftrightarrow> r = troot t \<and> parents h t p \<and> shape h t \<and> nodup t"

definition same_nodes :: "'a set \<Rightarrow> 'a skew_heap_entry \<Rightarrow> 'a skew_heap_entry \<Rightarrow> bool" where
  "same_nodes A h h' \<longleftrightarrow>
     (\<forall>a\<in>A. sparent h' a = sparent h a \<and> sleft h' a = sleft h a \<and> sright h' a = sright h a)"

lemma same_nodes_mono: "same_nodes A h h' \<Longrightarrow> B \<subseteq> A \<Longrightarrow> same_nodes B h h'"
  by (auto simp: same_nodes_def)

lemma parents_same: "same_nodes (set_tree t) h h' \<Longrightarrow> parents h' t p = parents h t p"
  by (cases t) (auto simp: parents_def same_nodes_def)

lemma shape_same: "same_nodes (set_tree t) h h' \<Longrightarrow> shape h' t = shape h t"
proof (induction t)
  case (Node l a r)
  have sub: "same_nodes (set_tree l) h h'" "same_nodes (set_tree r) h h'" "same_nodes {a} h h'"
    using Node.prems by (auto simp: same_nodes_def)
  show ?case
    using Node.IH(1) [OF sub(1)] Node.IH(2) [OF sub(2)] sub(3) parents_same [OF sub(1)] parents_same [OF sub(2)]
    by (simp add: same_nodes_def)
qed simp

lemma shape_cong:
  assumes "shape h t" "nodup t" "\<forall>x\<in>set_tree t. sleft h' x = sleft h x \<and> sright h' x = sright h x"
    and "\<forall>x\<in>set_tree t. troot t \<noteq> Some x \<longrightarrow> sparent h' x = sparent h x"
  shows "shape h' t"
proof (cases t)
  case (Node l a r)
  have "a \<notin> set_tree l" "a \<notin> set_tree r" using assms(2) Node by auto
  then have sub: "same_nodes (set_tree l) h h'" "same_nodes (set_tree r) h h'"
    using assms(3,4) Node by (auto simp: same_nodes_def)
  show ?thesis
    using assms(1,3) parents_same [OF sub(1)] parents_same [OF sub(2)] shape_same [OF sub(1)] shape_same [OF sub(2)]
    by (simp add: Node)
qed simp

lemma nodup_smerge:
  "nodup t \<Longrightarrow> nodup u \<Longrightarrow> set_tree t \<inter> set_tree u = {} \<Longrightarrow> nodup (smerge cmp t u)"
proof -
  assume "nodup t" "nodup u" "set_tree t \<inter> set_tree u = {}"
  then have "distinct (inorder t @ inorder u)" by simp
  moreover have "mset (inorder (smerge cmp t u)) = mset (inorder t @ inorder u)" by simp
  ultimately show ?thesis by (metis mset_eq_imp_distinct_iff)
qed

lemma shape_graft:
  assumes "shape h1 m" "shape h1 l" "nodup m" "parents h1 l (Some a)"
    and "a \<notin> set_tree m" "a \<notin> set_tree l" "set_tree m \<inter> set_tree l = {}"
  shows "shape (adopt (troot m) (Some a) (set_right a (troot l) (set_left a (troot m) h1))) (Node m a l)"
    (is "shape ?h _")
proof -
  have l: "same_nodes (set_tree l) h1 ?h"
    using assms(6,7) by (auto simp: same_nodes_def split: option.splits dest!: troot_in)
  have "shape ?h m"
    using assms(5) by (intro shape_cong [OF assms(1,3)]) (auto split: option.splits)
  moreover have "parents ?h m (Some a)" by (auto simp: parents_def)
  ultimately show ?thesis
    using assms(2,4) shape_same [OF l] parents_same [OF l] by simp
qed

lemma merge_refine:
  "shape h t \<Longrightarrow> shape h u \<Longrightarrow> nodup t \<Longrightarrow> nodup u \<Longrightarrow> set_tree t \<inter> set_tree u = {} \<Longrightarrow>
    \<exists>h'. skew_heap_merge cmp (troot t) (troot u) h = Some (troot (smerge cmp t u), h') \<and>
      shape h' (smerge cmp t u) \<and> same_nodes (- (set_tree t \<union> set_tree u)) h h' \<and>
      (\<forall>x. troot (smerge cmp t u) = Some x \<longrightarrow> sparent h' x = sparent h x)"
proof (induction cmp t u rule: smerge.induct)
  case (1 cmp t)
  then show ?case by (subst skew_heap_merge.simps) (auto simp: same_nodes_def)
next
  case (2 cmp l a r)
  then show ?case by (subst skew_heap_merge.simps) (auto simp: same_nodes_def)
next
  case (3 cmp l a r l' b r')
  let ?t = "Node l a r" and ?u = "Node l' b r'"
  show ?case
  proof (cases "cmp a b = - 1")
    case True
    let ?m = "smerge cmp r ?u"
    have "set_tree r \<inter> set_tree ?u = {}" using 3(7) by auto
    then obtain h1 where h1: "skew_heap_merge cmp (troot r) (troot ?u) h = Some (troot ?m, h1)"
      "shape h1 ?m" "same_nodes (- (set_tree r \<union> set_tree ?u)) h h1"
      using 3(1) [OF True] 3(3-6) by auto
    have disj: "a \<notin> set_tree ?m" "a \<notin> set_tree l" "set_tree ?m \<inter> set_tree l = {}" using 3(5-7) by auto
    then have l: "same_nodes (insert a (set_tree l)) h h1" by (intro same_nodes_mono [OF h1(3)]) auto
    have "nodup ?m" using 3(5-7) by (intro nodup_smerge) auto
    then have "shape (adopt (troot ?m) (Some a) (set_right a (troot l) (set_left a (troot ?m) h1))) (Node ?m a l)"
      using h1(2) 3(3) l disj
      by (intro shape_graft) (auto simp: shape_same [of l h h1] parents_same [of l h h1] same_nodes_def)
    moreover have "skew_heap_merge cmp (Some a) (Some b) h =
        Some (Some a, adopt (troot ?m) (Some a) (set_right a (troot l) (set_left a (troot ?m) h1)))"
      using h1(1) 3(3) True by (subst skew_heap_merge.simps) simp
    moreover have "troot ?m = Some x \<Longrightarrow> x \<in> set_tree r \<union> set_tree ?u" for x
      using troot_in [of ?m x] by simp
    ultimately show ?thesis
      using True h1(3) l disj by (fastforce simp: same_nodes_def split: option.splits)
  next
    case False
    let ?m = "smerge cmp ?t r'"
    have "set_tree ?t \<inter> set_tree r' = {}" using 3(7) by auto
    then obtain h1 where h1: "skew_heap_merge cmp (troot ?t) (troot r') h = Some (troot ?m, h1)"
      "shape h1 ?m" "same_nodes (- (set_tree ?t \<union> set_tree r')) h h1"
      using 3(2) [OF False] 3(3-6) by auto
    have disj: "b \<notin> set_tree ?m" "b \<notin> set_tree l'" "set_tree ?m \<inter> set_tree l' = {}" using 3(5-7) by auto
    then have l: "same_nodes (insert b (set_tree l')) h h1" by (intro same_nodes_mono [OF h1(3)]) auto
    have "nodup ?m" using 3(5-7) by (intro nodup_smerge) auto
    then have "shape (adopt (troot ?m) (Some b) (set_right b (troot l') (set_left b (troot ?m) h1))) (Node ?m b l')"
      using h1(2) 3(4) l disj
      by (intro shape_graft) (auto simp: shape_same [of l' h h1] parents_same [of l' h h1] same_nodes_def)
    moreover have "skew_heap_merge cmp (Some a) (Some b) h =
        Some (Some b, adopt (troot ?m) (Some b) (set_right b (troot l') (set_left b (troot ?m) h1)))"
      using h1(1) 3(4) False by (subst skew_heap_merge.simps) simp
    moreover have "troot ?m = Some x \<Longrightarrow> x \<in> set_tree ?t \<union> set_tree r'" for x
      using troot_in [of ?m x] by simp
    ultimately show ?thesis
      using False h1(3) l disj by (fastforce simp: same_nodes_def split: option.splits)
  qed
qed

lemma insert_refine:
  assumes "heap_rep h r None t" "b \<notin> set_tree t"
  shows "\<exists>h'. skew_heap_insert cmp r b h = Some (troot (smerge cmp t (Node Leaf b Leaf)), h') \<and>
    heap_rep h' (troot (smerge cmp t (Node Leaf b Leaf))) None (smerge cmp t (Node Leaf b Leaf)) \<and>
    same_nodes (- insert b (set_tree t)) h h'"
proof -
  let ?h = "skew_heap_init b h" and ?u = "Node Leaf b Leaf" and ?m = "smerge cmp t (Node Leaf b Leaf)"
  have same: "same_nodes (- {b}) h ?h" by (auto simp: same_nodes_def skew_heap_init_def)
  then have t: "same_nodes (set_tree t) h ?h" using assms(2) by (auto elim: same_nodes_mono)
  have u: "shape ?h ?u" "parents ?h ?u None" by (simp_all add: skew_heap_init_def parents_def)
  have r: "r = troot t" "shape ?h t" "nodup t" "parents ?h t None"
    using assms(1) shape_same [OF t] parents_same [OF t] by (simp_all add: heap_rep_def)
  obtain h' where h': "skew_heap_merge cmp (troot t) (troot ?u) ?h = Some (troot ?m, h')" "shape h' ?m"
    "same_nodes (- (set_tree t \<union> set_tree ?u)) ?h h'"
    "\<forall>x. troot ?m = Some x \<longrightarrow> sparent h' x = sparent ?h x"
    using merge_refine [OF r(2) u(1) r(3), of cmp] assms(2) by auto
  have "troot ?m = troot t \<or> troot ?m = Some b" by (cases t) auto
  then have "parents h' ?m None" using h'(4) r(4) u(2) by (auto simp: parents_def)
  moreover have "nodup ?m" using r(3) assms(2) by (intro nodup_smerge) auto
  moreover have "same_nodes (- insert b (set_tree t)) h h'"
    using h'(3) same by (auto simp: same_nodes_def)
  ultimately show ?thesis
    using h' r(1) by (auto simp: skew_heap_insert_def heap_rep_def)
qed

lemma remove_root_refine:
  assumes "shape h (Node l b r)" "nodup (Node l b r)" and p: "sparent h b = p"
  obtains h' where "skew_heap_merge cmp (sleft h b) (sright h b) h = Some (troot (smerge cmp l r), h')"
    "shape (adopt (troot (smerge cmp l r)) p h') (smerge cmp l r)"
    "parents (adopt (troot (smerge cmp l r)) p h') (smerge cmp l r) p"
    "same_nodes (- (set_tree l \<union> set_tree r)) h (adopt (troot (smerge cmp l r)) p h')"
proof -
  let ?m = "smerge cmp l r"
  have d: "nodup l" "nodup r" "set_tree l \<inter> set_tree r = {}" using assms(2) by auto
  obtain h' where h': "skew_heap_merge cmp (sleft h b) (sright h b) h = Some (troot ?m, h')"
    "shape h' ?m" "same_nodes (- (set_tree l \<union> set_tree r)) h h'"
    using merge_refine [of h l r cmp] assms(1) d by auto
  have "shape (adopt (troot ?m) p h') ?m"
    using nodup_smerge [OF d, of cmp] by (intro shape_cong [OF h'(2)]) (auto split: option.splits)
  moreover have "parents (adopt (troot ?m) p h') ?m p" by (auto simp: parents_def)
  moreover have "same_nodes (- (set_tree l \<union> set_tree r)) h (adopt (troot ?m) p h')"
    using h'(3) troot_in [of ?m] by (fastforce simp: same_nodes_def split: option.splits)
  ultimately show ?thesis using that h'(1) by blast
qed

lemma remove_child_refine:
  assumes "shape h t" "nodup t" and t: "t = Node l c r" and b: "troot l = Some b \<or> troot r = Some b"
  shows "\<exists>h'. skew_heap_remove cmp a b h = Some (a, h') \<and> shape h' (sremove cmp b t) \<and>
    same_nodes (- set_tree t) h h' \<and> sparent h' c = sparent h c"
proof -
  have dist: "c \<notin> set_tree l" "c \<notin> set_tree r" "set_tree l \<inter> set_tree r = {}" "nodup l" "nodup r"
    using assms(2) t by auto
  obtain l1 r1 where sub: "troot l = Some b \<and> l = Node l1 b r1 \<or> troot r = Some b \<and> r = Node l1 b r1"
    using b by (cases l; cases r) auto
  have par: "sparent h b = Some c" using assms(1) b by (auto simp: t parents_def)
  have "shape h (Node l1 b r1)" "nodup (Node l1 b r1)" using sub assms(1) dist by (auto simp: t)
  then obtain h1 where h1: "skew_heap_merge cmp (sleft h b) (sright h b) h = Some (troot (smerge cmp l1 r1), h1)"
    "shape (adopt (troot (smerge cmp l1 r1)) (Some c) h1) (smerge cmp l1 r1)"
    "parents (adopt (troot (smerge cmp l1 r1)) (Some c) h1) (smerge cmp l1 r1) (Some c)"
    "same_nodes (- (set_tree l1 \<union> set_tree r1)) h (adopt (troot (smerge cmp l1 r1)) (Some c) h1)"
    using remove_root_refine [OF _ _ par] by blast
  let ?m = "smerge cmp l1 r1" and ?h = "adopt (troot (smerge cmp l1 r1)) (Some c) h1"
  let ?h' = "if sleft ?h c = Some b then set_left c (troot ?m) ?h else set_right c (troot ?m) ?h"
  have rem: "skew_heap_remove cmp a b h = Some (a, ?h')"
    using h1(1) par unfolding skew_heap_remove_def Let_def by simp
  have inside: "set_tree l1 \<union> set_tree r1 \<subseteq> set_tree t" "c \<notin> set_tree l1 \<union> set_tree r1"
    using sub dist t by auto
  then have c: "sleft ?h c = troot l" "sright ?h c = troot r" "sparent ?h c = sparent h c"
    using h1(4) assms(1) unfolding t same_nodes_def by auto
  have m: "shape ?h' ?m" "parents ?h' ?m (Some c)"
    using h1(2,3) inside(2) by (auto intro!: shape_cong [OF h1(2)] nodup_smerge simp: parents_def) (use sub dist in auto)
  have "shape ?h' (sremove cmp b t)"
  proof (cases "troot l = Some b")
    case True
    then have l: "l = Node l1 b r1" using sub dist(3) by (auto dest: troot_in)
    have "same_nodes (set_tree r) h ?h'" using h1(4) dist l by (auto simp: same_nodes_def)
    then have "shape ?h' r" "parents ?h' r (Some c)"
      using assms(1) shape_same [of r h ?h'] parents_same [of r h ?h'] by (simp_all add: t)
    then show ?thesis using m c True dist(1) l by (auto simp: t)
  next
    case False
    then have r: "r = Node l1 b r1" "b \<notin> set_tree l" using sub dist(3) b by auto
    have "same_nodes (set_tree l) h ?h'" using h1(4) dist r by (auto simp: same_nodes_def)
    then have "shape ?h' l" "parents ?h' l (Some c)"
      using assms(1) shape_same [of l h ?h'] parents_same [of l h ?h'] by (simp_all add: t)
    then show ?thesis using m c False dist(2) r by (auto simp: t)
  qed
  moreover have "same_nodes (- set_tree t) h ?h'" "sparent ?h' c = sparent h c"
    using h1(4) inside c t by (auto simp: same_nodes_def)
  ultimately show ?thesis using rem by blast
qed

lemma remove_below_refine:
  "shape h t \<Longrightarrow> nodup t \<Longrightarrow> b \<in> set_tree t \<Longrightarrow> troot t \<noteq> Some b \<Longrightarrow>
    \<exists>h'. skew_heap_remove cmp a b h = Some (a, h') \<and> shape h' (sremove cmp b t) \<and>
      same_nodes (- set_tree t) h h' \<and> troot (sremove cmp b t) = troot t \<and>
      (\<forall>x. troot t = Some x \<longrightarrow> sparent h' x = sparent h x)"
proof (induction t)
  case (Node l c r)
  have dist: "c \<notin> set_tree l" "c \<notin> set_tree r" "set_tree l \<inter> set_tree r = {}" using Node.prems(2) by auto
  consider "troot l = Some b \<or> troot r = Some b" | "b \<in> set_tree l" "troot l \<noteq> Some b"
    | "b \<in> set_tree r" "troot r \<noteq> Some b" using Node.prems by auto
  then show ?case
  proof cases
    case 1
    from remove_child_refine [OF Node.prems(1,2) refl 1, of cmp a] Node.prems(4) show ?thesis by auto
  next
    case 2
    then obtain h' where h': "skew_heap_remove cmp a b h = Some (a, h')" "shape h' (sremove cmp b l)"
      "same_nodes (- set_tree l) h h'" "troot (sremove cmp b l) = troot l"
      "\<forall>x. troot l = Some x \<longrightarrow> sparent h' x = sparent h x"
      using Node.IH(1) Node.prems by auto
    have "same_nodes (set_tree r) h h'" using h'(3) dist by (auto simp: same_nodes_def)
    then show ?thesis
      using h' Node.prems 2 dist shape_same [of r h h'] parents_same [of r h h']
      by (auto simp: same_nodes_def parents_def)
  next
    case 3
    then obtain h' where h': "skew_heap_remove cmp a b h = Some (a, h')" "shape h' (sremove cmp b r)"
      "same_nodes (- set_tree r) h h'" "troot (sremove cmp b r) = troot r"
      "\<forall>x. troot r = Some x \<longrightarrow> sparent h' x = sparent h x"
      using Node.IH(2) Node.prems by auto
    have "same_nodes (set_tree l) h h'" using h'(3) dist by (auto simp: same_nodes_def)
    then show ?thesis
      using h' Node.prems 3 dist shape_same [of l h h'] parents_same [of l h h']
      by (auto simp: same_nodes_def parents_def)
  qed
qed simp

lemma sremove_nodes:
  assumes "nodup t" "b \<in> set_tree t"
  shows nodup_sremove: "nodup (sremove cmp b t)"
    and set_sremove: "set_tree (sremove cmp b t) = set_tree t - {b}"
proof -
  have m: "mset (b # inorder (sremove cmp b t)) = mset (inorder t)"
    using mset_sremove [OF assms(2), of cmp] by simp
  have "distinct (b # inorder (sremove cmp b t))" "set (b # inorder (sremove cmp b t)) = set (inorder t)"
    using mset_eq_imp_distinct_iff [OF m] mset_eq_setD [OF m] assms(1) by blast+
  then show "nodup (sremove cmp b t)" "set_tree (sremove cmp b t) = set_tree t - {b}" by auto
qed

lemma remove_refine:
  assumes "heap_rep h r None t" "b \<in> set_tree t"
  shows "\<exists>h'. skew_heap_remove cmp r b h = Some (troot (sremove cmp b t), h') \<and>
    heap_rep h' (troot (sremove cmp b t)) None (sremove cmp b t) \<and> same_nodes (- set_tree t) h h'"
proof (cases "troot t = Some b")
  case True
  then obtain l q where t: "t = Node l b q" by (cases t) auto
  have "shape h (Node l b q)" "nodup (Node l b q)" and par: "sparent h b = None"
    using assms(1) by (simp_all add: heap_rep_def t parents_def)
  then obtain h' where h': "skew_heap_merge cmp (sleft h b) (sright h b) h = Some (troot (smerge cmp l q), h')"
    "shape (adopt (troot (smerge cmp l q)) None h') (smerge cmp l q)"
    "parents (adopt (troot (smerge cmp l q)) None h') (smerge cmp l q) None"
    "same_nodes (- (set_tree l \<union> set_tree q)) h (adopt (troot (smerge cmp l q)) None h')"
    using remove_root_refine [OF _ _ par] by blast
  have "nodup (sremove cmp b t)" using assms by (intro nodup_sremove) (auto simp: heap_rep_def)
  with h' par show ?thesis
    by (auto simp: skew_heap_remove_def heap_rep_def t elim: same_nodes_mono)
next
  case False
  have rep: "shape h t" "nodup t" "r = troot t" "parents h t None" using assms(1) by (auto simp: heap_rep_def)
  from remove_below_refine [OF rep(1,2) assms(2) False, of cmp r] nodup_sremove [OF rep(2) assms(2), of cmp]
  show ?thesis using rep by (auto simp: heap_rep_def parents_def)
qed

subsection \<open>The contract of a priority queue\<close>

text \<open>
  What a client of \<^verbatim>\<open>skew_heap.h\<close> relies on. \<open>rep cmp h r A\<close>: in the store \<open>h\<close> the queue with root
  pointer \<open>r\<close> holds the entries \<open>A\<close>, in order for the comparison \<open>cmp\<close>. The comparison may change
  between calls (the keys live in other fields of the entries), as long as it does not change on
  the entries that stay.
\<close>

locale priority_queue =
  fixes rep :: "('a \<Rightarrow> 'a \<Rightarrow> int) \<Rightarrow> 'h \<Rightarrow> 'a option \<Rightarrow> 'a set \<Rightarrow> bool"
    and ins :: "('a \<Rightarrow> 'a \<Rightarrow> int) \<Rightarrow> 'a option \<Rightarrow> 'a \<Rightarrow> 'h \<Rightarrow> ('a option \<times> 'h) option"
    and rem :: "('a \<Rightarrow> 'a \<Rightarrow> int) \<Rightarrow> 'a option \<Rightarrow> 'a \<Rightarrow> 'h \<Rightarrow> ('a option \<times> 'h) option"
  assumes rep_empty: "rep cmp h None A \<longleftrightarrow> A = {}"
    and rep_finite: "rep cmp h r A \<Longrightarrow> finite A"
    and rep_root: "rep cmp h (Some m) A \<Longrightarrow> m \<in> A \<and> (\<forall>x\<in>A. x = m \<or> cmp x m \<noteq> - 1)"
    and rep_cong: "rep cmp h r A \<Longrightarrow> \<forall>x\<in>A. \<forall>y\<in>A. cmp' x y = cmp x y \<Longrightarrow> rep cmp' h r A"
    and ins_ok: "rep cmp h r A \<Longrightarrow> b \<notin> A \<Longrightarrow> compares cmp (insert b A) \<Longrightarrow>
      \<exists>r' h'. ins cmp r b h = Some (r', h') \<and> rep cmp h' r' (insert b A)"
    and rem_ok: "rep cmp h r A \<Longrightarrow> b \<in> A \<Longrightarrow> compares cmp A \<Longrightarrow>
      \<exists>r' h'. rem cmp r b h = Some (r', h') \<and> rep cmp h' r' (A - {b})"
    and rem_root_ok: "rep cmp h (Some m) A \<Longrightarrow> compares cmp (A - {m}) \<Longrightarrow>
      \<forall>x\<in>A - {m}. \<forall>y\<in>A - {m}. cmp' x y = cmp x y \<Longrightarrow>
      \<exists>r' h'. rem cmp' (Some m) m h = Some (r', h') \<and> rep cmp' h' r' (A - {m})"
begin

text \<open>Removing the root again and again: the entries come out in order.\<close>

fun drain :: "('a \<Rightarrow> 'a \<Rightarrow> int) \<Rightarrow> nat \<Rightarrow> 'a option \<Rightarrow> 'h \<Rightarrow> 'a list option" where
  "drain cmp 0 r h = Some []"
| "drain cmp (Suc n) r h =
     (case r of
        None \<Rightarrow> Some []
      | Some m \<Rightarrow> do {
          (r', h') \<leftarrow> rem cmp r m h;
          xs \<leftarrow> drain cmp n r' h';
          Some (m # xs)
        })"

lemma drain_sorted:
  "rep cmp h r A \<Longrightarrow> compares cmp A \<Longrightarrow> card A \<le> n \<Longrightarrow>
    \<exists>xs. drain cmp n r h = Some xs \<and> set xs = A \<and> distinct xs \<and> sorted_wrt (\<lambda>x y. cmp y x \<noteq> - 1) xs"
proof (induction n arbitrary: r h A)
  case 0
  then show ?case using rep_finite [OF 0(1)] by auto
next
  case (Suc n)
  show ?case
  proof (cases r)
    case None
    then show ?thesis using Suc.prems by (auto simp: rep_empty)
  next
    case (Some m)
    note root = rep_root [OF Suc.prems(1) [unfolded Some]]
    have sub: "compares cmp (A - {m})" using Suc.prems(2) by (rule compares_mono) auto
    obtain r' h' where r': "rem cmp r m h = Some (r', h')" "rep cmp h' r' (A - {m})"
      using rem_ok [OF Suc.prems(1) _ Suc.prems(2)] root by blast
    have "card (A - {m}) \<le> n" using Suc.prems(3) root rep_finite [OF Suc.prems(1)] by (simp add: card_Diff_singleton)
    then obtain xs where "drain cmp n r' h' = Some xs" "set xs = A - {m}" "distinct xs"
      "sorted_wrt (\<lambda>x y. cmp y x \<noteq> - 1) xs" using Suc.IH [OF r'(2) sub] by blast
    with r'(1) root Some show ?thesis by (auto intro!: exI [of _ "m # xs"])
  qed
qed

lemma ins_all:
  "rep cmp h r A \<Longrightarrow> distinct bs \<Longrightarrow> set bs \<inter> A = {} \<Longrightarrow> compares cmp (A \<union> set bs) \<Longrightarrow>
    \<exists>r' h'. fold (\<lambda>b st. st \<bind> (\<lambda>(r, h). ins cmp r b h)) bs (Some (r, h)) = Some (r', h') \<and>
      rep cmp h' r' (A \<union> set bs)"
proof (induction bs arbitrary: r h A)
  case (Cons b bs)
  have "compares cmp (insert b A)" using Cons.prems(4) by (rule compares_mono) auto
  then obtain r1 h1 where 1: "ins cmp r b h = Some (r1, h1)" "rep cmp h1 r1 (insert b A)"
    using ins_ok [OF Cons.prems(1), of b] Cons.prems(3) by auto
  have "compares cmp (insert b A \<union> set bs)" using Cons.prems(4) by (rule compares_mono) auto
  with Cons.IH [OF 1(2)] Cons.prems(2,3) 1(1) show ?case by auto
qed auto

end

definition pq_rep :: "('a \<Rightarrow> 'a \<Rightarrow> int) \<Rightarrow> 'a skew_heap_entry \<Rightarrow> 'a option \<Rightarrow> 'a set \<Rightarrow> bool" where
  "pq_rep cmp h r A \<longleftrightarrow> (\<exists>t. heap_rep h r None t \<and> heap_ordered cmp t \<and> set_tree t = A)"

lemma heap_ordered_cong:
  "\<forall>x\<in>set_tree t. \<forall>y\<in>set_tree t. cmp' x y = cmp x y \<Longrightarrow> heap_ordered cmp' t = heap_ordered cmp t"
  by (induction t) auto

lemma heap_rep_root: "heap_rep h (Some m) p t \<Longrightarrow> \<exists>l r. t = Node l m r"
  by (cases t) (auto simp: heap_rep_def)

lemma pq_rep_empty: "pq_rep cmp h None A \<longleftrightarrow> A = {}"
proof -
  have "heap_rep h None None t \<longleftrightarrow> t = Leaf" for t
    by (cases t) (auto simp: heap_rep_def parents_def)
  then show ?thesis by (auto simp: pq_rep_def)
qed

interpretation skew: priority_queue pq_rep skew_heap_insert skew_heap_remove
proof (unfold_locales, goal_cases)
  case 1
  show ?case by (rule pq_rep_empty)
next
  case 2
  then show ?case by (auto simp: pq_rep_def)
next
  case 3
  then show ?case by (auto simp: pq_rep_def dest: heap_rep_root)
next
  case (4 cmp h r A cmp')
  then obtain t where t: "heap_rep h r None t" "heap_ordered cmp t" "set_tree t = A" by (auto simp: pq_rep_def)
  moreover have "heap_ordered cmp' t = heap_ordered cmp t" using 4(2) t(3) by (intro heap_ordered_cong) simp
  ultimately show ?case unfolding pq_rep_def by blast
next
  case (5 cmp h r A b)
  then obtain t where t: "heap_rep h r None t" "heap_ordered cmp t" "set_tree t = A" by (auto simp: pq_rep_def)
  have "heap_ordered cmp (smerge cmp t (Node Leaf b Leaf))"
    using t 5 by (intro heap_ordered_smerge) auto
  moreover have "set_tree (smerge cmp t (Node Leaf b Leaf)) = insert b A" using t(3) by simp
  ultimately show ?case using insert_refine [OF t(1), of b cmp] t(3) 5(2) unfolding pq_rep_def by blast
next
  case (6 cmp h r A b)
  then obtain t where t: "heap_rep h r None t" "heap_ordered cmp t" "set_tree t = A" by (auto simp: pq_rep_def)
  have "nodup t" using t(1) by (simp add: heap_rep_def)
  then have "set_tree (sremove cmp b t) = A - {b}" "heap_ordered cmp (sremove cmp b t)"
    using set_sremove [of t b cmp] heap_ordered_sremove [OF t(2), of b] t(3) 6(2,3) by auto
  then show ?case using remove_refine [OF t(1), of b cmp] t(3) 6(2) unfolding pq_rep_def by blast
next
  case (7 cmp h m A cmp')
  then obtain t where t: "heap_rep h (Some m) None t" "heap_ordered cmp t" "set_tree t = A" by (auto simp: pq_rep_def)
  obtain l r where tr: "t = Node l m r" using heap_rep_root [OF t(1)] by blast
  have nd: "nodup t" "m \<in> set_tree t" using t(1) tr by (auto simp: heap_rep_def)
  have A: "set_tree l \<union> set_tree r = A - {m}" using t(3) nd(1) tr by auto
  then have "compares cmp' (set_tree l \<union> set_tree r)"
    using 7(2) compares_cong [OF 7(3)] by simp
  moreover have "heap_ordered cmp' l = heap_ordered cmp l" "heap_ordered cmp' r = heap_ordered cmp r"
    using A 7(3) by (intro heap_ordered_cong; blast)+
  ultimately have "heap_ordered cmp' l" "heap_ordered cmp' r" "compares cmp' (set_tree l \<union> set_tree r)"
    using t(2) tr by simp_all
  then have "heap_ordered cmp' (sremove cmp' m t)" using tr by (auto intro: heap_ordered_smerge)
  moreover have "set_tree (sremove cmp' m t) = A - {m}" using set_sremove [OF nd, of cmp'] t(3) by simp
  ultimately show ?case using remove_refine [OF t(1) nd(2), of cmp'] unfolding pq_rep_def by blast
qed

subsection \<open>Properties\<close>

text \<open>C12: the skew heap is a priority queue that works on pointers. On a well-formed heap, inserting a
  new entry returns and gives a well-formed heap with that entry added; removing any entry of the
  heap, at the root or below it, returns and gives a well-formed heap without exactly that entry.
  After both the root is an entry than which no other is smaller.\<close>

theorem skew_heap_ops_correct:
  assumes "pq_rep cmp h r A" "compares cmp (insert b A)"
  shows "(b \<notin> A \<longrightarrow> (\<exists>r' h'. skew_heap_insert cmp r b h = Some (r', h') \<and> pq_rep cmp h' r' (insert b A) \<and>
        (\<exists>m\<in>insert b A. r' = Some m \<and> (\<forall>x\<in>insert b A. x = m \<or> cmp x m \<noteq> - 1)))) \<and>
    (b \<in> A \<longrightarrow> (\<exists>r' h'. skew_heap_remove cmp r b h = Some (r', h') \<and> pq_rep cmp h' r' (A - {b}) \<and>
        (r' = None \<longleftrightarrow> A = {b}) \<and> (\<forall>m. r' = Some m \<longrightarrow> m \<in> A - {b} \<and> (\<forall>x\<in>A - {b}. x = m \<or> cmp x m \<noteq> - 1))))"
proof (intro conjI impI)
  assume "b \<notin> A"
  from skew.ins_ok [OF assms(1) this assms(2)] obtain r' h' where
    *: "skew_heap_insert cmp r b h = Some (r', h')" "pq_rep cmp h' r' (insert b A)" by blast
  moreover obtain m where "r' = Some m" using *(2) skew.rep_empty [of cmp h' "insert b A"] by (cases r') auto
  ultimately show "\<exists>r' h'. skew_heap_insert cmp r b h = Some (r', h') \<and> pq_rep cmp h' r' (insert b A) \<and>
        (\<exists>m\<in>insert b A. r' = Some m \<and> (\<forall>x\<in>insert b A. x = m \<or> cmp x m \<noteq> - 1))"
    using skew.rep_root [of cmp h' m "insert b A"] by auto
next
  assume "b \<in> A"
  with assms(2) have "compares cmp A" by (simp add: insert_absorb)
  from skew.rem_ok [OF assms(1) \<open>b \<in> A\<close> this] obtain r' h' where
    *: "skew_heap_remove cmp r b h = Some (r', h')" "pq_rep cmp h' r' (A - {b})" by blast
  moreover have "r' = None \<longleftrightarrow> A = {b}"
  proof (cases r')
    case None
    then show ?thesis using *(2) \<open>b \<in> A\<close> skew.rep_empty [of cmp h' "A - {b}"] by auto
  next
    case (Some m)
    then show ?thesis using *(2) skew.rep_root [of cmp h' m "A - {b}"] by auto
  qed
  moreover have "\<forall>m. r' = Some m \<longrightarrow> m \<in> A - {b} \<and> (\<forall>x\<in>A - {b}. x = m \<or> cmp x m \<noteq> - 1)"
    using skew.rep_root [of cmp h' _ "A - {b}"] *(2) by blast
  ultimately show "\<exists>r' h'. skew_heap_remove cmp r b h = Some (r', h') \<and> pq_rep cmp h' r' (A - {b}) \<and>
        (r' = None \<longleftrightarrow> A = {b}) \<and> (\<forall>m. r' = Some m \<longrightarrow> m \<in> A - {b} \<and> (\<forall>x\<in>A - {b}. x = m \<or> cmp x m \<noteq> - 1))"
    by (intro exI conjI)
qed

definition nat_cmp :: "nat \<Rightarrow> nat \<Rightarrow> int" where
  "nat_cmp x y = (if y < x then 1 else if x = y then 0 else - 1)"

lemma nat_cmp_compares: "compares nat_cmp A"
  by (auto simp: compares_def nat_cmp_def)

theorem skew_heap_ops_correct_witness:
  "\<exists>r h. fold (\<lambda>b st. st \<bind> (\<lambda>(r, h). skew_heap_insert nat_cmp r b h)) [5, 3, 8]
       (Some (None, \<lparr>sparent = (\<lambda>_. None), sleft = (\<lambda>_. None), sright = (\<lambda>_. None)\<rparr>)) = Some (r, h) \<and>
    (\<exists>r' h'. skew_heap_insert nat_cmp r 1 h = Some (r', h') \<and> pq_rep nat_cmp h' r' {1, 5, 3, 8}) \<and>
    (\<exists>r' h'. skew_heap_remove nat_cmp r 3 h = Some (r', h') \<and> pq_rep nat_cmp h' r' {5, 8})"
proof -
  let ?h = "\<lparr>sparent = (\<lambda>_. None), sleft = (\<lambda>_. None), sright = (\<lambda>_. None)\<rparr> :: nat skew_heap_entry"
  have "pq_rep nat_cmp ?h None {}" by (simp add: skew.rep_empty)
  from skew.ins_all [OF this, of "[5, 3, 8]"] obtain r h where
    rh: "fold (\<lambda>b st. st \<bind> (\<lambda>(r, h). skew_heap_insert nat_cmp r b h)) [5, 3, 8] (Some (None, ?h)) = Some (r, h)"
    "pq_rep nat_cmp h r {5, 3, 8}" using nat_cmp_compares by auto
  have "(1::nat) \<notin> {5, 3, 8}" "(3::nat) \<in> {5, 3, 8}" "{5, 3, 8} - {3::nat} = {5, 8}" by auto
  with skew_heap_ops_correct [OF rh(2) nat_cmp_compares [of "insert 1 {5, 3, 8}"]]
    skew_heap_ops_correct [OF rh(2) nat_cmp_compares [of "insert 3 {5, 3, 8}"]] rh(1)
  show ?thesis by metis
qed

end
