(* ===== verification/Kernel_State.thy ===== *)
theory Kernel_State
  imports Dll Skew_Heap
begin

section \<open>The state shared by scheduler, synchronisation and process management\<close>

text \<open>
  \<^verbatim>\<open>struct proc_struct\<close>, \<^verbatim>\<open>struct run_queue\<close>, \<^verbatim>\<open>timer_t\<close>, \<^verbatim>\<open>wait_t\<close>, \<^verbatim>\<open>semaphore_t\<close> and the
  global variables of \<^verbatim>\<open>proc.c\<close> and \<^verbatim>\<open>sched.c\<close> in one record. Pointers to such objects are
  natural numbers (\<open>None\<close> where NULL is possible); every list entry of every object is one address
  of type \<open>knode\<close> in one store of links, so operations on one list are operations on the shared
  store. Saved registers (\<^verbatim>\<open>context\<close>, \<^verbatim>\<open>tf\<close>) and the kernel stacks are not modelled. The bodies
  between \<^verbatim>\<open>local_intr_save\<close> and \<^verbatim>\<open>local_intr_restore\<close> run with interrupts off on the one
  processor, so they are atomic steps here.
\<close>

datatype proc_state = PROC_UNINIT | PROC_SLEEPING | PROC_RUNNABLE | PROC_ZOMBIE

record proc_struct =
  state :: proc_state
  pid :: int
  runs :: int
  kstack :: nat
  need_resched :: bool
  parent :: "nat option"
  mm :: "nat option"
  pgdir :: nat
  pflags :: "32 word"
  pname :: string
  exit_code :: int
  wait_state :: "32 word"
  cptr :: "nat option"
  yptr :: "nat option"
  optr :: "nat option"
  rq :: bool
  time_slice :: int
  lab6_stride :: "32 word"
  lab6_priority :: "32 word"
  filesp :: "nat option"

text \<open>The field \<open>rq\<close> says whether \<^verbatim>\<open>proc->rq\<close> points to the one run queue \<^verbatim>\<open>__rq\<close> (else NULL).\<close>

datatype knode =
    RunList | RunLink nat
  | TimerList | TimerLink nat
  | WaitQueue nat | WaitLink nat
  | ProcList | ListLink nat
  | HashList nat | HashLink nat

record timer =
  expires :: nat
  tproc :: nat

record wait =
  wproc :: nat
  wakeup_flags :: "32 word"
  wait_queue :: nat

record kernel =
  procs :: "nat \<Rightarrow> proc_struct"
  links :: "knode links"
  pool :: "nat skew_heap_entry"
  proc_num :: "32 word"
  max_time_slice :: int
  lab6_run_pool :: "nat option"
  timers :: "nat \<Rightarrow> timer"
  waits :: "nat \<Rightarrow> wait"
  sem_value :: "nat \<Rightarrow> int"
  current :: nat
  idleproc :: nat
  initproc :: nat
  satp :: nat
  nr_process :: int
  last_pid :: int
  next_safe :: int

abbreviation WT_INTERRUPTED :: "32 word" where "WT_INTERRUPTED \<equiv> 0x80000000"
abbreviation WT_CHILD :: "32 word" where "WT_CHILD \<equiv> 0x80000001"
abbreviation WT_TIMER :: "32 word" where "WT_TIMER \<equiv> 0x80000002"
abbreviation WT_KBD :: "32 word" where "WT_KBD \<equiv> 0x80000004"
abbreviation WT_KSEM :: "32 word" where "WT_KSEM \<equiv> 0x00000100"
abbreviation PF_EXITING :: "32 word" where "PF_EXITING \<equiv> 1"
abbreviation MAX_PROCESS :: int where "MAX_PROCESS \<equiv> 4096"
abbreviation MAX_PID :: int where "MAX_PID \<equiv> 8192"

definition upd_proc :: "nat \<Rightarrow> (proc_struct \<Rightarrow> proc_struct) \<Rightarrow> kernel \<Rightarrow> kernel" where
  "upd_proc p f k = k\<lparr>procs := (procs k)(p := f (procs k p))\<rparr>"

definition upd_klinks :: "(knode links \<Rightarrow> knode links) \<Rightarrow> kernel \<Rightarrow> kernel" where
  "upd_klinks f k = k\<lparr>links := f (links k)\<rparr>"

lemma upd_proc_sel [simp]:
  "procs (upd_proc p f k) = (procs k)(p := f (procs k p))"
  "links (upd_proc p f k) = links k" "pool (upd_proc p f k) = pool k"
  "proc_num (upd_proc p f k) = proc_num k" "max_time_slice (upd_proc p f k) = max_time_slice k"
  "lab6_run_pool (upd_proc p f k) = lab6_run_pool k" "timers (upd_proc p f k) = timers k"
  "waits (upd_proc p f k) = waits k" "sem_value (upd_proc p f k) = sem_value k" "current (upd_proc p f k) = current k"
  "idleproc (upd_proc p f k) = idleproc k" "initproc (upd_proc p f k) = initproc k"
  "satp (upd_proc p f k) = satp k" "nr_process (upd_proc p f k) = nr_process k"
  "last_pid (upd_proc p f k) = last_pid k" "next_safe (upd_proc p f k) = next_safe k"
  by (simp_all add: upd_proc_def)

lemma upd_klinks_sel [simp]:
  "links (upd_klinks g k) = g (links k)"
  "procs (upd_klinks g k) = procs k" "pool (upd_klinks g k) = pool k"
  "proc_num (upd_klinks g k) = proc_num k" "max_time_slice (upd_klinks g k) = max_time_slice k"
  "lab6_run_pool (upd_klinks g k) = lab6_run_pool k" "timers (upd_klinks g k) = timers k"
  "waits (upd_klinks g k) = waits k" "sem_value (upd_klinks g k) = sem_value k" "current (upd_klinks g k) = current k"
  "idleproc (upd_klinks g k) = idleproc k" "initproc (upd_klinks g k) = initproc k"
  "satp (upd_klinks g k) = satp k" "nr_process (upd_klinks g k) = nr_process k"
  "last_pid (upd_klinks g k) = last_pid k" "next_safe (upd_klinks g k) = next_safe k"
  by (simp_all add: upd_klinks_def)

text \<open>What scheduling leaves alone: identity, family, memory and files of every process, and the
  counters of the process table.\<close>

definition same_table :: "kernel \<Rightarrow> kernel \<Rightarrow> bool" where
  "same_table k k' \<longleftrightarrow>
     (\<forall>p. pid (procs k' p) = pid (procs k p) \<and> parent (procs k' p) = parent (procs k p) \<and>
        cptr (procs k' p) = cptr (procs k p) \<and> yptr (procs k' p) = yptr (procs k p) \<and>
        optr (procs k' p) = optr (procs k p) \<and> pflags (procs k' p) = pflags (procs k p) \<and>
        exit_code (procs k' p) = exit_code (procs k p) \<and> kstack (procs k' p) = kstack (procs k p) \<and>
        mm (procs k' p) = mm (procs k p) \<and> filesp (procs k' p) = filesp (procs k p)) \<and>
     nr_process k' = nr_process k \<and> last_pid k' = last_pid k \<and> next_safe k' = next_safe k"

lemma same_table_refl [simp]: "same_table k k"
  by (simp add: same_table_def)

lemma same_table_trans: "same_table k k' \<Longrightarrow> same_table k' k'' \<Longrightarrow> same_table k k''"
  by (simp add: same_table_def)

end
