(* ===== verification/Sched.thy ===== *)
theory Sched
  imports Kernel_State
begin

section \<open>The scheduler framework and round robin (schedule/sched.c, default\_sched.c)\<close>

text \<open>
  \<^verbatim>\<open>struct sched_class\<close> is a record of functions, \<^verbatim>\<open>schedule\<close> and \<^verbatim>\<open>wakeup_proc\<close> take it as an
  argument. The locale \<open>sched_policy\<close> is the contract between \<^verbatim>\<open>sched.c\<close> and a policy: \<open>ready k A\<close>
  says that the policy's data structure in \<open>k\<close> is well formed and holds the processes \<open>A\<close>. Inside
  it: \<open>schedule\<close> and \<open>wakeup_proc\<close> return and keep \<open>sched_inv\<close>, "the run queue holds exactly the
  runnable processes that are neither running nor the idle process". It is interpreted here on
  the round robin class, in theory \<open>Stride\<close> on the stride class and in \<open>Lab6_Sched\<close> on others.
\<close>

subsection \<open>Operations\<close>

record sched_class =
  sc_init :: "kernel \<Rightarrow> kernel"
  sc_enqueue :: "nat \<Rightarrow> kernel \<Rightarrow> kernel option"
  sc_dequeue :: "nat \<Rightarrow> kernel \<Rightarrow> kernel option"
  sc_pick_next :: "kernel \<Rightarrow> (nat option \<times> kernel) option"
  sc_proc_tick :: "nat \<Rightarrow> kernel \<Rightarrow> kernel"

definition RR_init :: "kernel \<Rightarrow> kernel" where
  "RR_init k = (upd_klinks (list_init RunList) k)\<lparr>proc_num := 0\<rparr>"

definition refill_slice :: "nat \<Rightarrow> kernel \<Rightarrow> kernel" where
  "refill_slice p k =
     (if time_slice (procs k p) = 0 \<or> max_time_slice k < time_slice (procs k p)
      then upd_proc p (\<lambda>x. x\<lparr>time_slice := max_time_slice k\<rparr>) k else k)"

definition RR_enqueue :: "nat \<Rightarrow> kernel \<Rightarrow> kernel option" where
  "RR_enqueue p k = do {
     massert (list_empty (RunLink p) (links k));
     let k = upd_klinks (list_add_before RunList (RunLink p)) k;
     let k = refill_slice p k;
     let k = upd_proc p (\<lambda>x. x\<lparr>rq := True\<rparr>) k;
     Some (k\<lparr>proc_num := proc_num k + 1\<rparr>)
   }"

definition RR_dequeue :: "nat \<Rightarrow> kernel \<Rightarrow> kernel option" where
  "RR_dequeue p k = do {
     massert (\<not> list_empty (RunLink p) (links k) \<and> rq (procs k p));
     let k = upd_klinks (list_del_init (RunLink p)) k;
     Some (k\<lparr>proc_num := proc_num k - 1\<rparr>)
   }"

definition RR_pick_next :: "kernel \<Rightarrow> (nat option \<times> kernel) option" where
  "RR_pick_next k =
     (case list_next RunList (links k) of
        RunLink p \<Rightarrow> Some (Some p, k)
      | RunList \<Rightarrow> Some (None, k)
      | _ \<Rightarrow> None)"

definition RR_proc_tick :: "nat \<Rightarrow> kernel \<Rightarrow> kernel" where
  "RR_proc_tick p k = (
     let k = (if 0 < time_slice (procs k p)
              then upd_proc p (\<lambda>x. x\<lparr>time_slice := time_slice x - 1\<rparr>) k else k)
     in if time_slice (procs k p) = 0 then upd_proc p (\<lambda>x. x\<lparr>need_resched := True\<rparr>) k else k)"

definition default_sched_class :: sched_class where
  "default_sched_class = \<lparr>sc_init = RR_init, sc_enqueue = RR_enqueue, sc_dequeue = RR_dequeue,
     sc_pick_next = RR_pick_next, sc_proc_tick = RR_proc_tick\<rparr>"

definition sched_class_enqueue :: "sched_class \<Rightarrow> nat \<Rightarrow> kernel \<Rightarrow> kernel option" where
  "sched_class_enqueue sc p k = (if p \<noteq> idleproc k then sc_enqueue sc p k else Some k)"

definition sched_class_dequeue :: "sched_class \<Rightarrow> nat \<Rightarrow> kernel \<Rightarrow> kernel option" where
  "sched_class_dequeue sc p k = sc_dequeue sc p k"

definition sched_class_pick_next :: "sched_class \<Rightarrow> kernel \<Rightarrow> (nat option \<times> kernel) option" where
  "sched_class_pick_next sc k = sc_pick_next sc k"

definition sched_class_proc_tick :: "sched_class \<Rightarrow> nat \<Rightarrow> kernel \<Rightarrow> kernel" where
  "sched_class_proc_tick sc p k =
     (if p \<noteq> idleproc k then sc_proc_tick sc p k else upd_proc p (\<lambda>x. x\<lparr>need_resched := True\<rparr>) k)"

definition sched_init :: "sched_class \<Rightarrow> kernel \<Rightarrow> kernel" where
  "sched_init sc k = sc_init sc ((upd_klinks (list_init TimerList) k)\<lparr>max_time_slice := 5\<rparr>)"

definition wakeup_proc :: "sched_class \<Rightarrow> nat \<Rightarrow> kernel \<Rightarrow> kernel option" where
  "wakeup_proc sc p k = do {
     massert (state (procs k p) \<noteq> PROC_ZOMBIE);
     if state (procs k p) \<noteq> PROC_RUNNABLE then do {
       let k = upd_proc p (\<lambda>x. x\<lparr>state := PROC_RUNNABLE, wait_state := 0\<rparr>) k;
       if p \<noteq> current k then sched_class_enqueue sc p k else Some k
     } else Some k
   }"

definition proc_run :: "nat \<Rightarrow> kernel \<Rightarrow> kernel" where
  "proc_run p k =
     (if p \<noteq> current k then
        (upd_proc p (\<lambda>x. x\<lparr>runs := runs x + 1\<rparr>) (k\<lparr>current := p\<rparr>))\<lparr>satp := pgdir (procs k p)\<rparr>
      else k)"

definition schedule :: "sched_class \<Rightarrow> kernel \<Rightarrow> kernel option" where
  "schedule sc k = do {
     let k = upd_proc (current k) (\<lambda>x. x\<lparr>need_resched := False\<rparr>) k;
     k \<leftarrow> (if state (procs k (current k)) = PROC_RUNNABLE
           then sched_class_enqueue sc (current k) k else Some k);
     (nxt, k) \<leftarrow> sched_class_pick_next sc k;
     k \<leftarrow> (case nxt of Some p \<Rightarrow> sched_class_dequeue sc p k | None \<Rightarrow> Some k);
     let p = (case nxt of Some p \<Rightarrow> p | None \<Rightarrow> idleproc k);
     let k = upd_proc p (\<lambda>x. x\<lparr>runs := runs x + 1\<rparr>) k;
     Some (if p \<noteq> current k then proc_run p k else k)
   }"

subsection \<open>The contract of a scheduling class\<close>

fun is_run_node :: "knode \<Rightarrow> bool" where
  "is_run_node RunList = True"
| "is_run_node (RunLink p) = True"
| "is_run_node _ = False"

lemma same_on_refl [simp]: "same_on A h h"
  by (simp add: same_on_def)

text \<open>What a policy may change: its own fields of the processes, the run list and the run pool.\<close>

definition policy_frame :: "kernel \<Rightarrow> kernel \<Rightarrow> bool" where
  "policy_frame k k' \<longleftrightarrow>
     (\<forall>p. \<exists>ts r st. procs k' p = (procs k p)\<lparr>time_slice := ts, rq := r, lab6_stride := st\<rparr>) \<and>
     (\<exists>P L H n r. k' = k\<lparr>procs := P, links := L, pool := H, proc_num := n, lab6_run_pool := r\<rparr> \<and>
        same_on {x. \<not> is_run_node x} (links k) L)"

lemma policy_frame_refl [simp]: "policy_frame k k"
proof -
  have "procs k p = (procs k p)\<lparr>time_slice := time_slice (procs k p), rq := rq (procs k p),
      lab6_stride := lab6_stride (procs k p)\<rparr>" for p by simp
  moreover have "k = k\<lparr>procs := procs k, links := links k, pool := pool k, proc_num := proc_num k,
      lab6_run_pool := lab6_run_pool k\<rparr>" by simp
  moreover have "same_on {x. \<not> is_run_node x} (links k) (links k)" by (simp add: same_on_def)
  ultimately show ?thesis unfolding policy_frame_def by (intro conjI allI exI)
qed

lemma policy_frame_trans:
  assumes "policy_frame k k'" "policy_frame k' k''"
  shows "policy_frame k k''"
proof -
  have "\<exists>ts r st. procs k'' p = (procs k p)\<lparr>time_slice := ts, rq := r, lab6_stride := st\<rparr>" for p
  proof -
    obtain ts r st ts' r' st' where "procs k' p = (procs k p)\<lparr>time_slice := ts, rq := r, lab6_stride := st\<rparr>"
      "procs k'' p = (procs k' p)\<lparr>time_slice := ts', rq := r', lab6_stride := st'\<rparr>"
      using assms unfolding policy_frame_def by metis
    then show ?thesis by auto
  qed
  moreover obtain P L H n r P' L' H' n' r' where
    k': "k' = k\<lparr>procs := P, links := L, pool := H, proc_num := n, lab6_run_pool := r\<rparr>"
    "same_on {x. \<not> is_run_node x} (links k) L"
    "k'' = k'\<lparr>procs := P', links := L', pool := H', proc_num := n', lab6_run_pool := r'\<rparr>"
    "same_on {x. \<not> is_run_node x} (links k') L'" using assms unfolding policy_frame_def by blast
  then have "k'' = k\<lparr>procs := P', links := L', pool := H', proc_num := n', lab6_run_pool := r'\<rparr>"
    "same_on {x. \<not> is_run_node x} (links k) L'" by (auto simp: same_on_def)
  ultimately show ?thesis unfolding policy_frame_def by blast
qed

lemma policy_frameD:
  assumes "policy_frame k k'"
  shows "state (procs k' p) = state (procs k p)" "runs (procs k' p) = runs (procs k p)"
    "wait_state (procs k' p) = wait_state (procs k p)" "need_resched (procs k' p) = need_resched (procs k p)"
    "pgdir (procs k' p) = pgdir (procs k p)"
    "current k' = current k" "idleproc k' = idleproc k" "initproc k' = initproc k"
    "timers k' = timers k" "max_time_slice k' = max_time_slice k" "waits k' = waits k" "sem_value k' = sem_value k"
    "same_on {x. \<not> is_run_node x} (links k) (links k')" "same_table k k'"
proof -
  have tab: "same_table k k'"
  proof -
    have "pid (procs k' q) = pid (procs k q) \<and> parent (procs k' q) = parent (procs k q) \<and>
        cptr (procs k' q) = cptr (procs k q) \<and> yptr (procs k' q) = yptr (procs k q) \<and>
        optr (procs k' q) = optr (procs k q) \<and> pflags (procs k' q) = pflags (procs k q) \<and>
        exit_code (procs k' q) = exit_code (procs k q) \<and> kstack (procs k' q) = kstack (procs k q) \<and>
        mm (procs k' q) = mm (procs k q) \<and> filesp (procs k' q) = filesp (procs k q)" for q
    proof -
      have "\<exists>ts r st. procs k' q = (procs k q)\<lparr>time_slice := ts, rq := r, lab6_stride := st\<rparr>"
        using assms unfolding policy_frame_def by blast
      then show ?thesis by auto
    qed
    then show ?thesis using assms unfolding policy_frame_def same_table_def by auto
  qed
  then show "same_table k k'" .
  have "\<exists>ts r st. procs k' p = (procs k p)\<lparr>time_slice := ts, rq := r, lab6_stride := st\<rparr>"
    using assms unfolding policy_frame_def by blast
  then show "state (procs k' p) = state (procs k p)" "runs (procs k' p) = runs (procs k p)"
    "wait_state (procs k' p) = wait_state (procs k p)" "need_resched (procs k' p) = need_resched (procs k p)"
    "pgdir (procs k' p) = pgdir (procs k p)" by auto
  show "current k' = current k" "idleproc k' = idleproc k" "initproc k' = initproc k"
    "timers k' = timers k" "max_time_slice k' = max_time_slice k" "waits k' = waits k" "sem_value k' = sem_value k"
    "same_on {x. \<not> is_run_node x} (links k) (links k')"
    using assms unfolding policy_frame_def by auto
qed

text \<open>The processes that ought to be queued, and the scheduler's invariant.\<close>

definition waiting_to_run :: "kernel \<Rightarrow> nat set" where
  "waiting_to_run k = {p. state (procs k p) = PROC_RUNNABLE \<and> p \<noteq> current k \<and> p \<noteq> idleproc k}"

text \<open>The processes that compete when \<^verbatim>\<open>schedule\<close> is called.\<close>

definition contenders :: "kernel \<Rightarrow> nat set" where
  "contenders k = {p. state (procs k p) = PROC_RUNNABLE \<and> p \<noteq> idleproc k}"

definition sched_inv :: "(kernel \<Rightarrow> nat set \<Rightarrow> bool) \<Rightarrow> kernel \<Rightarrow> bool" where
  "sched_inv ready k \<longleftrightarrow> ready k (waiting_to_run k)"

text \<open>\<open>fit k p A\<close>: process \<open>p\<close> can be compared with the queued processes \<open>A\<close>. \<open>keeps\<close> says which
  updates of the state the policy's invariant cannot see.\<close>

definition unseen :: "kernel \<Rightarrow> kernel \<Rightarrow> bool" where
  "unseen k k' \<longleftrightarrow> same_on {x. is_run_node x} (links k) (links k') \<and> pool k' = pool k \<and> proc_num k' = proc_num k \<and>
     lab6_run_pool k' = lab6_run_pool k \<and> max_time_slice k' = max_time_slice k \<and>
     (\<forall>p. rq (procs k' p) = rq (procs k p) \<and> lab6_stride (procs k' p) = lab6_stride (procs k p) \<and>
        lab6_priority (procs k' p) = lab6_priority (procs k p))"

text \<open>What \<^verbatim>\<open>wakeup_proc\<close> leaves alone.\<close>

definition wakeup_frame :: "nat \<Rightarrow> kernel \<Rightarrow> kernel \<Rightarrow> bool" where
  "wakeup_frame p k k' \<longleftrightarrow>
     current k' = current k \<and> idleproc k' = idleproc k \<and> initproc k' = initproc k \<and> timers k' = timers k \<and>
     waits k' = waits k \<and> sem_value k' = sem_value k \<and>
     (\<forall>q. q \<noteq> p \<longrightarrow> state (procs k' q) = state (procs k q) \<and> wait_state (procs k' q) = wait_state (procs k q)) \<and>
     (wait_state (procs k' p) = 0 \<or> wait_state (procs k' p) = wait_state (procs k p)) \<and>
     same_on {x. \<not> is_run_node x} (links k) (links k') \<and> same_table k k'"

text \<open>What \<^verbatim>\<open>schedule\<close> leaves alone.\<close>

definition schedule_frame :: "kernel \<Rightarrow> kernel \<Rightarrow> bool" where
  "schedule_frame k k' \<longleftrightarrow>
     idleproc k' = idleproc k \<and> initproc k' = initproc k \<and> timers k' = timers k \<and> waits k' = waits k \<and>
     sem_value k' = sem_value k \<and>
     (\<forall>p. state (procs k' p) = state (procs k p) \<and> wait_state (procs k' p) = wait_state (procs k p)) \<and>
     same_on {x. \<not> is_run_node x} (links k) (links k') \<and> same_table k k'"

locale sched_policy =
  fixes sc :: sched_class
    and ready :: "kernel \<Rightarrow> nat set \<Rightarrow> bool"
    and fit :: "kernel \<Rightarrow> nat \<Rightarrow> nat set \<Rightarrow> bool"
    and best :: "kernel \<Rightarrow> nat \<Rightarrow> nat set \<Rightarrow> bool"
  assumes ready_unseen: "ready k A \<Longrightarrow> unseen k k' \<Longrightarrow> ready k' A"
    and fit_unseen: "fit k p A \<Longrightarrow> unseen k k' \<Longrightarrow> fit k' p A"
    and best_unseen: "best k p A \<Longrightarrow> unseen k k' \<Longrightarrow> best k' p A"
    and enqueue_best: "sc_enqueue sc p k = Some k' \<Longrightarrow> best k' q B \<Longrightarrow> best k q B"
    and enqueue_ok: "ready k A \<Longrightarrow> p \<notin> A \<Longrightarrow> fit k p A \<Longrightarrow>
      \<exists>k'. sc_enqueue sc p k = Some k' \<and> ready k' (insert p A) \<and> policy_frame k k'"
    and pick_none: "ready k {} \<Longrightarrow> sc_pick_next sc k = Some (None, k)"
    and pick_dequeue: "ready k A \<Longrightarrow> A \<noteq> {} \<Longrightarrow>
      \<exists>p k' k''. sc_pick_next sc k = Some (Some p, k') \<and> sc_dequeue sc p k' = Some k'' \<and>
        p \<in> A \<and> best k p A \<and> ready k'' (A - {p}) \<and> fit k'' p (A - {p}) \<and> policy_frame k k''"
begin

lemma wakeup_ok:
  assumes "sched_inv ready k" "state (procs k p) \<noteq> PROC_ZOMBIE"
    and "fit k p (waiting_to_run k)"
  shows "\<exists>k'. wakeup_proc sc p k = Some k' \<and> sched_inv ready k' \<and> state (procs k' p) = PROC_RUNNABLE \<and>
    wakeup_frame p k k'"
proof (cases "state (procs k p) = PROC_RUNNABLE")
  case True
  then show ?thesis using assms(1) by (simp add: wakeup_proc_def wakeup_frame_def same_on_def)
next
  case False
  let ?k = "upd_proc p (\<lambda>x. x\<lparr>state := PROC_RUNNABLE, wait_state := 0\<rparr>) k"
  have u: "unseen k ?k" by (simp add: unseen_def)
  have r: "ready ?k (waiting_to_run k)" and f: "fit ?k p (waiting_to_run k)"
    using ready_unseen [OF assms(1) [unfolded sched_inv_def] u] fit_unseen [OF assms(3) u] .
  have w: "waiting_to_run ?k = (if p \<noteq> current k \<and> p \<noteq> idleproc k then insert p (waiting_to_run k) else waiting_to_run k)"
    using False by (auto simp: waiting_to_run_def)
  show ?thesis
  proof (cases "p \<noteq> current k \<and> p \<noteq> idleproc k")
    case True
    have "p \<notin> waiting_to_run k" using False by (simp add: waiting_to_run_def)
    then obtain k' where k': "sc_enqueue sc p ?k = Some k'" "ready k' (insert p (waiting_to_run k))"
      "policy_frame ?k k'" using enqueue_ok [OF r _ f] by blast
    note fr = policy_frameD [OF k'(3)]
    have "waiting_to_run k' = waiting_to_run ?k" using fr by (simp add: waiting_to_run_def)
    then have "sched_inv ready k'" using k'(2) w True by (simp add: sched_inv_def)
    moreover have "wakeup_proc sc p k = Some k'"
      using k'(1) True False assms(2) by (simp add: wakeup_proc_def sched_class_enqueue_def Let_def)
    moreover have "same_table k k'" using same_table_trans [OF _ fr(14), of k] by (simp add: same_table_def)
    ultimately show ?thesis using fr by (simp add: wakeup_frame_def)
  next
    case nq: False
    then have "wakeup_proc sc p k = Some ?k"
      using False assms(2) by (auto simp: wakeup_proc_def sched_class_enqueue_def Let_def)
    moreover have "waiting_to_run ?k = waiting_to_run k" using w nq by meson
    ultimately show ?thesis using r by (simp add: sched_inv_def wakeup_frame_def same_on_def same_table_def)
  qed
qed

lemma schedule_ok:
  assumes "sched_inv ready k" and "current k \<in> contenders k \<Longrightarrow> fit k (current k) (waiting_to_run k)"
  shows "\<exists>k'. schedule sc k = Some k' \<and> sched_inv ready k' \<and> schedule_frame k k' \<and>
    (if contenders k = {} then current k' = idleproc k
     else current k' \<in> contenders k \<and> best k (current k') (contenders k) \<and>
       fit k' (current k') (waiting_to_run k'))"
proof -
  let ?k0 = "upd_proc (current k) (\<lambda>x. x\<lparr>need_resched := False\<rparr>) k"
  let ?m = "if state (procs ?k0 (current ?k0)) = PROC_RUNNABLE then sched_class_enqueue sc (current ?k0) ?k0 else Some ?k0"
  have u: "unseen k ?k0" "unseen ?k0 k" by (simp_all add: unseen_def)
  have r0: "ready ?k0 (waiting_to_run k)" using ready_unseen [OF _ u(1)] assms(1) by (simp add: sched_inv_def)
  obtain k1 where k1: "?m = Some k1" "ready k1 (contenders k)" "policy_frame ?k0 k1"
    "\<And>q. best k1 q (contenders k) \<Longrightarrow> best ?k0 q (contenders k)"
  proof (cases "current k \<in> contenders k")
    case True
    then have c: "state (procs k (current k)) = PROC_RUNNABLE" "current k \<noteq> idleproc k"
      "current k \<notin> waiting_to_run k" "contenders k = insert (current k) (waiting_to_run k)"
      by (auto simp: contenders_def waiting_to_run_def)
    then obtain k1 where "sc_enqueue sc (current k) ?k0 = Some k1" "ready k1 (contenders k)" "policy_frame ?k0 k1"
      using enqueue_ok [OF r0 c(3) fit_unseen [OF assms(2) [OF True] u(1)]] by auto
    then show ?thesis using that [of k1] enqueue_best c by (simp add: sched_class_enqueue_def)
  next
    case False
    then have "?m = Some ?k0" "contenders k = waiting_to_run k"
      by (auto simp: contenders_def waiting_to_run_def sched_class_enqueue_def)
    then show ?thesis using that [of ?k0] r0 by simp
  qed
  note f1 = policy_frameD [OF k1(3)]
  obtain p k2 nxt k1' where k2: "sc_pick_next sc k1 = Some (nxt, k1')"
    "(case nxt of Some p \<Rightarrow> sc_dequeue sc p k1' | None \<Rightarrow> Some k1') = Some k2"
    "p = (case nxt of Some p \<Rightarrow> p | None \<Rightarrow> idleproc k2)"
    "ready k2 (contenders k - {p})" "policy_frame k1 k2"
    "if contenders k = {} then p = idleproc k
     else p \<in> contenders k \<and> best k1 p (contenders k) \<and> fit k2 p (contenders k - {p})"
  proof (cases "contenders k = {}")
    case True
    then show ?thesis
      using that [of None k1 k1 "idleproc k"] pick_none [of k1] k1(2) f1 by simp
  next
    case False
    from pick_dequeue [OF k1(2) this] obtain p k' k'' where
      "sc_pick_next sc k1 = Some (Some p, k')" "sc_dequeue sc p k' = Some k''" "p \<in> contenders k"
      "best k1 p (contenders k)" "ready k'' (contenders k - {p})" "fit k'' p (contenders k - {p})" "policy_frame k1 k''" by blast
    then show ?thesis using that [of "Some p" k' k'' p] False by simp
  qed
  note f2 = policy_frameD [OF k2(5)]
  let ?k3 = "upd_proc p (\<lambda>x. x\<lparr>runs := runs x + 1\<rparr>) k2"
  define k' where "k' = (if p \<noteq> current k2 then proc_run p ?k3 else ?k3)"
  have sch: "schedule sc k = Some k'"
    unfolding schedule_def Let_def k1(1) sched_class_pick_next_def sched_class_dequeue_def
    using k2(1,2) k2(3) by (simp add: k'_def split: option.splits)
  have st: "state (procs k' q) = state (procs k q)" "idleproc k' = idleproc k" "current k' = p" for q
    using f1 f2 by (auto simp: k'_def proc_run_def)
  have un: "unseen k2 k'" by (auto simp: k'_def unseen_def proc_run_def)
  then have "ready k' (contenders k - {p})" using ready_unseen k2(4) by blast
  moreover have w': "waiting_to_run k' = contenders k - {p}"
    using st by (auto simp: waiting_to_run_def contenders_def)
  ultimately have "sched_inv ready k'" by (simp add: sched_inv_def)
  moreover have "fit k2 p (contenders k - {p}) \<Longrightarrow> fit k' p (waiting_to_run k')" using fit_unseen un w' by simp
  moreover have "best k1 p (contenders k) \<Longrightarrow> best k p (contenders k)"
    using k1(4) best_unseen [OF _ u(2)] by blast
  moreover have "same_table k k'"
    using same_table_trans [OF f1(14) f2(14)] by (auto simp: same_table_def k'_def proc_run_def)
  then have "schedule_frame k k'"
    using f1 f2 same_on_trans [OF f1(13) f2(13)] by (auto simp: schedule_frame_def k'_def proc_run_def)
  ultimately show ?thesis using sch st k2(6) by auto
qed

end

subsection \<open>Round robin\<close>

definition rr_queue :: "kernel \<Rightarrow> nat list \<Rightarrow> bool" where
  "rr_queue k q \<longleftrightarrow>
     dll (links k) RunList (map RunLink q) \<and> (\<forall>p. p \<notin> set q \<longrightarrow> detached (links k) (RunLink p)) \<and>
     (\<forall>p\<in>set q. rq (procs k p)) \<and> proc_num k = of_nat (length q)"

definition RR_ready :: "kernel \<Rightarrow> nat set \<Rightarrow> bool" where
  "RR_ready k A \<longleftrightarrow> (\<exists>q. rr_queue k q \<and> set q = A)"

lemma policy_frameI:
  assumes "\<And>p. \<exists>ts r st. procs k' p = (procs k p)\<lparr>time_slice := ts, rq := r, lab6_stride := st\<rparr>"
    and "k' = k\<lparr>procs := procs k', links := links k', pool := pool k', proc_num := proc_num k',
      lab6_run_pool := lab6_run_pool k'\<rparr>"
    and "same_on {x. \<not> is_run_node x} (links k) (links k')"
  shows "policy_frame k k'"
  unfolding policy_frame_def using assms by blast

lemma own_fieldsI:
  "x = y\<lparr>time_slice := time_slice x, rq := rq x, lab6_stride := lab6_stride x\<rparr> \<Longrightarrow>
    \<exists>ts r st. x = y\<lparr>time_slice := ts, rq := r, lab6_stride := st\<rparr>"
  by blast

lemma run_nodes: "x \<in> set (RunList # map RunLink q) \<Longrightarrow> is_run_node x"
  by auto

lemma rr_queue_unseen:
  assumes "rr_queue k q" "unseen k k'"
  shows "rr_queue k' q"
proof -
  have s: "same_on {x. is_run_node x} (links k) (links k')" using assms(2) by (simp add: unseen_def)
  then have "same_on (set (RunList # map RunLink q)) (links k) (links k')" by (rule same_on_mono) auto
  from dll_same_on [OF this] have "dll (links k') RunList (map RunLink q) = dll (links k) RunList (map RunLink q)" .
  moreover have "detached (links k') (RunLink p) = detached (links k) (RunLink p)" for p
    using detached_same_on [OF s] by simp
  ultimately show ?thesis using assms by (auto simp: rr_queue_def unseen_def)
qed

lemma rr_queue_distinct: "rr_queue k q \<Longrightarrow> distinct q"
  using dll_distinct [of "links k" RunList "map RunLink q"] by (auto simp: rr_queue_def distinct_map)

lemma RR_enqueue_queue:
  assumes "rr_queue k q" "p \<notin> set q"
  shows "\<exists>k'. RR_enqueue p k = Some k' \<and> rr_queue k' (q @ [p]) \<and> policy_frame k k' \<and>
    (time_slice (procs k' p) = (if time_slice (procs k p) = 0 \<or> max_time_slice k < time_slice (procs k p)
       then max_time_slice k else time_slice (procs k p)))"
proof -
  have ring: "dll (links k) RunList (map RunLink q)" and det: "detached (links k) (RunLink p)"
    using assms by (auto simp: rr_queue_def)
  define h where "h = list_add_before RunList (RunLink p) (links k)"
  define k1 where "k1 = refill_slice p (upd_klinks (list_add_before RunList (RunLink p)) k)"
  define k' where "k' = (upd_proc p (\<lambda>x. x\<lparr>rq := True\<rparr>) k1)\<lparr>proc_num := proc_num k1 + 1\<rparr>"
  have k1: "links k1 = h" "proc_num k1 = proc_num k" "\<And>r. r \<noteq> p \<Longrightarrow> procs k1 r = procs k r"
    "procs k1 p = (procs k p)\<lparr>time_slice := (if time_slice (procs k p) = 0 \<or> max_time_slice k < time_slice (procs k p)
       then max_time_slice k else time_slice (procs k p))\<rparr>"
    by (auto simp: k1_def h_def refill_slice_def)
  have eq: "RR_enqueue p k = Some k'"
    using detached_empty [OF det] by (simp add: RR_enqueue_def k'_def k1_def Let_def)
  have foot: "same_on (- insert (RunLink p) (set (RunList # map RunLink q))) (links k) h"
    unfolding h_def by (rule add_footprint(1) [OF ring]) simp
  have "dll h RunList (map RunLink (q @ [p]))"
    using dll_add_before_head [OF ring, of "RunLink p"] assms(2) by (auto simp: h_def)
  moreover have "detached h (RunLink r)" if "r \<notin> set (q @ [p])" for r
  proof -
    have "RunLink r \<in> - insert (RunLink p) (set (RunList # map RunLink q))" using that by auto
    then show ?thesis using detached_same_on [OF foot] assms(1) that by (auto simp: rr_queue_def)
  qed
  ultimately have "rr_queue k' (q @ [p])" using assms k1 by (auto simp: rr_queue_def k'_def)
  moreover have "policy_frame k k'"
  proof (rule policy_frameI)
    show "\<exists>ts r st. procs k' x = (procs k x)\<lparr>time_slice := ts, rq := r, lab6_stride := st\<rparr>" for x
      by (rule own_fieldsI) (cases "x = p", simp_all add: k'_def k1(3,4))
    show "same_on {x. \<not> is_run_node x} (links k) (links k')"
      using foot run_nodes [of _ q] by (auto simp: k'_def k1(1) elim!: same_on_mono)
  qed (simp add: k'_def k1_def refill_slice_def upd_proc_def upd_klinks_def)
  moreover have "time_slice (procs k' p) = (if time_slice (procs k p) = 0 \<or> max_time_slice k < time_slice (procs k p)
       then max_time_slice k else time_slice (procs k p))" using k1(4) by (simp add: k'_def)
  ultimately show ?thesis using eq by blast
qed

lemma RR_dequeue_queue:
  assumes "rr_queue k (us @ p # vs)"
  shows "\<exists>k'. RR_dequeue p k = Some k' \<and> rr_queue k' (us @ vs) \<and> policy_frame k k'"
proof -
  let ?q = "us @ p # vs"
  have ring: "dll (links k) RunList (map RunLink us @ RunLink p # map RunLink vs)" and "rq (procs k p)"
    using assms by (auto simp: rr_queue_def)
  let ?k' = "(upd_klinks (list_del_init (RunLink p)) k)\<lparr>proc_num := proc_num k - 1\<rparr>"
  have "\<not> list_empty (RunLink p) (links k)" by (rule dll_member_not_empty [OF ring]) simp
  then have eq: "RR_dequeue p k = Some ?k'" using \<open>rq (procs k p)\<close> by (simp add: RR_dequeue_def Let_def)
  have foot: "same_on (- set (RunList # map RunLink us @ RunLink p # map RunLink vs)) (links k)
      (list_del_init (RunLink p) (links k))" by (rule del_footprint(2) [OF ring]) simp
  have "detached (list_del_init (RunLink p) (links k)) (RunLink r)" if "r \<notin> set (us @ vs)" for r
  proof (cases "r = p")
    case False
    then have "RunLink r \<in> - set (RunList # map RunLink us @ RunLink p # map RunLink vs)" using that by auto
    then show ?thesis using detached_same_on [OF foot] assms that False by (auto simp: rr_queue_def)
  qed simp
  then have "rr_queue ?k' (us @ vs)"
    using assms dll_del_init [OF ring] by (auto simp: rr_queue_def)
  moreover have "policy_frame k ?k'"
  proof (rule policy_frameI)
    show "\<exists>ts r st. procs ?k' x = (procs k x)\<lparr>time_slice := ts, rq := r, lab6_stride := st\<rparr>" for x
      by (rule own_fieldsI) simp
    show "same_on {x. \<not> is_run_node x} (links k) (links ?k')"
      using foot by (auto elim!: same_on_mono)
  qed (simp add: upd_klinks_def)
  ultimately show ?thesis using eq by blast
qed

lemma RR_pick_next_queue:
  "rr_queue k q \<Longrightarrow> RR_pick_next k = Some (case q of [] \<Rightarrow> None | p # _ \<Rightarrow> Some p, k)"
  by (cases q) (auto simp: rr_queue_def RR_pick_next_def list_next_def dll_next_head)

lemma default_sched_class_simps [simp]:
  "sc_enqueue default_sched_class = RR_enqueue" "sc_dequeue default_sched_class = RR_dequeue"
  "sc_pick_next default_sched_class = RR_pick_next" "sc_proc_tick default_sched_class = RR_proc_tick"
  "sc_init default_sched_class = RR_init"
  by (simp_all add: default_sched_class_def)

interpretation RR: sched_policy default_sched_class RR_ready "\<lambda>k p A. True" "\<lambda>k p A. True"
proof unfold_locales
  fix k k' A
  show "RR_ready k A \<Longrightarrow> unseen k k' \<Longrightarrow> RR_ready k' A"
    by (auto simp: RR_ready_def intro: rr_queue_unseen)
next
  fix k A p
  assume "RR_ready k A" "p \<notin> A"
  then obtain q where "rr_queue k q" "set q = A" by (auto simp: RR_ready_def)
  with RR_enqueue_queue [of k q p] \<open>p \<notin> A\<close>
  show "\<exists>k'. sc_enqueue default_sched_class p k = Some k' \<and> RR_ready k' (insert p A) \<and> policy_frame k k'"
    by (fastforce simp: RR_ready_def)
next
  fix k
  assume "RR_ready k {}"
  then have "rr_queue k []" by (simp add: RR_ready_def)
  then show "sc_pick_next default_sched_class k = Some (None, k)" by (simp add: RR_pick_next_queue)
next
  fix k A
  assume "RR_ready k A" "A \<noteq> {}"
  then obtain q where q: "rr_queue k q" "set q = A" by (auto simp: RR_ready_def)
  with \<open>A \<noteq> {}\<close> obtain p q' where pq: "q = p # q'" by (cases q) auto
  with q RR_dequeue_queue [of k "[]" p q']
  obtain k' where k': "RR_dequeue p k = Some k'" "rr_queue k' q'" "policy_frame k k'" by auto
  have "distinct q" using q(1) by (rule rr_queue_distinct)
  then have "set q' = A - {p}" using q(2) pq by auto
  then show "\<exists>p k' k''. sc_pick_next default_sched_class k = Some (Some p, k') \<and>
      sc_dequeue default_sched_class p k' = Some k'' \<and> p \<in> A \<and> True \<and> RR_ready k'' (A - {p}) \<and> True \<and> policy_frame k k''"
    using k' RR_pick_next_queue [OF q(1)] pq q(2) by (auto simp: RR_ready_def)
qed

subsection \<open>Order of service under round robin\<close>

text \<open>One step of a system that runs the round robin class: a call of \<^verbatim>\<open>schedule\<close> (flag \<open>True\<close>), a
  call of \<^verbatim>\<open>wakeup_proc\<close>, a tick, or anything the running process does that neither touches the
  run queue nor switches processes (it may put itself to sleep).\<close>

inductive rr_step :: "bool \<Rightarrow> kernel \<Rightarrow> kernel \<Rightarrow> bool" where
  switch: "schedule default_sched_class k = Some k' \<Longrightarrow> rr_step True k k'"
| wake: "wakeup_proc default_sched_class p k = Some k' \<Longrightarrow> rr_step False k k'"
| tick: "rr_step False k (sched_class_proc_tick default_sched_class (current k) k)"
| internal: "unseen k k' \<Longrightarrow> current k' = current k \<Longrightarrow> idleproc k' = idleproc k \<Longrightarrow> rr_step False k k'"

text \<open>\<open>rr_steps n k k'\<close>: some steps lead from \<open>k\<close> to \<open>k'\<close>, \<open>n\<close> of them calls of \<^verbatim>\<open>schedule\<close>.\<close>

inductive rr_steps :: "nat \<Rightarrow> kernel \<Rightarrow> kernel \<Rightarrow> bool" where
  rr_none: "rr_steps 0 k k"
| rr_more: "rr_steps n k k' \<Longrightarrow> rr_step b k' k'' \<Longrightarrow> rr_steps (n + (if b then 1 else 0)) k k''"

inductive_cases rr_stepE: "rr_step b k k'"

lemma RR_enqueue_Some:
  assumes "rr_queue k q" "RR_enqueue p k = Some k'"
  shows "rr_queue k' (q @ [p])" "policy_frame k k'"
proof -
  have "p \<notin> set q"
    using assms dll_member_not_empty [of "links k" RunList "map RunLink q" "RunLink p"]
    by (auto simp: rr_queue_def RR_enqueue_def)
  from RR_enqueue_queue [OF assms(1) this] assms(2) show "rr_queue k' (q @ [p])" "policy_frame k k'" by auto
qed

lemma RR_schedule_queue:
  assumes "rr_queue k q" "schedule default_sched_class k = Some k'"
  defines "q' \<equiv> q @ (if state (procs k (current k)) = PROC_RUNNABLE \<and> current k \<noteq> idleproc k then [current k] else [])"
  shows "rr_queue k' (tl q')" "current k' = (case q' of [] \<Rightarrow> idleproc k | p # _ \<Rightarrow> p)" "idleproc k' = idleproc k"
    "runs (procs k' (current k')) = runs (procs k (current k')) + (if current k' = current k then 1 else 2)"
proof -
  let ?k0 = "upd_proc (current k) (\<lambda>x. x\<lparr>need_resched := False\<rparr>) k"
  have r0: "rr_queue ?k0 q" by (rule rr_queue_unseen [OF assms(1)]) (simp add: unseen_def)
  let ?m = "if state (procs ?k0 (current ?k0)) = PROC_RUNNABLE
    then sched_class_enqueue default_sched_class (current ?k0) ?k0 else Some ?k0"
  have sch: "schedule default_sched_class k = ?m \<bind> (\<lambda>k. RR_pick_next k \<bind> (\<lambda>(nxt, k).
      (case nxt of Some p \<Rightarrow> RR_dequeue p k | None \<Rightarrow> Some k) \<bind> (\<lambda>k.
      let p = (case nxt of Some p \<Rightarrow> p | None \<Rightarrow> idleproc k);
          k = upd_proc p (\<lambda>x. x\<lparr>runs := runs x + 1\<rparr>) k
      in Some (if p \<noteq> current k then proc_run p k else k))))"
    by (simp only: schedule_def sched_class_pick_next_def sched_class_dequeue_def default_sched_class_simps Let_def)
  then obtain k1 where k1: "?m = Some k1" using assms(2) by (cases ?m) (simp_all del: upd_proc_sel)
  have q1: "rr_queue k1 q' \<and> policy_frame ?k0 k1"
  proof (cases "state (procs k (current k)) = PROC_RUNNABLE \<and> current k \<noteq> idleproc k")
    case True
    then have "RR_enqueue (current k) ?k0 = Some k1" using k1 by (simp add: sched_class_enqueue_def)
    then show ?thesis using RR_enqueue_Some [OF r0] True by (simp add: q'_def)
  next
    case False
    then have "k1 = ?k0" using k1 by (auto simp: sched_class_enqueue_def split: if_splits)
    moreover have "q' = q" using False by (simp add: q'_def)
    ultimately show ?thesis using r0 by simp
  qed
  then have q1: "rr_queue k1 q'" "policy_frame ?k0 k1" by simp_all
  note f1 = policy_frameD [OF q1(2)]
  obtain k2 where k2: "(case q' of [] \<Rightarrow> Some k1 | p # _ \<Rightarrow> RR_dequeue p k1) = Some k2" "rr_queue k2 (tl q')" "policy_frame k1 k2"
  proof (cases q')
    case Nil
    then show ?thesis using that [of k1] q1(1) by simp
  next
    case (Cons p vs)
    then obtain k2 where "RR_dequeue p k1 = Some k2" "rr_queue k2 vs" "policy_frame k1 k2"
      using q1(1) RR_dequeue_queue [of k1 "[]" p vs] by auto
    then show ?thesis using that [of k2] Cons by simp
  qed
  note f2 = policy_frameD [OF k2(3)]
  define p where "p = (case q' of [] \<Rightarrow> idleproc k | p # _ \<Rightarrow> p)"
  let ?k3 = "upd_proc p (\<lambda>x. x\<lparr>runs := runs x + 1\<rparr>) k2"
  have k': "k' = (if p \<noteq> current k2 then proc_run p ?k3 else ?k3)"
  proof (cases q')
    case Nil
    then have [simp]: "k1 = k2" and p: "p = idleproc k2" using k2(1) f1(7) by (simp_all add: p_def)
    have "RR_pick_next k2 = Some (None, k2)" using RR_pick_next_queue [OF q1(1)] Nil by simp
    then show ?thesis using assms(2) unfolding sch k1 p by (auto simp: Let_def split: if_splits)
  next
    case (Cons r vs)
    then have "RR_pick_next k1 = Some (Some r, k1)" "RR_dequeue r k1 = Some k2" and p: "p = r"
      using RR_pick_next_queue [OF q1(1)] k2(1) by (simp_all add: p_def)
    then show ?thesis using assms(2) unfolding sch k1 p by (auto simp: Let_def split: if_splits)
  qed
  have "unseen k2 k'" by (auto simp: k' unseen_def proc_run_def)
  then show "rr_queue k' (tl q')" using k2(2) by (rule rr_queue_unseen [rotated])
  show "current k' = (case q' of [] \<Rightarrow> idleproc k | p # _ \<Rightarrow> p)" "idleproc k' = idleproc k"
    "runs (procs k' (current k')) = runs (procs k (current k')) + (if current k' = current k then 1 else 2)"
    unfolding p_def [symmetric] using f1(2,6,7) f2(2,6,7) by (simp_all add: k' proc_run_def)
qed

lemma RR_wakeup_queue:
  assumes "rr_queue k q" "wakeup_proc default_sched_class p k = Some k'"
  shows "\<exists>es. rr_queue k' (q @ es)"
proof -
  let ?k = "upd_proc p (\<lambda>x. x\<lparr>state := PROC_RUNNABLE, wait_state := 0\<rparr>) k"
  have "rr_queue ?k q" by (rule rr_queue_unseen [OF assms(1)]) (simp add: unseen_def)
  note enq = RR_enqueue_Some(1) [OF this, of p k']
  consider "state (procs k p) = PROC_RUNNABLE" | "state (procs k p) \<noteq> PROC_RUNNABLE" "p \<noteq> current k" "p \<noteq> idleproc k"
    | "state (procs k p) \<noteq> PROC_RUNNABLE" "p = current k \<or> p = idleproc k" by blast
  then show ?thesis
  proof cases
    case 1
    then have "k' = k" using assms(2) by (simp add: wakeup_proc_def)
    then show ?thesis using assms(1) by (auto intro: exI [of _ "[]"])
  next
    case 2
    then have "RR_enqueue p ?k = Some k'" using assms(2) by (simp add: wakeup_proc_def sched_class_enqueue_def Let_def)
    then show ?thesis using enq by blast
  next
    case 3
    then have "k' = ?k" using assms(2) by (auto simp: wakeup_proc_def sched_class_enqueue_def Let_def split: if_splits)
    then show ?thesis using \<open>rr_queue ?k q\<close> by (auto intro: exI [of _ "[]"])
  qed
qed

lemma unseen_tick: "unseen k (sched_class_proc_tick default_sched_class p k)"
  by (auto simp: unseen_def sched_class_proc_tick_def RR_proc_tick_def Let_def)

lemma rr_step_queue:
  assumes "rr_step b k k'" "rr_queue k q"
  shows "\<exists>es. rr_queue k' (if b then tl (q @ es) else q @ es) \<and>
    (b \<longrightarrow> current k' = (case q @ es of [] \<Rightarrow> idleproc k | p # _ \<Rightarrow> p))"
  using assms(1)
proof cases
  case switch
  show ?thesis using RR_schedule_queue(1,2) [OF assms(2) switch(2)] switch(1) by auto
next
  case (wake p)
  then show ?thesis using RR_wakeup_queue [OF assms(2)] by auto
next
  case tick
  then show ?thesis using rr_queue_unseen [OF assms(2) unseen_tick] by (auto intro: exI [of _ "[]"])
next
  case internal
  then show ?thesis using rr_queue_unseen [OF assms(2)] by (auto intro: exI [of _ "[]"])
qed

lemma rr_steps_queue:
  "rr_steps n k k' \<Longrightarrow> rr_queue k q \<Longrightarrow> n \<le> length q \<Longrightarrow> \<exists>es. rr_queue k' (drop n q @ es)"
proof (induction rule: rr_steps.induct)
  case (rr_none k)
  then show ?case by (auto intro: exI [of _ "[]"])
next
  case (rr_more n k k' b k'')
  then obtain es where "rr_queue k' (drop n q @ es)" by (cases b) auto
  from rr_step_queue [OF rr_more(2) this] obtain fs where
    "rr_queue k'' (if b then tl ((drop n q @ es) @ fs) else (drop n q @ es) @ fs)" by blast
  moreover have "tl ((drop n q @ es) @ fs) = drop (n + 1) q @ es @ fs" if b
    using rr_more.prems(2) that by (cases "drop n q") (auto simp: drop_Suc drop_tl [symmetric] tl_drop dest: arg_cong [where f = tl])
  ultimately show ?case by (cases b) auto
qed

subsection \<open>Time slices\<close>

lemma RR_tick_slice:
  assumes "0 \<le> time_slice (procs k p)"
  shows "time_slice (procs ((RR_proc_tick p ^^ n) k) p) = max 0 (time_slice (procs k p) - int n) \<and>
    (0 < n \<longrightarrow> time_slice (procs k p) \<le> int n \<longrightarrow> need_resched (procs ((RR_proc_tick p ^^ n) k) p))"
proof (induction n)
  case (Suc n)
  then show ?case using assms by (auto simp: RR_proc_tick_def Let_def)
qed (use assms in simp)

subsection \<open>A booted system\<close>

text \<open>After \<^verbatim>\<open>sched_init\<close>, with the idle process (number 0) running and nothing else runnable.\<close>

definition boot_kernel :: kernel where
  "boot_kernel = sched_init default_sched_class
     \<lparr>procs = (\<lambda>p. \<lparr>state = (if p = 0 then PROC_RUNNABLE else PROC_SLEEPING), pid = int p, runs = 0, kstack = 0,
        need_resched = False, parent = None, mm = None, pgdir = 0, pflags = 0, pname = [], exit_code = 0,
        wait_state = 0, cptr = None, yptr = None, optr = None, rq = False, time_slice = 0, lab6_stride = 0,
        lab6_priority = 1, filesp = None\<rparr>),
      links = \<lparr>lprev = id, lnext = id\<rparr>,
      pool = \<lparr>sparent = (\<lambda>_. None), sleft = (\<lambda>_. None), sright = (\<lambda>_. None)\<rparr>,
      proc_num = 0, max_time_slice = 0, lab6_run_pool = None, timers = (\<lambda>_. \<lparr>expires = 0, tproc = 0\<rparr>),
      waits = (\<lambda>_. \<lparr>wproc = 0, wakeup_flags = 0, wait_queue = 0\<rparr>), sem_value = (\<lambda>_. 0),
      current = 0, idleproc = 0, initproc = 1, satp = 0, nr_process = 1, last_pid = MAX_PID, next_safe = MAX_PID\<rparr>"

lemma boot_links: "links boot_kernel = \<lparr>lprev = id, lnext = id\<rparr>"
  by (auto simp: boot_kernel_def sched_init_def RR_init_def upd_klinks_def list_init_def set_next_def
      set_prev_def fun_eq_iff)

lemma boot_sel:
  "current boot_kernel = 0" "idleproc boot_kernel = 0" "proc_num boot_kernel = 0" "max_time_slice boot_kernel = 5"
  "state (procs boot_kernel p) = (if p = 0 then PROC_RUNNABLE else PROC_SLEEPING)"
  "time_slice (procs boot_kernel p) = 0"
  by (simp_all add: boot_kernel_def sched_init_def RR_init_def)

lemma boot_queue: "rr_queue boot_kernel []"
  by (simp add: rr_queue_def boot_links boot_sel dll_def detached_def)

lemma boot_inv: "sched_inv RR_ready boot_kernel"
  using boot_queue by (auto simp: sched_inv_def RR_ready_def waiting_to_run_def boot_sel)

lemma boot_wakeup: "\<exists>k. wakeup_proc default_sched_class 3 boot_kernel = Some k \<and> rr_queue k [3] \<and>
    sched_inv RR_ready k \<and> current k = 0 \<and> idleproc k = 0"
proof -
  let ?k = "upd_proc 3 (\<lambda>x. x\<lparr>state := PROC_RUNNABLE, wait_state := 0\<rparr>) boot_kernel"
  obtain k where k: "wakeup_proc default_sched_class 3 boot_kernel = Some k" "sched_inv RR_ready k"
    "current k = 0" using RR.wakeup_ok [OF boot_inv, of 3] by (auto simp: boot_sel wakeup_frame_def)
  have *: "RR_enqueue 3 ?k = Some k"
    using k(1) by (simp add: wakeup_proc_def boot_sel sched_class_enqueue_def Let_def)
  have "rr_queue ?k []" by (rule rr_queue_unseen [OF boot_queue]) (simp add: unseen_def)
  from RR_enqueue_Some [OF this *] k show ?thesis
    by (auto dest: policy_frameD(7) simp: boot_sel)
qed

subsection \<open>Properties\<close>

text \<open>C9: no runnable process is lost by \<^verbatim>\<open>schedule\<close>. If the run queue holds exactly the runnable
  processes other than the running and the idle one, then \<^verbatim>\<open>schedule\<close> with the round robin class
  returns, the same holds afterwards, no process changes its state, and the new current process
  is one of the runnable processes; it is the idle process only if no other is runnable.\<close>

theorem RR_schedule_correct:
  assumes "sched_inv RR_ready k"
  shows "\<exists>k'. schedule default_sched_class k = Some k' \<and> sched_inv RR_ready k' \<and> idleproc k' = idleproc k \<and>
    (\<forall>p. state (procs k' p) = state (procs k p)) \<and>
    (if contenders k = {} then current k' = idleproc k else current k' \<in> contenders k)"
  using RR.schedule_ok [OF assms] by (auto simp: schedule_frame_def split: if_splits)

theorem RR_schedule_correct_witness:
  "\<exists>k'. schedule default_sched_class boot_kernel = Some k' \<and> sched_inv RR_ready k' \<and> idleproc k' = idleproc boot_kernel \<and>
    (\<forall>p. state (procs k' p) = state (procs boot_kernel p)) \<and>
    (if contenders boot_kernel = {} then current k' = idleproc boot_kernel else current k' \<in> contenders boot_kernel)"
  by (rule RR_schedule_correct [OF boot_inv])

text \<open>C33: waking a process up. For a process that is no zombie \<^verbatim>\<open>wakeup_proc\<close> returns, leaves it
  runnable, does not switch processes and keeps the invariant of the run queue.\<close>

theorem RR_wakeup_correct:
  assumes "sched_inv RR_ready k" "state (procs k p) \<noteq> PROC_ZOMBIE"
  shows "\<exists>k'. wakeup_proc default_sched_class p k = Some k' \<and> sched_inv RR_ready k' \<and>
    state (procs k' p) = PROC_RUNNABLE \<and> current k' = current k"
  using RR.wakeup_ok [OF assms] by (auto simp: wakeup_frame_def)

theorem RR_wakeup_correct_witness:
  "\<exists>k'. wakeup_proc default_sched_class 3 boot_kernel = Some k' \<and> sched_inv RR_ready k' \<and>
    state (procs k' 3) = PROC_RUNNABLE \<and> current k' = current boot_kernel"
  by (rule RR_wakeup_correct [OF boot_inv]) (simp add: boot_sel)

text \<open>C32: round robin does not starve. If process \<open>p\<close> is at position \<open>i\<close> of the run queue, then
  whatever wakeups, ticks and actions of running processes come in between, the \<open>i + 1\<close>-st call
  of \<^verbatim>\<open>schedule\<close> from now on switches to \<open>p\<close>.\<close>

theorem RR_bounded_wait:
  assumes "rr_queue k q" "i < length q" "rr_steps i k k'" "rr_step True k' k''"
  shows "current k'' = q ! i"
proof -
  obtain es where "rr_queue k' (drop i q @ es)" using rr_steps_queue [OF assms(3,1)] assms(2) by auto
  from rr_step_queue [OF assms(4) this] obtain fs where
    "current k'' = (case (drop i q @ es) @ fs of [] \<Rightarrow> idleproc k' | p # _ \<Rightarrow> p)" by auto
  then show ?thesis using Cons_nth_drop_Suc [OF assms(2), symmetric] by simp
qed

theorem RR_bounded_wait_witness:
  "\<exists>k k''. wakeup_proc default_sched_class 3 boot_kernel = Some k \<and> rr_step True k k'' \<and> current k'' = [3] ! 0"
proof -
  obtain k where k: "wakeup_proc default_sched_class 3 boot_kernel = Some k" "rr_queue k [3]" "sched_inv RR_ready k"
    using boot_wakeup by blast
  obtain k'' where "schedule default_sched_class k = Some k''" using RR.schedule_ok [OF k(3)] by auto
  then have "rr_step True k k''" by (rule rr_step.switch)
  with k RR_bounded_wait [OF k(2) _ rr_steps.rr_none this] show ?thesis by auto
qed

text \<open>C34: a time slice bounds the ticks. A process that is put into the run queue has a time slice
  between 1 and \<^verbatim>\<open>max_time_slice\<close>, and after \<^verbatim>\<open>max_time_slice\<close> ticks of \<^verbatim>\<open>RR_proc_tick\<close> at the latest
  it is marked for rescheduling.\<close>

theorem RR_slice_bounds_ticks:
  assumes "rr_queue k q" "p \<notin> set q" "0 < max_time_slice k" "0 \<le> time_slice (procs k p)"
  shows "\<exists>k'. RR_enqueue p k = Some k' \<and> 1 \<le> time_slice (procs k' p) \<and>
    time_slice (procs k' p) \<le> max_time_slice k \<and>
    need_resched (procs ((RR_proc_tick p ^^ nat (max_time_slice k)) k') p)"
proof -
  obtain k' where k': "RR_enqueue p k = Some k'" "time_slice (procs k' p) =
      (if time_slice (procs k p) = 0 \<or> max_time_slice k < time_slice (procs k p)
       then max_time_slice k else time_slice (procs k p))"
    using RR_enqueue_queue [OF assms(1,2)] by auto
  then have "1 \<le> time_slice (procs k' p)" "time_slice (procs k' p) \<le> max_time_slice k" using assms(3,4) by auto
  with RR_tick_slice [of k' p "nat (max_time_slice k)"] k'(1) assms(3) show ?thesis by auto
qed

theorem RR_slice_bounds_ticks_witness:
  "\<exists>k'. RR_enqueue 3 boot_kernel = Some k' \<and> 1 \<le> time_slice (procs k' 3) \<and>
    time_slice (procs k' 3) \<le> max_time_slice boot_kernel \<and>
    need_resched (procs ((RR_proc_tick 3 ^^ nat (max_time_slice boot_kernel)) k') 3)"
  by (rule RR_slice_bounds_ticks [OF boot_queue]) (simp_all add: boot_sel)

text \<open>The counter of runs counts a switch twice. \<^verbatim>\<open>schedule\<close> increments \<^verbatim>\<open>next->runs\<close> and so does
  \<^verbatim>\<open>proc_run\<close>: when \<^verbatim>\<open>schedule\<close> switches to another process its counter grows by two, by one when
  the current process stays.\<close>

theorem RR_runs_counted_twice:
  assumes "rr_queue k q" "schedule default_sched_class k = Some k'"
  shows "runs (procs k' (current k')) =
    runs (procs k (current k')) + (if current k' = current k then 1 else 2)"
  using RR_schedule_queue(4) [OF assms] .

theorem RR_runs_counted_twice_witness:
  "\<exists>k k'. wakeup_proc default_sched_class 3 boot_kernel = Some k \<and>
    schedule default_sched_class k = Some k' \<and> current k' = 3 \<and> runs (procs k' 3) = runs (procs k 3) + 2"
proof -
  obtain k where k: "wakeup_proc default_sched_class 3 boot_kernel = Some k" "rr_queue k [3]" "sched_inv RR_ready k"
    "current k = 0" "idleproc k = 0" using boot_wakeup by blast
  obtain k' where k': "schedule default_sched_class k = Some k'" using RR.schedule_ok [OF k(3)] by auto
  have "current k' = 3" using RR_schedule_queue(2) [OF k(2) k'] k(4,5) by simp
  with RR_runs_counted_twice [OF k(2) k'] k k' show ?thesis by auto
qed

end
