(* ===== verification/Timers.thy ===== *)
theory Timers
  imports Sched
begin

unbundle bit_operations_syntax

section \<open>Timers (schedule/sched.c, do\_sleep of process/proc.c)\<close>

text \<open>
  The timer list holds differences: \<^verbatim>\<open>expires\<close> of an entry counts from the expiry of the entry
  before it. \<open>timer_rep k ts\<close> relates it to the list \<open>ts\<close> of pairs of a timer and the number of
  ticks until it expires. The refinement lemmas show that \<^verbatim>\<open>add_timer\<close> inserts in order,
  \<^verbatim>\<open>del_timer\<close> removes without moving the others in time, and one \<^verbatim>\<open>run_timer_list\<close> brings
  every timer one tick nearer and wakes exactly the processes whose time has come.
\<close>

subsection \<open>Operations\<close>

definition upd_timer :: "nat \<Rightarrow> (timer \<Rightarrow> timer) \<Rightarrow> kernel \<Rightarrow> kernel" where
  "upd_timer t f k = k\<lparr>timers := (timers k)(t := f (timers k t))\<rparr>"

definition timer_init :: "nat \<Rightarrow> nat \<Rightarrow> nat \<Rightarrow> kernel \<Rightarrow> kernel" where
  "timer_init t p e k =
     upd_klinks (list_init (TimerLink t)) (upd_timer t (\<lambda>_. \<lparr>expires = e mod 2 ^ 32, tproc = p\<rparr>) k)"

partial_function (option) add_timer_loop :: "nat \<Rightarrow> knode \<Rightarrow> kernel \<Rightarrow> (knode \<times> kernel) option" where
  "add_timer_loop t le k =
     (case le of
        TimerLink n \<Rightarrow>
          if expires (timers k t) < expires (timers k n)
          then Some (le, upd_timer n (\<lambda>x. x\<lparr>expires := expires x - expires (timers k t)\<rparr>) k)
          else let k' = upd_timer t (\<lambda>x. x\<lparr>expires := expires x - expires (timers k n)\<rparr>) k
               in add_timer_loop t (list_next le (links k')) k'
      | TimerList \<Rightarrow> Some (le, k)
      | _ \<Rightarrow> None)"

definition add_timer :: "nat \<Rightarrow> kernel \<Rightarrow> kernel option" where
  "add_timer t k = do {
     massert (0 < expires (timers k t));
     massert (list_empty (TimerLink t) (links k));
     (le, k) \<leftarrow> add_timer_loop t (list_next TimerList (links k)) k;
     Some (upd_klinks (list_add_before le (TimerLink t)) k)
   }"

definition del_timer :: "nat \<Rightarrow> kernel \<Rightarrow> kernel" where
  "del_timer t k =
     (if \<not> list_empty (TimerLink t) (links k) then
        let k = (if expires (timers k t) \<noteq> 0 then
                   (case list_next (TimerLink t) (links k) of
                      TimerLink n \<Rightarrow>
                        upd_timer n (\<lambda>x. x\<lparr>expires := (expires x + expires (timers k t)) mod 2 ^ 32\<rparr>) k
                    | _ \<Rightarrow> k)
                 else k)
        in upd_klinks (list_del_init (TimerLink t)) k
      else k)"

partial_function (option) expire_loop :: "sched_class \<Rightarrow> nat \<Rightarrow> kernel \<Rightarrow> kernel option" where
  "expire_loop sc t k =
     (if expires (timers k t) = 0 then do {
        let le = list_next (TimerLink t) (links k);
        let p = tproc (timers k t);
        massert (wait_state (procs k p) = 0 \<or> wait_state (procs k p) AND WT_INTERRUPTED \<noteq> 0);
        k \<leftarrow> wakeup_proc sc p k;
        let k = del_timer t k;
        (case le of TimerLink n \<Rightarrow> expire_loop sc n k | TimerList \<Rightarrow> Some k | _ \<Rightarrow> None)
      } else Some k)"

definition run_timer_list :: "sched_class \<Rightarrow> kernel \<Rightarrow> kernel option" where
  "run_timer_list sc k = do {
     k \<leftarrow> (case list_next TimerList (links k) of
             TimerLink t \<Rightarrow> do {
               massert (expires (timers k t) \<noteq> 0);
               expire_loop sc t (upd_timer t (\<lambda>x. x\<lparr>expires := expires x - 1\<rparr>) k)
             }
           | TimerList \<Rightarrow> Some k
           | _ \<Rightarrow> None);
     Some (sched_class_proc_tick sc (current k) k)
   }"

text \<open>\<^verbatim>\<open>do_sleep\<close> up to its call of \<^verbatim>\<open>schedule\<close>, and what it does when it runs again; \<open>t\<close> is the
  address of the timer on its stack.\<close>

definition do_sleep :: "sched_class \<Rightarrow> nat \<Rightarrow> nat \<Rightarrow> kernel \<Rightarrow> kernel option" where
  "do_sleep sc t time k =
     (if time = 0 then Some k
      else do {
        let k = timer_init t (current k) time k;
        let k = upd_proc (current k) (\<lambda>x. x\<lparr>state := PROC_SLEEPING, wait_state := WT_TIMER\<rparr>) k;
        k \<leftarrow> add_timer t k;
        schedule sc k
      })"

definition do_sleep_resume :: "nat \<Rightarrow> kernel \<Rightarrow> kernel" where
  "do_sleep_resume t k = del_timer t k"

declare add_timer_loop.simps [code] expire_loop.simps [code]

lemma upd_timer_sel [simp]:
  "timers (upd_timer t f k) = (timers k)(t := f (timers k t))" "links (upd_timer t f k) = links k"
  "procs (upd_timer t f k) = procs k" "current (upd_timer t f k) = current k"
  "idleproc (upd_timer t f k) = idleproc k"
  by (simp_all add: upd_timer_def)

subsection \<open>Absolute times\<close>

fun deltas :: "nat \<Rightarrow> nat list \<Rightarrow> nat list" where
  "deltas b [] = []"
| "deltas b (a # as) = (a - b) # deltas a as"

definition timer_rep :: "kernel \<Rightarrow> (nat \<times> nat) list \<Rightarrow> bool" where
  "timer_rep k ts \<longleftrightarrow>
     dll (links k) TimerList (map TimerLink (map fst ts)) \<and> sorted (map snd ts) \<and>
     (\<forall>x\<in>set ts. snd x < 2 ^ 32) \<and>
     map (\<lambda>x. expires (timers k (fst x))) ts = deltas 0 (map snd ts)"

abbreviation TimerLinks :: "(nat \<times> nat) list \<Rightarrow> knode list" where
  "TimerLinks ts \<equiv> map TimerLink (map fst ts)"

lemma timer_rep_distinct: "timer_rep k ts \<Longrightarrow> distinct (map fst ts)"
  using dll_distinct [of "links k" TimerList "TimerLinks ts"]
  by (auto simp: timer_rep_def distinct_map inj_on_def)

lemma deltas_append:
  "deltas b (as @ cs) = deltas b as @ deltas (last (b # as)) cs"
  by (induction as arbitrary: b) auto

lemma map_expires_upd:
  "t \<notin> fst ` set ts \<Longrightarrow>
    map (\<lambda>x. expires (((timers k)(t := v)) (fst x))) ts = map (\<lambda>x. expires (timers k (fst x))) ts"
  by (auto simp: image_iff)

subsection \<open>Adding a timer\<close>

lemma add_timer_loop_ok:
  assumes "dll (links k) TimerList (TimerLinks (us @ vs))" "t \<notin> fst ` set (us @ vs)" "distinct (map fst vs)"
    and "expires (timers k t) = e - b" "b \<le> e" "sorted (b # map snd vs)"
    and "map (\<lambda>x. expires (timers k (fst x))) vs = deltas b (map snd vs)"
  defines "as \<equiv> takeWhile (\<lambda>x. snd x \<le> e) vs" and "ds \<equiv> dropWhile (\<lambda>x. snd x \<le> e) vs"
  shows "\<exists>T. add_timer_loop t (hd (TimerLinks vs @ [TimerList])) k =
      Some (hd (TimerLinks ds @ [TimerList]), k\<lparr>timers := T\<rparr>) \<and>
    expires (T t) = e - last (b # map snd as) \<and> map (\<lambda>x. expires (T (fst x))) as = deltas b (map snd as) \<and>
    map (\<lambda>x. expires (T (fst x))) ds = deltas e (map snd ds) \<and>
    (\<forall>x. x \<notin> insert t (fst ` set vs) \<longrightarrow> T x = timers k x) \<and> (\<forall>x. tproc (T x) = tproc (timers k x))"
  using assms(1-7) unfolding as_def ds_def
proof (induction vs arbitrary: us b k)
  case Nil
  have "k = k\<lparr>timers := timers k\<rparr>" by simp
  then have "add_timer_loop t TimerList k = Some (TimerList, k\<lparr>timers := timers k\<rparr>)"
    by (subst add_timer_loop.simps) simp
  then show ?case using Nil by (auto intro!: exI [of _ "timers k"])
next
  case (Cons v vs)
  obtain n a where v: "v = (n, a)" by fastforce
  have n: "expires (timers k n) = a - b" "b \<le> a" "n \<noteq> t" "n \<notin> fst ` set vs" "sorted (a # map snd vs)"
    using Cons.prems(2,3,6,7) by (auto simp: v)
  show ?case
  proof (cases "e < a")
    case True
    let ?T = "(timers k)(n := (timers k n)\<lparr>expires := expires (timers k n) - expires (timers k t)\<rparr>)"
    have "add_timer_loop t (TimerLink n) k = Some (TimerLink n, k\<lparr>timers := ?T\<rparr>)"
      using n True Cons.prems(4,5) by (subst add_timer_loop.simps) (simp add: upd_timer_def diff_less_mono)
    moreover have "map (\<lambda>x. expires (?T (fst x))) vs = map (\<lambda>x. expires (timers k (fst x))) vs"
      by (rule map_expires_upd [OF n(4)])
    moreover have "map (\<lambda>x. expires (timers k (fst x))) vs = deltas a (map snd vs)"
      using Cons.prems(7) by (simp add: v)
    ultimately show ?thesis
      using n True Cons.prems(4,5) by (intro exI [of _ ?T]) (auto simp: v fun_upd_def)
  next
    case False
    let ?T = "(timers k)(t := (timers k t)\<lparr>expires := expires (timers k t) - expires (timers k n)\<rparr>)"
    let ?k = "k\<lparr>timers := ?T\<rparr>"
    have nxt: "list_next (TimerLink n) (links k) = hd (TimerLinks vs @ [TimerList])"
      using dll_next [of "links k" TimerList "TimerLinks us" "TimerLink n" "TimerLinks vs"] Cons.prems(1)
      by (cases vs) (auto simp: v list_next_def)
    have step: "add_timer_loop t (TimerLink n) k = add_timer_loop t (hd (TimerLinks vs @ [TimerList])) ?k"
    proof -
      have "\<not> expires (timers k t) < expires (timers k n)" using n(1,2) False Cons.prems(4,5) by simp
      then show ?thesis using nxt by (subst add_timer_loop.simps) (simp add: upd_timer_def Let_def)
    qed
    have "map (\<lambda>x. expires (?T (fst x))) vs = deltas a (map snd vs)"
      by (rule trans [OF map_expires_upd]) (use Cons.prems(2,7) in \<open>auto simp: v\<close>)
    then have "map (\<lambda>x. expires (timers ?k (fst x))) vs = deltas a (map snd vs)" by simp
    moreover have "dll (links ?k) TimerList (TimerLinks ((us @ [v]) @ vs))" "t \<notin> fst ` set ((us @ [v]) @ vs)"
      "distinct (map fst vs)" "expires (timers ?k t) = e - a" "a \<le> e"
      using Cons.prems n False by (auto simp: v)
    ultimately obtain T where "add_timer_loop t (hd (TimerLinks vs @ [TimerList])) ?k =
        Some (hd (TimerLinks (dropWhile (\<lambda>x. snd x \<le> e) vs) @ [TimerList]), ?k\<lparr>timers := T\<rparr>)"
      "expires (T t) = e - last (a # map snd (takeWhile (\<lambda>x. snd x \<le> e) vs))"
      "map (\<lambda>x. expires (T (fst x))) (takeWhile (\<lambda>x. snd x \<le> e) vs) = deltas a (map snd (takeWhile (\<lambda>x. snd x \<le> e) vs))"
      "map (\<lambda>x. expires (T (fst x))) (dropWhile (\<lambda>x. snd x \<le> e) vs) = deltas e (map snd (dropWhile (\<lambda>x. snd x \<le> e) vs))"
      "\<forall>x. x \<notin> insert t (fst ` set vs) \<longrightarrow> T x = timers ?k x" "\<forall>x. tproc (T x) = tproc (timers ?k x)"
      using Cons.IH [of ?k "us @ [v]" a] n(5) by blast
    then show ?thesis using step n False by (auto simp: v intro!: exI [of _ T])
  qed
qed

lemma add_timer_rep:
  assumes "timer_rep k ts" "t \<notin> fst ` set ts" "list_empty (TimerLink t) (links k)"
    and e: "expires (timers k t) = e" "0 < e" "e < 2 ^ 32"
  shows "\<exists>k'. add_timer t k = Some k' \<and>
    timer_rep k' (takeWhile (\<lambda>x. snd x \<le> e) ts @ (t, e) # dropWhile (\<lambda>x. snd x \<le> e) ts) \<and>
    procs k' = procs k \<and> current k' = current k \<and> (\<forall>x. tproc (timers k' x) = tproc (timers k x))"
proof -
  let ?as = "takeWhile (\<lambda>x. snd x \<le> e) ts" and ?ds = "dropWhile (\<lambda>x. snd x \<le> e) ts"
  have ts: "ts = ?as @ ?ds" by simp
  have ring: "dll (links k) TimerList (TimerLinks ts)" using assms(1) by (simp add: timer_rep_def)
  have hd: "list_next TimerList (links k) = hd (TimerLinks ts @ [TimerList])"
    using dll_next_head [OF ring] by (cases ts) (auto simp: list_next_def)
  from add_timer_loop_ok [of k "[]" ts t e 0] assms timer_rep_distinct [OF assms(1)] obtain T where
    T: "add_timer_loop t (hd (TimerLinks ts @ [TimerList])) k = Some (hd (TimerLinks ?ds @ [TimerList]), k\<lparr>timers := T\<rparr>)"
    "expires (T t) = e - last (0 # map snd ?as)" "map (\<lambda>x. expires (T (fst x))) ?as = deltas 0 (map snd ?as)"
    "map (\<lambda>x. expires (T (fst x))) ?ds = deltas e (map snd ?ds)" "\<forall>x. tproc (T x) = tproc (timers k x)"
    by (auto simp: timer_rep_def)
  let ?k' = "upd_klinks (list_add_before (hd (TimerLinks ?ds @ [TimerList])) (TimerLink t)) (k\<lparr>timers := T\<rparr>)"
  have add: "add_timer t k = Some ?k'"
    using T(1) hd assms(3) e by (simp add: add_timer_def)
  have "dll (links k) TimerList (TimerLinks ?as @ TimerLinks ?ds)"
    using ring by (simp flip: map_append)
  then have "dll (links ?k') TimerList (TimerLinks (?as @ (t, e) # ?ds))"
    using dll_add_before_seam [of "links k" TimerList "TimerLinks ?as" "TimerLinks ?ds" "TimerLink t"] assms(2)
    by (auto simp: image_iff dest: set_takeWhileD set_dropWhileD)
  moreover have "sorted (map snd (?as @ (t, e) # ?ds))"
  proof -
    have "sorted (map snd ?as @ map snd ?ds)" using assms(1) unfolding timer_rep_def by (metis ts map_append)
    moreover have "\<forall>x\<in>set ?as. snd x \<le> e" by (auto dest: set_takeWhileD)
    moreover have "\<forall>x\<in>set ?ds. e \<le> snd x"
    proof (cases ?ds)
      case (Cons d ds)
      then have "e < snd d" using hd_dropWhile [of "\<lambda>x. snd x \<le> e" ts] by auto
      then show ?thesis using calculation(1) unfolding Cons by (auto simp: sorted_append)
    next
      case Nil
      show ?thesis unfolding Nil by simp
    qed
    ultimately show ?thesis by (auto simp: sorted_append)
  qed
  moreover have "\<forall>x\<in>set (?as @ (t, e) # ?ds). snd x < 2 ^ 32"
    using assms(1) e unfolding timer_rep_def by (auto dest: set_takeWhileD set_dropWhileD)
  moreover have "map (\<lambda>x. expires (timers ?k' (fst x))) (?as @ (t, e) # ?ds) = deltas 0 (map snd (?as @ (t, e) # ?ds))"
    using T by (simp add: deltas_append)
  ultimately have "timer_rep ?k' (?as @ (t, e) # ?ds)" unfolding timer_rep_def by blast
  with add T(5) show ?thesis by auto
qed

subsection \<open>Removing a timer\<close>

lemma timer_rep_split:
  assumes "timer_rep k (us @ (t, e) # vs)"
  defines "b \<equiv> last (0 # map snd us)"
  shows "expires (timers k t) = e - b" "b \<le> e"
    "map (\<lambda>x. expires (timers k (fst x))) us = deltas 0 (map snd us)"
    "map (\<lambda>x. expires (timers k (fst x))) vs = deltas e (map snd vs)"
    "t \<notin> fst ` set us" "t \<notin> fst ` set vs"
proof -
  have "map (\<lambda>x. expires (timers k (fst x))) us @ map (\<lambda>x. expires (timers k (fst x))) ((t, e) # vs) =
      deltas 0 (map snd us) @ deltas b (e # map snd vs)"
    using assms(1) by (simp add: timer_rep_def deltas_append b_def)
  moreover have "length (deltas b as) = length as" for b as by (induction as arbitrary: b) auto
  ultimately have "map (\<lambda>x. expires (timers k (fst x))) us = deltas 0 (map snd us) \<and>
      map (\<lambda>x. expires (timers k (fst x))) ((t, e) # vs) = deltas b (e # map snd vs)"
    by (subst (asm) append_eq_append_conv) auto
  then show "expires (timers k t) = e - b" "map (\<lambda>x. expires (timers k (fst x))) us = deltas 0 (map snd us)"
    "map (\<lambda>x. expires (timers k (fst x))) vs = deltas e (map snd vs)" by simp_all
  show "b \<le> e" using assms(1) unfolding b_def timer_rep_def
    by (cases us rule: rev_cases) (auto simp: sorted_append)
  show "t \<notin> fst ` set us" "t \<notin> fst ` set vs" using timer_rep_distinct [OF assms(1)] by auto
qed

lemma del_timer_rep:
  assumes "timer_rep k (us @ (t, e) # vs)"
  shows "timer_rep (del_timer t k) (us @ vs)" "procs (del_timer t k) = procs k"
    "current (del_timer t k) = current k" "idleproc (del_timer t k) = idleproc k"
    "detached (links (del_timer t k)) (TimerLink t)"
    "\<forall>x. tproc (timers (del_timer t k) x) = tproc (timers k x)"
proof -
  let ?b = "last (0 # map snd us)"
  note sp = timer_rep_split [OF assms]
  have ring: "dll (links k) TimerList (TimerLinks us @ TimerLink t # TimerLinks vs)"
    using assms by (simp add: timer_rep_def)
  have ne: "\<not> list_empty (TimerLink t) (links k)" by (rule dll_member_not_empty [OF ring]) simp
  have nxt: "list_next (TimerLink t) (links k) = hd (TimerLinks vs @ [TimerList])"
    using dll_next [OF ring] by (cases vs) (auto simp: list_next_def)
  have so: "sorted (map snd (us @ vs))" "\<forall>x\<in>set (us @ vs). snd x < 2 ^ 32" "e < 2 ^ 32"
    using assms by (auto simp: timer_rep_def sorted_append)
  define T where "T = (if e = ?b then timers k else case vs of [] \<Rightarrow> timers k
    | v # _ \<Rightarrow> (timers k)(fst v := (timers k (fst v))\<lparr>expires := (expires (timers k (fst v)) + (e - ?b)) mod 2 ^ 32\<rparr>))"
  have del: "del_timer t k = upd_klinks (list_del_init (TimerLink t)) (k\<lparr>timers := T\<rparr>)"
    using ne sp(1,2) nxt by (cases vs) (auto simp: del_timer_def T_def Let_def upd_timer_def)
  have d: "distinct (map fst (us @ vs))" using timer_rep_distinct [OF assms] by auto
  have "map (\<lambda>x. expires (T (fst x))) us = map (\<lambda>x. expires (timers k (fst x))) us"
    using d by (auto simp: T_def split: list.splits)
  moreover have "map (\<lambda>x. expires (T (fst x))) vs = deltas ?b (map snd vs)"
  proof (cases vs)
    case (Cons v vs')
    have v: "expires (timers k (fst v)) = snd v - e" "e \<le> snd v" "snd v < 2 ^ 32"
      "map (\<lambda>x. expires (timers k (fst x))) vs' = deltas (snd v) (map snd vs')"
      using sp(4) assms by (auto simp: Cons timer_rep_def sorted_append)
    have "map (\<lambda>x. expires (T (fst x))) vs' = map (\<lambda>x. expires (timers k (fst x))) vs'"
      using d by (auto simp: T_def Cons image_iff)
    moreover have "expires (T (fst v)) = snd v - ?b" using v sp(2) by (auto simp: T_def Cons)
    ultimately show ?thesis using v(4) by (simp add: Cons)
  qed simp
  moreover have "dll (links (del_timer t k)) TimerList (TimerLinks (us @ vs))"
    using dll_del_init [OF ring] by (simp add: del)
  ultimately show "timer_rep (del_timer t k) (us @ vs)"
    using so sp(3) by (simp add: timer_rep_def del deltas_append)
  show "procs (del_timer t k) = procs k" "current (del_timer t k) = current k" "idleproc (del_timer t k) = idleproc k"
    "detached (links (del_timer t k)) (TimerLink t)"
    "\<forall>x. tproc (timers (del_timer t k) x) = tproc (timers k x)"
    by (auto simp: del T_def split: list.splits)
qed

subsection \<open>Ticks\<close>

lemma timer_rep_cong:
  assumes "timer_rep k ts" "same_on {x. \<not> is_run_node x} (links k) (links k')" "timers k' = timers k"
  shows "timer_rep k' ts"
proof -
  have "same_on (set (TimerList # TimerLinks ts)) (links k) (links k')"
    using assms(2) by (rule same_on_mono) auto
  from dll_same_on [OF this] show ?thesis using assms(1,3) by (simp add: timer_rep_def)
qed

lemma del_timer_unseen:
  assumes "timer_rep k (us @ (t, e) # vs)"
  shows "unseen k (del_timer t k)"
proof -
  have ring: "dll (links k) TimerList (TimerLinks us @ TimerLink t # TimerLinks vs)"
    using assms by (simp add: timer_rep_def)
  have "same_on (- set (TimerList # TimerLinks us @ TimerLink t # TimerLinks vs)) (links k)
      (list_del_init (TimerLink t) (links k))" by (rule del_footprint(2) [OF ring]) simp
  then have "same_on {x. is_run_node x} (links k) (list_del_init (TimerLink t) (links k))"
    by (rule same_on_mono) auto
  then show ?thesis
    by (auto simp: unseen_def del_timer_def Let_def upd_timer_def split: knode.splits)
qed

text \<open>A process that waits for a timer can be woken up: it is no zombie and its wait can be interrupted.\<close>

definition wakeable :: "kernel \<Rightarrow> nat \<Rightarrow> bool" where
  "wakeable k p \<longleftrightarrow> state (procs k p) \<noteq> PROC_ZOMBIE \<and>
     (wait_state (procs k p) = 0 \<or> wait_state (procs k p) AND WT_INTERRUPTED \<noteq> 0)"

lemma deltas_dec:
  "\<forall>a\<in>set as. 0 < a \<Longrightarrow> 0 < b \<Longrightarrow> deltas (b - 1) (map (\<lambda>a. a - 1) as) = deltas b as"
  by (induction as arbitrary: b) auto

lemma timer_rep_tick:
  assumes "timer_rep k ((t, e) # ts)" "\<forall>x\<in>set ((t, e) # ts). 0 < snd x"
  shows "timer_rep (upd_timer t (\<lambda>x. x\<lparr>expires := expires x - 1\<rparr>) k) (map (\<lambda>(t, e). (t, e - 1)) ((t, e) # ts))"
proof -
  let ?d = "\<lambda>(t :: nat, e :: nat). (t, e - 1)"
  have f: "map fst (map ?d xs) = map fst xs" "map snd (map ?d xs) = map (\<lambda>a. a - 1) (map snd xs)" for xs
    by (induction xs) auto
  have notin: "t \<notin> fst ` set ts" using timer_rep_distinct [OF assms(1)] by simp
  have "map (\<lambda>x. expires ((timers (upd_timer t (\<lambda>x. x\<lparr>expires := expires x - 1\<rparr>) k)) (fst x))) (map ?d ts) =
      map (\<lambda>x. expires (timers k (fst x))) ts"
    using notin by (auto simp: image_iff split_beta)
  moreover have "map (\<lambda>x. expires (timers k (fst x))) ts = deltas (e - 1) (map snd (map ?d ts))"
    using assms deltas_dec [of "map snd ts" e] unfolding f by (auto simp: timer_rep_def)
  moreover have "sorted (map snd (map ?d ((t, e) # ts)))"
    using assms(1) unfolding f timer_rep_def by (auto simp: sorted_map elim!: sorted_wrt_mono_rel [rotated] intro: diff_le_mono)
  moreover have "\<forall>x\<in>set (map ?d ((t, e) # ts)). snd x < 2 ^ 32"
    using assms(1) by (fastforce simp: timer_rep_def)
  moreover have "expires (timers k t) = e" using assms(1) by (simp add: timer_rep_def)
  ultimately show ?thesis using assms(1) unfolding timer_rep_def f by simp
qed

lemma sorted_ones:
  "sorted (map snd ts) \<Longrightarrow> \<forall>x\<in>set ts. 0 < snd x \<Longrightarrow>
    dropWhile (\<lambda>x. snd x = (1 :: nat)) ts = filter (\<lambda>x. 1 < snd x) ts \<and>
    set (takeWhile (\<lambda>x. snd x = 1) ts) = {x\<in>set ts. snd x = 1}"
proof (induction ts)
  case (Cons x ts)
  show ?case
  proof (cases "snd x = 1")
    case False
    then have "\<forall>y\<in>set (x # ts). 1 < snd y" using Cons.prems by fastforce
    then show ?thesis by (auto simp: filter_id_conv)
  qed (use Cons in auto)
qed simp

context sched_policy
begin

lemma expire_one:
  assumes fit: "\<And>k p A. fit k p A" and inv: "sched_inv ready k"
    and rep: "timer_rep k ((t, 0) # ts)" and "wakeable k (tproc (timers k t))"
  defines "p \<equiv> tproc (timers k t)"
  shows "\<exists>k' k''. wakeup_proc sc p k = Some k' \<and> k'' = del_timer t k' \<and> timer_rep k'' ts \<and> sched_inv ready k'' \<and>
    state (procs k'' p) = PROC_RUNNABLE \<and> (\<forall>q. wakeable k q \<longrightarrow> wakeable k'' q) \<and>
    (\<forall>q. q \<noteq> p \<longrightarrow> state (procs k'' q) = state (procs k q)) \<and> current k'' = current k \<and> idleproc k'' = idleproc k \<and>
    (\<forall>x. tproc (timers k'' x) = tproc (timers k x)) \<and>
    list_next (TimerLink t) (links k) = hd (TimerLinks ts @ [TimerList]) \<and> expires (timers k t) = 0"
proof -
  obtain k' where k': "wakeup_proc sc p k = Some k'" "sched_inv ready k'" "state (procs k' p) = PROC_RUNNABLE"
    "wakeup_frame p k k'"
    using wakeup_ok [OF inv _ fit] assms(4) by (auto simp: p_def wakeable_def)
  note fr = k'(4) [unfolded wakeup_frame_def]
  have rep': "timer_rep k' ([] @ (t, 0) # ts)" using timer_rep_cong [OF rep] fr by simp
  note del = del_timer_rep [OF rep']
  have "unseen k' (del_timer t k')" by (rule del_timer_unseen [OF rep'])
  then have "ready (del_timer t k') (waiting_to_run k')" using k'(2) ready_unseen by (auto simp: sched_inv_def)
  moreover have "waiting_to_run (del_timer t k') = waiting_to_run k'" using del by (simp add: waiting_to_run_def)
  ultimately have "sched_inv ready (del_timer t k')" by (simp add: sched_inv_def)
  moreover have "wakeable (del_timer t k') q" if "wakeable k q" for q
    using that fr k'(3) del(2) by (cases "q = p") (auto simp: wakeable_def)
  moreover have "list_next (TimerLink t) (links k) = hd (TimerLinks ts @ [TimerList])"
    using rep dll_next [of "links k" TimerList "[]" "TimerLink t" "TimerLinks ts"]
    by (cases ts) (auto simp: timer_rep_def list_next_def)
  moreover have "expires (timers k t) = 0" using rep by (simp add: timer_rep_def)
  ultimately show ?thesis using k' fr del by (auto intro!: exI [of _ k'])
qed

lemma expire_loop_ok:
  assumes fit: "\<And>k p A. fit k p A"
  shows "sched_inv ready k \<Longrightarrow> timer_rep k (zs @ vs) \<Longrightarrow> zs \<noteq> [] \<Longrightarrow> \<forall>x\<in>set zs. snd x = 0 \<Longrightarrow>
    \<forall>x\<in>set vs. 0 < snd x \<Longrightarrow> \<forall>x\<in>set zs. wakeable k (tproc (timers k (fst x))) \<Longrightarrow>
    \<exists>k'. expire_loop sc (fst (hd zs)) k = Some k' \<and> timer_rep k' vs \<and> sched_inv ready k' \<and>
      (\<forall>x\<in>set zs. state (procs k' (tproc (timers k (fst x)))) = PROC_RUNNABLE) \<and>
      (\<forall>q. q \<notin> (\<lambda>x. tproc (timers k (fst x))) ` set zs \<longrightarrow> state (procs k' q) = state (procs k q)) \<and>
      current k' = current k \<and> idleproc k' = idleproc k"
proof (induction zs arbitrary: k)
  case (Cons z zs)
  obtain t where z: "z = (t, 0)" using Cons.prems(4) by (cases z) auto
  let ?p = "tproc (timers k t)"
  obtain k' k'' where s: "wakeup_proc sc ?p k = Some k'" "k'' = del_timer t k'" "timer_rep k'' (zs @ vs)"
    "sched_inv ready k''" "state (procs k'' ?p) = PROC_RUNNABLE" "\<forall>q. wakeable k q \<longrightarrow> wakeable k'' q"
    "\<forall>q. q \<noteq> ?p \<longrightarrow> state (procs k'' q) = state (procs k q)" "current k'' = current k" "idleproc k'' = idleproc k"
    "\<forall>x. tproc (timers k'' x) = tproc (timers k x)"
    "list_next (TimerLink t) (links k) = hd (TimerLinks (zs @ vs) @ [TimerList])" "expires (timers k t) = 0"
    using expire_one [OF fit Cons.prems(1), of t "zs @ vs"] Cons.prems(2,6) by (auto simp: z)
  have w: "wakeable k ?p" using Cons.prems(6) by (simp add: z)
  have step: "expire_loop sc t k = (case hd (TimerLinks (zs @ vs) @ [TimerList]) of
      TimerLink n \<Rightarrow> expire_loop sc n k'' | TimerList \<Rightarrow> Some k'' | _ \<Rightarrow> None)"
    using w s(1,2,11,12) by (subst expire_loop.simps) (auto simp: Let_def wakeable_def massert_def)
  show ?case
  proof (cases "zs = []")
    case True
    have "expire_loop sc t k = Some k''"
    proof (cases vs)
      case (Cons v vs')
      then have "expires (timers k'' (fst v)) \<noteq> 0"
        using s(3) True Cons.prems(5) by (auto simp: timer_rep_def)
      then show ?thesis using step True Cons by (simp add: expire_loop.simps [of sc "fst v"])
    qed (use step True in simp)
    then show ?thesis using s True by (auto simp: z)
  next
    case False
    have "\<forall>x\<in>set zs. wakeable k'' (tproc (timers k'' (fst x)))" using Cons.prems(6) s(6,10) by auto
    then obtain k3 where k3: "expire_loop sc (fst (hd zs)) k'' = Some k3" "timer_rep k3 vs" "sched_inv ready k3"
      "\<forall>x\<in>set zs. state (procs k3 (tproc (timers k'' (fst x)))) = PROC_RUNNABLE"
      "\<forall>q. q \<notin> (\<lambda>x. tproc (timers k'' (fst x))) ` set zs \<longrightarrow> state (procs k3 q) = state (procs k'' q)"
      "current k3 = current k''" "idleproc k3 = idleproc k''"
      using Cons.IH [OF s(4,3) False] Cons.prems(4,5) by auto
    moreover have "expire_loop sc t k = Some k3" using step k3(1) False by (cases zs) auto
    moreover have "state (procs k3 ?p) = PROC_RUNNABLE"
      using k3(4,5) s(5,10) by (cases "?p \<in> (\<lambda>x. tproc (timers k'' (fst x))) ` set zs") auto
    ultimately show ?thesis using s(7-10) by (auto simp: z)
  qed
qed simp

lemma run_timer_list_ok:
  assumes fit: "\<And>k p A. fit k p A" and inv: "sched_inv ready k" and rep: "timer_rep k ts"
    and pos: "\<forall>x\<in>set ts. 0 < snd x" and w: "\<forall>x\<in>set ts. wakeable k (tproc (timers k (fst x)))"
  shows "\<exists>k'. run_timer_list sc k = Some (sched_class_proc_tick sc (current k) k') \<and> sched_inv ready k' \<and>
      timer_rep k' (map (\<lambda>(t, e). (t, e - 1)) (filter (\<lambda>x. 1 < snd x) ts)) \<and>
      (\<forall>x\<in>set ts. snd x = 1 \<longrightarrow> state (procs k' (tproc (timers k (fst x)))) = PROC_RUNNABLE) \<and>
      (\<forall>q. q \<notin> (\<lambda>x. tproc (timers k (fst x))) ` {x\<in>set ts. snd x = 1} \<longrightarrow> state (procs k' q) = state (procs k q)) \<and>
      current k' = current k \<and> idleproc k' = idleproc k"
proof (cases ts)
  case Nil
  then have "list_next TimerList (links k) = TimerList" using rep by (auto simp: timer_rep_def list_next_def dll_next_head)
  then have "run_timer_list sc k = Some (sched_class_proc_tick sc (current k) k)" by (simp add: run_timer_list_def)
  then show ?thesis using Nil inv rep by (intro exI [of _ k]) auto
next
  case (Cons u us)
  obtain t e where u: "u = (t, e)" by fastforce
  let ?d = "\<lambda>(t :: nat, e :: nat). (t, e - 1)"
  let ?k = "upd_timer t (\<lambda>x. x\<lparr>expires := expires x - 1\<rparr>) k"
  have e: "expires (timers k t) = e" "0 < e" "t \<notin> fst ` set us" using rep pos timer_rep_distinct [OF rep]
    by (auto simp: Cons u timer_rep_def)
  have nxt: "list_next TimerList (links k) = TimerLink t"
    using rep by (auto simp: Cons u timer_rep_def list_next_def dll_next_head)
  have rep': "timer_rep ?k (map ?d ts)" by (rule timer_rep_tick [OF rep [unfolded Cons u] pos [unfolded Cons u], folded u Cons])
  define zs vs where "zs = map ?d (takeWhile (\<lambda>x. snd x = 1) ts)" and "vs = map ?d (dropWhile (\<lambda>x. snd x = 1) ts)"
  have split: "map ?d ts = zs @ vs" by (simp add: zs_def vs_def flip: map_append)
  have so: "sorted (map snd ts)" using rep by (simp add: timer_rep_def)
  have dw: "dropWhile (\<lambda>x. snd x = 1) ts = filter (\<lambda>x. 1 < snd x) ts" "set (takeWhile (\<lambda>x. snd x = 1) ts) = {x\<in>set ts. snd x = 1}"
    using sorted_ones [OF so pos] by auto
  have vs: "\<forall>x\<in>set vs. 0 < snd x" unfolding vs_def dw by auto
  have fd: "fst (?d x) = fst x" for x by (cases x) simp
  have "fst ` set zs = fst ` set (takeWhile (\<lambda>x. snd x = 1) ts)" by (simp only: zs_def set_map image_image fd)
  then have zs: "\<forall>x\<in>set zs. snd x = 0" "fst ` set zs = fst ` {x\<in>set ts. snd x = 1}"
    unfolding dw(2) by (auto simp: zs_def dest: set_takeWhileD)
  have tp: "tproc (timers ?k x) = tproc (timers k x)" for x by simp
  have inv': "sched_inv ready ?k"
  proof -
    have "unseen k ?k" by (simp add: unseen_def upd_timer_def)
    moreover have "waiting_to_run ?k = waiting_to_run k" by (simp add: waiting_to_run_def)
    ultimately show ?thesis using inv ready_unseen by (auto simp: sched_inv_def)
  qed
  have run: "run_timer_list sc k = expire_loop sc t ?k \<bind> (\<lambda>k. Some (sched_class_proc_tick sc (current k) k))"
    using nxt e by (simp add: run_timer_list_def)
  show ?thesis
  proof (cases "e = 1")
    case False
    then have "expire_loop sc t ?k = Some ?k" using e by (subst expire_loop.simps) simp
    moreover have "{x \<in> set ts. snd x = 1} = {}" using False dw(2) Cons u by auto
    moreover have "map ?d (filter (\<lambda>x. 1 < snd x) ts) = map ?d ts" using False Cons u dw(1) by simp
    ultimately show ?thesis using run inv' rep' False by (intro exI [of _ ?k]) auto
  next
    case True
    then have "zs \<noteq> []" "fst (hd zs) = t" by (auto simp: zs_def Cons u)
    moreover have wz: "\<forall>x\<in>set zs. wakeable ?k (tproc (timers k (fst x)))"
    proof
      fix x assume "x \<in> set zs"
      then have "fst x \<in> fst ` {x\<in>set ts. snd x = 1}" unfolding zs(2) [symmetric] by (rule imageI)
      then obtain y where "y \<in> set ts" "fst y = fst x" by auto
      then have "wakeable k (tproc (timers k (fst x)))" using w by metis
      then show "wakeable ?k (tproc (timers k (fst x)))" by (simp add: wakeable_def)
    qed
    ultimately obtain k' where k': "expire_loop sc t ?k = Some k'" "timer_rep k' vs" "sched_inv ready k'"
      "\<forall>x\<in>set zs. state (procs k' (tproc (timers k (fst x)))) = PROC_RUNNABLE"
      "\<forall>q. q \<notin> (\<lambda>x. tproc (timers k (fst x))) ` set zs \<longrightarrow> state (procs k' q) = state (procs k q)"
      "current k' = current k" "idleproc k' = idleproc k"
      using expire_loop_ok [OF fit inv' rep' [unfolded split] \<open>zs \<noteq> []\<close> zs(1) vs, unfolded tp, OF wz] by auto
    have im: "(\<lambda>x. tproc (timers k (fst x))) ` A = (\<lambda>t. tproc (timers k t)) ` fst ` A" for A :: "(nat \<times> nat) set"
      by (simp only: image_image)
    have img: "(\<lambda>x. tproc (timers k (fst x))) ` set zs = (\<lambda>x. tproc (timers k (fst x))) ` {x\<in>set ts. snd x = 1}"
      unfolding im zs(2) ..
    have "state (procs k' (tproc (timers k (fst x)))) = PROC_RUNNABLE" if x: "x \<in> set ts" "snd x = 1" for x
    proof -
      have "tproc (timers k (fst x)) \<in> (\<lambda>x. tproc (timers k (fst x))) ` set zs" unfolding img using x by simp
      then show ?thesis using k'(4) by auto
    qed
    then show ?thesis
      using run k' unfolding img vs_def dw(1) by (intro exI [of _ k']) simp
  qed
qed

end

subsection \<open>Properties\<close>

text \<open>C35: a tick of the timer list. Let the timer list hold timers with the absolute times \<open>ts\<close>, all in
  the future, of processes that can be woken. Then \<^verbatim>\<open>run_timer_list\<close> (with the round robin class)
  returns; before its final tick of the current process every timer with one tick left is gone and
  its process is runnable and queued, every other timer has exactly one tick less, and no other
  process has changed its state.\<close>

theorem run_timer_list_correct:
  assumes "sched_inv RR_ready k" "timer_rep k ts" "\<forall>x\<in>set ts. 0 < snd x"
    and "\<forall>x\<in>set ts. wakeable k (tproc (timers k (fst x)))"
  shows "\<exists>k'. run_timer_list default_sched_class k =
      Some (sched_class_proc_tick default_sched_class (current k) k') \<and> sched_inv RR_ready k' \<and>
    timer_rep k' (map (\<lambda>(t, e). (t, e - 1)) (filter (\<lambda>x. 1 < snd x) ts)) \<and>
    (\<forall>x\<in>set ts. snd x = 1 \<longrightarrow> state (procs k' (tproc (timers k (fst x)))) = PROC_RUNNABLE) \<and>
    (\<forall>q. q \<notin> (\<lambda>x. tproc (timers k (fst x))) ` {x\<in>set ts. snd x = 1} \<longrightarrow> state (procs k' q) = state (procs k q))"
  using RR.run_timer_list_ok [OF TrueI assms] by blast

text \<open>A kernel in which process 3 sleeps for one tick and process 4 for three.\<close>

lemma two_sleepers:
  obtains k where "timer_rep k [(7, 1), (8, 3)]" "sched_inv RR_ready k" "tproc (timers k 7) = 3"
    "tproc (timers k 8) = 4" "wakeable k 3" "wakeable k 4"
proof -
  let ?k = "upd_klinks (list_add_before TimerList (TimerLink 8)) (upd_klinks (list_add_before TimerList (TimerLink 7))
    (boot_kernel\<lparr>timers := (\<lambda>_. \<lparr>expires = 0, tproc = 0\<rparr>)(7 := \<lparr>expires = 1, tproc = 3\<rparr>, 8 := \<lparr>expires = 2, tproc = 4\<rparr>)\<rparr>))"
  have "timer_rep ?k [(7, 1), (8, 3)]"
    by (simp add: timer_rep_def dll_def boot_links list_op_defs)
  moreover have "unseen boot_kernel ?k"
    by (simp add: unseen_def boot_links same_on_def list_op_defs)
  then have "RR_ready ?k (waiting_to_run boot_kernel)" using RR.ready_unseen boot_inv by (auto simp: sched_inv_def)
  then have "sched_inv RR_ready ?k" by (simp add: sched_inv_def waiting_to_run_def)
  moreover have "wakeable ?k 3" "wakeable ?k 4"
    by (simp_all add: wakeable_def boot_kernel_def sched_init_def RR_init_def)
  ultimately show ?thesis using that [of ?k] by simp
qed

theorem run_timer_list_correct_witness:
  "\<exists>k k'. timer_rep k [(7, 1), (8, 3)] \<and> run_timer_list default_sched_class k =
      Some (sched_class_proc_tick default_sched_class (current k) k') \<and> sched_inv RR_ready k' \<and>
    timer_rep k' [(8, 2)] \<and> state (procs k' 3) = PROC_RUNNABLE \<and> state (procs k' 4) = state (procs k 4)"
proof -
  obtain k where k: "timer_rep k [(7, 1), (8, 3)]" "sched_inv RR_ready k" "tproc (timers k 7) = 3"
    "tproc (timers k 8) = 4" "wakeable k 3" "wakeable k 4" by (rule two_sleepers)
  have "4 \<notin> (\<lambda>x. tproc (timers k (fst x))) ` {x\<in>set [(7, 1), (8 :: nat, 3 :: nat)]. snd x = 1}"
    using k(3) by auto
  with run_timer_list_correct [OF k(2,1)] k obtain k' where
    "run_timer_list default_sched_class k = Some (sched_class_proc_tick default_sched_class (current k) k')"
    "sched_inv RR_ready k'" "timer_rep k' [(8, 2)]" "state (procs k' 3) = PROC_RUNNABLE"
    "state (procs k' 4) = state (procs k 4)" by force
  with k(1) show ?thesis by blast
qed

text \<open>C36: setting and deleting timers. \<^verbatim>\<open>add_timer\<close> with a positive time \<open>e\<close> puts the timer behind all
  timers that expire up to \<open>e\<close> and before all later ones, and none of those changes its absolute
  time; deleting it again restores the previous times. (The list itself stores only differences.)\<close>

theorem add_del_timer_correct:
  assumes "timer_rep k ts" "t \<notin> fst ` set ts" "list_empty (TimerLink t) (links k)"
    and "0 < expires (timers k t)" "expires (timers k t) < 2 ^ 32"
  shows "\<exists>k'. add_timer t k = Some k' \<and>
    timer_rep k' (takeWhile (\<lambda>x. snd x \<le> expires (timers k t)) ts @ (t, expires (timers k t)) #
      dropWhile (\<lambda>x. snd x \<le> expires (timers k t)) ts) \<and>
    timer_rep (del_timer t k') ts \<and> procs (del_timer t k') = procs k"
proof -
  let ?e = "expires (timers k t)"
  obtain k' where k': "add_timer t k = Some k'" "procs k' = procs k"
    "timer_rep k' (takeWhile (\<lambda>x. snd x \<le> ?e) ts @ (t, ?e) # dropWhile (\<lambda>x. snd x \<le> ?e) ts)"
    using add_timer_rep [OF assms(1-3) refl assms(4,5)] by blast
  from del_timer_rep(1,2) [OF k'(3)] k' show ?thesis by auto
qed

theorem add_del_timer_correct_witness:
  "\<exists>k k'. timer_rep k [(7, 1), (8, 3)] \<and> add_timer 9 k = Some k' \<and> timer_rep k' [(7, 1), (9, 2), (8, 3)] \<and>
    timer_rep (del_timer 9 k') [(7, 1), (8, 3)]"
proof -
  let ?k = "upd_klinks (list_add_before TimerList (TimerLink 8)) (upd_klinks (list_add_before TimerList (TimerLink 7))
    (boot_kernel\<lparr>timers := (\<lambda>_. \<lparr>expires = 2, tproc = 0\<rparr>)(7 := \<lparr>expires = 1, tproc = 3\<rparr>, 8 := \<lparr>expires = 2, tproc = 4\<rparr>)\<rparr>))"
  have r: "timer_rep ?k [(7, 1), (8, 3)]" by (simp add: timer_rep_def dll_def boot_links list_op_defs)
  have "list_empty (TimerLink 9) (links ?k)" by (simp add: boot_links list_op_defs)
  from add_del_timer_correct [OF r _ this] r show ?thesis by auto
qed

end
