(* ===== verification/Wait_Sem.thy ===== *)
theory Wait_Sem
  imports Sched
begin

section \<open>Wait queues and semaphores (sync/wait.c, sync/sem.c)\<close>

text \<open>
  A wait queue is the list with head \<open>WaitQueue q\<close>, a \<^verbatim>\<open>wait_t\<close> is a number \<open>w\<close> with its fields in
  \<open>waits\<close> and its link \<open>WaitLink w\<close>. A semaphore is a number: its counter is \<open>sem_value\<close>, its wait
  queue has the same number. \<^verbatim>\<open>__down\<close> gives up the processor in the middle, so it is two
  functions: \<open>down_enter\<close> up to and including \<^verbatim>\<open>schedule\<close>, and \<open>down_resume\<close>, which the process
  executes when it is switched to again.

  \<open>sem_rep k s v ws\<close> relates a semaphore to its abstract state, the counter \<open>v\<close> and the queue of
  waiting entries \<open>ws\<close>. The refinement lemmas show that \<^verbatim>\<open>__up\<close> and \<^verbatim>\<open>__down\<close> implement the two
  abstract operations \<open>asem_up\<close> and \<open>asem_down\<close>: a counting semaphore with a first-come
  first-served queue and direct hand-off.
\<close>

subsection \<open>Wait queues\<close>

definition upd_wait :: "nat \<Rightarrow> (wait \<Rightarrow> wait) \<Rightarrow> kernel \<Rightarrow> kernel" where
  "upd_wait w f k = k\<lparr>waits := (waits k)(w := f (waits k w))\<rparr>"

definition wait_init :: "nat \<Rightarrow> nat \<Rightarrow> kernel \<Rightarrow> kernel" where
  "wait_init w p k =
     upd_klinks (list_init (WaitLink w)) (upd_wait w (\<lambda>x. x\<lparr>wproc := p, wakeup_flags := WT_INTERRUPTED\<rparr>) k)"

definition wait_queue_init :: "nat \<Rightarrow> kernel \<Rightarrow> kernel" where
  "wait_queue_init q k = upd_klinks (list_init (WaitQueue q)) k"

definition wait_queue_add :: "nat \<Rightarrow> nat \<Rightarrow> kernel \<Rightarrow> kernel option" where
  "wait_queue_add q w k = do {
     massert (list_empty (WaitLink w) (links k));
     Some (upd_klinks (list_add_before (WaitQueue q) (WaitLink w)) (upd_wait w (\<lambda>x. x\<lparr>wait_queue := q\<rparr>) k))
   }"

definition wait_queue_del :: "nat \<Rightarrow> nat \<Rightarrow> kernel \<Rightarrow> kernel option" where
  "wait_queue_del q w k = do {
     massert (\<not> list_empty (WaitLink w) (links k) \<and> wait_queue (waits k w) = q);
     Some (upd_klinks (list_del_init (WaitLink w)) k)
   }"

text \<open>A list entry as the \<^verbatim>\<open>wait_t\<close> it is embedded in; the head of the queue gives NULL.\<close>

fun le2wait :: "nat \<Rightarrow> knode \<Rightarrow> nat option option" where
  "le2wait q (WaitLink w) = Some (Some w)"
| "le2wait q (WaitQueue r) = (if r = q then Some None else None)"
| "le2wait q _ = None"

definition wait_queue_next :: "nat \<Rightarrow> nat \<Rightarrow> kernel \<Rightarrow> nat option option" where
  "wait_queue_next q w k = do {
     massert (\<not> list_empty (WaitLink w) (links k) \<and> wait_queue (waits k w) = q);
     le2wait q (list_next (WaitLink w) (links k))
   }"

definition wait_queue_prev :: "nat \<Rightarrow> nat \<Rightarrow> kernel \<Rightarrow> nat option option" where
  "wait_queue_prev q w k = do {
     massert (\<not> list_empty (WaitLink w) (links k) \<and> wait_queue (waits k w) = q);
     le2wait q (list_prev (WaitLink w) (links k))
   }"

definition wait_queue_first :: "nat \<Rightarrow> kernel \<Rightarrow> nat option option" where
  "wait_queue_first q k = le2wait q (list_next (WaitQueue q) (links k))"

definition wait_queue_last :: "nat \<Rightarrow> kernel \<Rightarrow> nat option option" where
  "wait_queue_last q k = le2wait q (list_prev (WaitQueue q) (links k))"

definition wait_queue_empty :: "nat \<Rightarrow> kernel \<Rightarrow> bool" where
  "wait_queue_empty q k = list_empty (WaitQueue q) (links k)"

definition wait_in_queue :: "nat \<Rightarrow> kernel \<Rightarrow> bool" where
  "wait_in_queue w k = (\<not> list_empty (WaitLink w) (links k))"

definition wakeup_wait :: "sched_class \<Rightarrow> nat \<Rightarrow> nat \<Rightarrow> 32 word \<Rightarrow> bool \<Rightarrow> kernel \<Rightarrow> kernel option" where
  "wakeup_wait sc q w fl del k = do {
     k \<leftarrow> (if del then wait_queue_del q w k else Some k);
     let k = upd_wait w (\<lambda>x. x\<lparr>wakeup_flags := fl\<rparr>) k;
     wakeup_proc sc (wproc (waits k w)) k
   }"

definition wakeup_first :: "sched_class \<Rightarrow> nat \<Rightarrow> 32 word \<Rightarrow> bool \<Rightarrow> kernel \<Rightarrow> kernel option" where
  "wakeup_first sc q fl del k = do {
     r \<leftarrow> wait_queue_first q k;
     (case r of None \<Rightarrow> Some k | Some w \<Rightarrow> wakeup_wait sc q w fl del k)
   }"

partial_function (option) wakeup_del_loop :: "sched_class \<Rightarrow> nat \<Rightarrow> 32 word \<Rightarrow> nat \<Rightarrow> kernel \<Rightarrow> kernel option" where
  "wakeup_del_loop sc q fl w k = do {
     k \<leftarrow> wakeup_wait sc q w fl True k;
     r \<leftarrow> wait_queue_first q k;
     (case r of None \<Rightarrow> Some k | Some w' \<Rightarrow> wakeup_del_loop sc q fl w' k)
   }"

partial_function (option) wakeup_keep_loop :: "sched_class \<Rightarrow> nat \<Rightarrow> 32 word \<Rightarrow> nat \<Rightarrow> kernel \<Rightarrow> kernel option" where
  "wakeup_keep_loop sc q fl w k = do {
     k \<leftarrow> wakeup_wait sc q w fl False k;
     r \<leftarrow> wait_queue_next q w k;
     (case r of None \<Rightarrow> Some k | Some w' \<Rightarrow> wakeup_keep_loop sc q fl w' k)
   }"

definition wakeup_queue :: "sched_class \<Rightarrow> nat \<Rightarrow> 32 word \<Rightarrow> bool \<Rightarrow> kernel \<Rightarrow> kernel option" where
  "wakeup_queue sc q fl del k = do {
     r \<leftarrow> wait_queue_first q k;
     (case r of
        None \<Rightarrow> Some k
      | Some w \<Rightarrow> if del then wakeup_del_loop sc q fl w k else wakeup_keep_loop sc q fl w k)
   }"

definition wait_current_set :: "nat \<Rightarrow> nat \<Rightarrow> 32 word \<Rightarrow> kernel \<Rightarrow> kernel option" where
  "wait_current_set q w ws k = do {
     let k = wait_init w (current k) k;
     let k = upd_proc (current k) (\<lambda>x. x\<lparr>state := PROC_SLEEPING, wait_state := ws\<rparr>) k;
     wait_queue_add q w k
   }"

definition wait_current_del :: "nat \<Rightarrow> nat \<Rightarrow> kernel \<Rightarrow> kernel option" where
  "wait_current_del q w k = (if wait_in_queue w k then wait_queue_del q w k else Some k)"

subsection \<open>Semaphores\<close>

definition sem_init :: "nat \<Rightarrow> int \<Rightarrow> kernel \<Rightarrow> kernel" where
  "sem_init s v k = wait_queue_init s (k\<lparr>sem_value := (sem_value k)(s := v)\<rparr>)"

definition sem_up :: "sched_class \<Rightarrow> nat \<Rightarrow> 32 word \<Rightarrow> kernel \<Rightarrow> kernel option" where
  "sem_up sc s ws k = do {
     r \<leftarrow> wait_queue_first s k;
     (case r of
        None \<Rightarrow> Some (k\<lparr>sem_value := (sem_value k)(s := sem_value k s + 1)\<rparr>)
      | Some w \<Rightarrow> do {
          massert (wait_state (procs k (wproc (waits k w))) = ws);
          wakeup_wait sc s w ws True k
        })
   }"

text \<open>\<open>down_enter\<close> returns \<open>True\<close> if \<^verbatim>\<open>__down\<close> has returned 0 at once, \<open>False\<close> if the caller now sleeps.
  \<open>w\<close> is the \<^verbatim>\<open>wait_t\<close> on the caller's stack.\<close>

definition down_enter :: "sched_class \<Rightarrow> nat \<Rightarrow> nat \<Rightarrow> 32 word \<Rightarrow> kernel \<Rightarrow> (bool \<times> kernel) option" where
  "down_enter sc s w ws k =
     (if 0 < sem_value k s
      then Some (True, k\<lparr>sem_value := (sem_value k)(s := sem_value k s - 1)\<rparr>)
      else do {
        k \<leftarrow> wait_current_set s w ws k;
        k \<leftarrow> schedule sc k;
        Some (False, k)
      })"

definition down_resume :: "nat \<Rightarrow> nat \<Rightarrow> 32 word \<Rightarrow> kernel \<Rightarrow> (32 word \<times> kernel) option" where
  "down_resume s w ws k = do {
     k \<leftarrow> wait_current_del s w k;
     Some (if wakeup_flags (waits k w) \<noteq> ws then wakeup_flags (waits k w) else 0, k)
   }"

definition up :: "sched_class \<Rightarrow> nat \<Rightarrow> kernel \<Rightarrow> kernel option" where
  "up sc s k = sem_up sc s WT_KSEM k"

definition down :: "sched_class \<Rightarrow> nat \<Rightarrow> nat \<Rightarrow> kernel \<Rightarrow> (bool \<times> kernel) option" where
  "down sc s w k = down_enter sc s w WT_KSEM k"

definition down_return :: "nat \<Rightarrow> nat \<Rightarrow> kernel \<Rightarrow> kernel option" where
  "down_return s w k = do {
     (fl, k) \<leftarrow> down_resume s w WT_KSEM k;
     massert (fl = 0);
     Some k
   }"

definition try_down :: "nat \<Rightarrow> kernel \<Rightarrow> bool \<times> kernel" where
  "try_down s k =
     (if 0 < sem_value k s then (True, k\<lparr>sem_value := (sem_value k)(s := sem_value k s - 1)\<rparr>)
      else (False, k))"

declare wakeup_del_loop.simps [code] wakeup_keep_loop.simps [code]

lemma upd_wait_sel [simp]:
  "waits (upd_wait w f k) = (waits k)(w := f (waits k w))" "links (upd_wait w f k) = links k"
  "procs (upd_wait w f k) = procs k" "current (upd_wait w f k) = current k" "idleproc (upd_wait w f k) = idleproc k"
  "sem_value (upd_wait w f k) = sem_value k" "timers (upd_wait w f k) = timers k"
  by (simp_all add: upd_wait_def)

subsection \<open>The abstract semaphore\<close>

type_synonym asem = "int \<times> nat list"

definition asem_up :: "asem \<Rightarrow> asem \<times> nat option" where
  "asem_up a = (case snd a of [] \<Rightarrow> ((fst a + 1, []), None) | w # ws \<Rightarrow> ((fst a, ws), Some w))"

definition asem_down :: "nat \<Rightarrow> asem \<Rightarrow> asem \<times> bool" where
  "asem_down w a = (if 0 < fst a then ((fst a - 1, snd a), True) else ((fst a, snd a @ [w]), False))"

text \<open>Nobody waits while the counter is positive.\<close>

definition asem_ok :: "asem \<Rightarrow> bool" where
  "asem_ok a \<longleftrightarrow> 0 \<le> fst a \<and> (0 < fst a \<longrightarrow> snd a = [])"

lemma asem_ok_up: "asem_ok a \<Longrightarrow> asem_ok (fst (asem_up a))"
  and asem_ok_down: "asem_ok a \<Longrightarrow> asem_ok (fst (asem_down w a))"
  by (auto simp: asem_ok_def asem_up_def asem_down_def split: list.splits)

definition sem_rep :: "kernel \<Rightarrow> nat \<Rightarrow> asem \<Rightarrow> bool" where
  "sem_rep k s a \<longleftrightarrow>
     sem_value k s = fst a \<and> dll (links k) (WaitQueue s) (map WaitLink (snd a)) \<and>
     (\<forall>w\<in>set (snd a). wait_queue (waits k w) = s)"

text \<open>The entries of a wait queue belong to sleeping processes that wait for a semaphore.\<close>

definition sleepers :: "kernel \<Rightarrow> nat list \<Rightarrow> bool" where
  "sleepers k ws \<longleftrightarrow> (\<forall>w\<in>set ws. state (procs k (wproc (waits k w))) = PROC_SLEEPING \<and>
     wait_state (procs k (wproc (waits k w))) = WT_KSEM)"

lemma sem_rep_first:
  "sem_rep k s a \<Longrightarrow> wait_queue_first s k = Some (case snd a of [] \<Rightarrow> None | w # _ \<Rightarrow> Some w)"
  by (auto simp: sem_rep_def wait_queue_first_def list_next_def dll_next_head split: list.splits)

lemma sem_rep_cong:
  assumes "sem_rep k s a" "same_on {x. \<not> is_run_node x} (links k) (links k')" "waits k' = waits k"
    "sem_value k' = sem_value k"
  shows "sem_rep k' s a"
proof -
  have "same_on (set (WaitQueue s # map WaitLink (snd a))) (links k) (links k')"
    using assms(2) by (rule same_on_mono) auto
  from dll_same_on [OF this] show ?thesis using assms by (simp add: sem_rep_def)
qed

lemma wait_queue_del_ok:
  assumes "sem_rep k s (v, us @ w # vs)"
  shows "\<exists>k'. wait_queue_del s w k = Some k' \<and> sem_rep k' s (v, us @ vs) \<and> unseen k k' \<and>
    k' = k\<lparr>links := links k'\<rparr> \<and> detached (links k') (WaitLink w)"
proof -
  have ring: "dll (links k) (WaitQueue s) (map WaitLink us @ WaitLink w # map WaitLink vs)"
    using assms by (simp add: sem_rep_def)
  have ne: "\<not> list_empty (WaitLink w) (links k)" by (rule dll_member_not_empty [OF ring]) simp
  have foot: "same_on (- set (WaitQueue s # map WaitLink us @ WaitLink w # map WaitLink vs)) (links k)
      (list_del_init (WaitLink w) (links k))" by (rule del_footprint(2) [OF ring]) simp
  have "same_on {x. is_run_node x} (links k) (list_del_init (WaitLink w) (links k))"
    using foot by (rule same_on_mono) auto
  then have "unseen k (upd_klinks (list_del_init (WaitLink w)) k)" by (simp add: unseen_def)
  moreover have "sem_rep (upd_klinks (list_del_init (WaitLink w)) k) s (v, us @ vs)"
    using assms dll_del_init [OF ring] by (simp add: sem_rep_def)
  moreover have "upd_klinks (list_del_init (WaitLink w)) k =
      k\<lparr>links := links (upd_klinks (list_del_init (WaitLink w)) k)\<rparr>" by (simp add: upd_klinks_def)
  ultimately show ?thesis using ne assms by (auto simp: wait_queue_del_def sem_rep_def)
qed

subsection \<open>The kernel implements the abstract semaphore\<close>

lemma sched_inv_unseen:
  assumes "\<And>A. ready k A \<Longrightarrow> ready k' A" "sched_inv ready k"
    "\<forall>p. (state (procs k' p) = PROC_RUNNABLE \<and> p \<noteq> current k) = (state (procs k p) = PROC_RUNNABLE \<and> p \<noteq> current k)"
    "current k' = current k" "idleproc k' = idleproc k"
  shows "sched_inv ready k'"
proof -
  have "waiting_to_run k' = waiting_to_run k" using assms(3-5) by (auto simp: waiting_to_run_def)
  then show ?thesis using assms(1,2) by (simp add: sched_inv_def)
qed

lemma wait_current_set_ok:
  assumes rep: "sem_rep k s (v, ws)" and "w \<notin> set ws"
  shows "\<exists>k'. wait_current_set s w fl k = Some k' \<and> sem_rep k' s (v, ws @ [w]) \<and> unseen k k' \<and>
    waits k' = (waits k)(w := \<lparr>wproc = current k, wakeup_flags = WT_INTERRUPTED, wait_queue = s\<rparr>) \<and>
    procs k' = (procs k)(current k := (procs k (current k))\<lparr>state := PROC_SLEEPING, wait_state := fl\<rparr>) \<and>
    current k' = current k \<and> idleproc k' = idleproc k"
proof -
  let ?h = "list_init (WaitLink w) (links k)"
  have ring: "dll (links k) (WaitQueue s) (map WaitLink ws)" using rep by (simp add: sem_rep_def)
  have "same_on (set (WaitQueue s # map WaitLink ws)) (links k) ?h"
    using assms(2) by (auto simp: same_on_def list_init_def)
  from dll_same_on [OF this] have ring': "dll ?h (WaitQueue s) (map WaitLink ws)" using ring by simp
  have "same_on (- insert (WaitLink w) (set (WaitQueue s # map WaitLink ws))) ?h
      (list_add_before (WaitQueue s) (WaitLink w) ?h)" by (rule add_footprint(1) [OF ring']) simp
  then have "same_on {x. is_run_node x} ?h (list_add_before (WaitQueue s) (WaitLink w) ?h)"
    by (rule same_on_mono) auto
  then have run: "same_on {x. is_run_node x} (links k) (list_add_before (WaitQueue s) (WaitLink w) ?h)"
    by (auto simp: same_on_def list_init_def)
  have "dll (list_add_before (WaitQueue s) (WaitLink w) ?h) (WaitQueue s) (map WaitLink ws @ [WaitLink w])"
    using dll_add_before_head [OF ring', of "WaitLink w"] assms(2) by auto
  then have dl: "dll (list_add_before (WaitQueue s) (WaitLink w) ?h) (WaitQueue s) (map WaitLink (ws @ [w]))"
    by simp
  have emp: "list_empty (WaitLink w) ?h" by (rule detached_empty) simp
  define k' where "k' = k\<lparr>procs := (procs k)(current k := (procs k (current k))\<lparr>state := PROC_SLEEPING, wait_state := fl\<rparr>),
    links := list_add_before (WaitQueue s) (WaitLink w) ?h,
    waits := (waits k)(w := \<lparr>wproc = current k, wakeup_flags = WT_INTERRUPTED, wait_queue = s\<rparr>)\<rparr>"
  have full: "(waits k w)\<lparr>wproc := current k, wakeup_flags := WT_INTERRUPTED, wait_queue := s\<rparr> =
      \<lparr>wproc = current k, wakeup_flags = WT_INTERRUPTED, wait_queue = s\<rparr>" by (cases "waits k w") simp
  have "wait_current_set s w fl k = Some k'"
    using emp by (simp add: wait_current_set_def wait_queue_add_def wait_init_def Let_def k'_def upd_proc_def
        upd_klinks_def upd_wait_def full)
  moreover have "sem_rep k' s (v, ws @ [w])" using rep dl assms(2) by (auto simp: sem_rep_def k'_def)
  moreover have "unseen k k'" using run by (simp add: unseen_def k'_def)
  ultimately show ?thesis by (intro exI [of _ k'] conjI) (simp_all add: k'_def)
qed

context sched_policy
begin

lemma sem_up_ok:
  assumes fit: "\<And>k p A. fit k p A" and inv: "sched_inv ready k" and rep: "sem_rep k s (v, ws)"
    and sl: "sleepers k ws"
  shows "\<exists>k'. up sc s k = Some k' \<and> sched_inv ready k' \<and> sem_rep k' s (fst (asem_up (v, ws))) \<and>
    current k' = current k \<and>
    (\<forall>w. snd (asem_up (v, ws)) = Some w \<longrightarrow> state (procs k' (wproc (waits k w))) = PROC_RUNNABLE \<and>
       wakeup_flags (waits k' w) = WT_KSEM \<and> detached (links k') (WaitLink w)) \<and>
    (snd (asem_up (v, ws)) = None \<longrightarrow> procs k' = procs k)"
proof (cases ws)
  case Nil
  let ?k = "k\<lparr>sem_value := (sem_value k)(s := sem_value k s + 1)\<rparr>"
  have "up sc s k = Some ?k" using sem_rep_first [OF rep] Nil by (simp add: up_def sem_up_def)
  moreover have "sched_inv ready ?k"
    by (rule sched_inv_unseen [OF ready_unseen inv]) (auto simp: unseen_def)
  moreover have "sem_rep ?k s (v + 1, [])" using rep Nil by (simp add: sem_rep_def)
  ultimately show ?thesis using Nil by (simp add: asem_up_def)
next
  case (Cons w ws')
  let ?p = "wproc (waits k w)"
  obtain k1 where k1: "wait_queue_del s w k = Some k1" "sem_rep k1 s (v, ws')" "unseen k k1"
    "k1 = k\<lparr>links := links k1\<rparr>" "detached (links k1) (WaitLink w)"
    using wait_queue_del_ok [of k s v "[]" w ws'] rep Cons by auto
  let ?k2 = "upd_wait w (\<lambda>x. x\<lparr>wakeup_flags := WT_KSEM\<rparr>) k1"
  have same: "procs k1 = procs k" "waits k1 = waits k" "current k1 = current k" "idleproc k1 = idleproc k"
    by (subst k1(4), simp)+
  have "unseen k1 ?k2" by (simp add: unseen_def upd_wait_def)
  then have u2: "\<And>A. ready k A \<Longrightarrow> ready ?k2 A" using k1(3) ready_unseen by blast
  have inv2: "sched_inv ready ?k2" by (rule sched_inv_unseen [OF u2 inv]) (simp_all add: same)
  have "sem_rep ?k2 s (v, ws')" using k1(2) by (auto simp: sem_rep_def)
  moreover have "state (procs ?k2 ?p) \<noteq> PROC_ZOMBIE" using sl Cons by (simp add: same sleepers_def)
  then obtain k' where k': "wakeup_proc sc ?p ?k2 = Some k'" "sched_inv ready k'"
    "state (procs k' ?p) = PROC_RUNNABLE" "wakeup_frame ?p ?k2 k'"
    using wakeup_ok [OF inv2 _ fit] by blast
  note fr = k'(4) [unfolded wakeup_frame_def]
  ultimately have "sem_rep k' s (v, ws')" using fr sem_rep_cong [of ?k2 s "(v, ws')" k'] by simp
  moreover have "detached (links k') (WaitLink w)"
    using k1(5) detached_same_on [of "{x. \<not> is_run_node x}" "links k1" "links k'" "WaitLink w"] fr by simp
  moreover have "up sc s k = Some k'"
    using sem_rep_first [OF rep] Cons sl k1(1) k'(1)
    by (simp add: up_def sem_up_def wakeup_wait_def same sleepers_def Let_def)
  ultimately show ?thesis
    using Cons k' fr same by (auto simp: asem_up_def)
qed

lemma down_ok:
  assumes fit: "\<And>k p A. fit k p A" and inv: "sched_inv ready k" and rep: "sem_rep k s (v, ws)"
    and "w \<notin> set ws" and cur: "current k \<noteq> idleproc k"
  shows "\<exists>k'. down sc s w k = Some (snd (asem_down w (v, ws)), k') \<and> sched_inv ready k' \<and>
    sem_rep k' s (fst (asem_down w (v, ws))) \<and>
    (if snd (asem_down w (v, ws)) then current k' = current k \<and> procs k' = procs k
     else current k' \<noteq> current k \<and> state (procs k' (current k)) = PROC_SLEEPING \<and>
       wait_state (procs k' (current k)) = WT_KSEM \<and> wproc (waits k' w) = current k)"
proof (cases "0 < v")
  case True
  let ?k = "k\<lparr>sem_value := (sem_value k)(s := sem_value k s - 1)\<rparr>"
  have "sched_inv ready ?k" by (rule sched_inv_unseen [OF ready_unseen inv]) (auto simp: unseen_def)
  then show ?thesis using True rep by (auto simp: asem_down_def down_def down_enter_def sem_rep_def)
next
  case False
  obtain k1 where k1: "wait_current_set s w WT_KSEM k = Some k1" "sem_rep k1 s (v, ws @ [w])" "unseen k k1"
    "waits k1 = (waits k)(w := \<lparr>wproc = current k, wakeup_flags = WT_INTERRUPTED, wait_queue = s\<rparr>)"
    "procs k1 = (procs k)(current k := (procs k (current k))\<lparr>state := PROC_SLEEPING, wait_state := WT_KSEM\<rparr>)"
    "current k1 = current k" "idleproc k1 = idleproc k"
    using wait_current_set_ok [OF rep assms(4)] by blast
  have "sched_inv ready k1"
    by (rule sched_inv_unseen [OF ready_unseen [OF _ k1(3)] inv]) (simp_all add: k1)
  then obtain k' where k': "schedule sc k1 = Some k'" "sched_inv ready k'" "schedule_frame k1 k'"
    "if contenders k1 = {} then current k' = idleproc k1 else current k' \<in> contenders k1"
    using schedule_ok [OF _ fit] by (metis (no_types, lifting))
  have "current k \<notin> contenders k1" by (simp add: contenders_def k1)
  then have "current k' \<noteq> current k" using k'(4) cur k1(7) by (auto split: if_splits)
  moreover have "sem_rep k' s (v, ws @ [w])"
    using sem_rep_cong [OF k1(2)] k'(3) by (simp add: schedule_frame_def)
  moreover have "down sc s w k = Some (False, k')"
    using False rep k1(1) k'(1) by (simp add: down_def down_enter_def sem_rep_def)
  ultimately show ?thesis
    using False k'(2,3) k1 by (simp add: asem_down_def schedule_frame_def)
qed

end

text \<open>When a process that \<^verbatim>\<open>up\<close> has woken runs again, its \<^verbatim>\<open>down\<close> returns.\<close>

lemma down_return_ok:
  assumes "detached (links k) (WaitLink w)" "wakeup_flags (waits k w) = WT_KSEM"
  shows "down_return s w k = Some k"
  using assms detached_empty [OF assms(1)]
  by (simp add: down_return_def down_resume_def wait_current_del_def wait_in_queue_def)

subsection \<open>Properties\<close>

text \<open>C13: semaphores, the up operation. On a semaphore with counter \<open>v\<close> and waiting entries \<open>ws\<close> whose
  processes sleep for it, \<^verbatim>\<open>up\<close> returns. With nobody waiting it increments the counter; otherwise
  the counter stays, exactly the first waiting entry leaves the queue, its process becomes
  runnable (and is queued to run), and that process's \<^verbatim>\<open>down\<close> will return 0 when it runs.\<close>

theorem up_refines:
  assumes "sched_inv RR_ready k" "sem_rep k s (v, ws)" "sleepers k ws"
  shows "\<exists>k'. up default_sched_class s k = Some k' \<and> sched_inv RR_ready k' \<and>
    sem_rep k' s (case ws of [] \<Rightarrow> (v + 1, []) | _ # ws' \<Rightarrow> (v, ws')) \<and>
    (\<forall>w ws'. ws = w # ws' \<longrightarrow> state (procs k' (wproc (waits k w))) = PROC_RUNNABLE \<and> down_return s w k' = Some k')"
proof -
  obtain k' where k': "up default_sched_class s k = Some k'" "sched_inv RR_ready k'"
    "sem_rep k' s (fst (asem_up (v, ws)))"
    "\<forall>w. snd (asem_up (v, ws)) = Some w \<longrightarrow> state (procs k' (wproc (waits k w))) = PROC_RUNNABLE \<and>
       wakeup_flags (waits k' w) = WT_KSEM \<and> detached (links k') (WaitLink w)"
    using RR.sem_up_ok [OF TrueI assms] by blast
  then show ?thesis
    by (cases ws) (auto simp: asem_up_def intro: down_return_ok)
qed

text \<open>C14: semaphores, the down operation. \<^verbatim>\<open>down\<close> by a process other than the idle one returns at once
  and decrements the counter if that is positive. Otherwise the caller's entry is appended to the
  queue, the caller sleeps and another process runs; the counter never becomes negative.\<close>

theorem down_refines:
  assumes "sched_inv RR_ready k" "sem_rep k s (v, ws)" "w \<notin> set ws" "current k \<noteq> idleproc k"
  shows "\<exists>k'. down default_sched_class s w k = Some (0 < v, k') \<and> sched_inv RR_ready k' \<and>
    sem_rep k' s (if 0 < v then (v - 1, ws) else (v, ws @ [w])) \<and>
    (if 0 < v then current k' = current k
     else current k' \<noteq> current k \<and> state (procs k' (current k)) = PROC_SLEEPING)"
proof -
  obtain k' where "down default_sched_class s w k = Some (snd (asem_down w (v, ws)), k')" "sched_inv RR_ready k'"
    "sem_rep k' s (fst (asem_down w (v, ws)))"
    "if snd (asem_down w (v, ws)) then current k' = current k \<and> procs k' = procs k
     else current k' \<noteq> current k \<and> state (procs k' (current k)) = PROC_SLEEPING \<and>
       wait_state (procs k' (current k)) = WT_KSEM \<and> wproc (waits k' w) = current k"
    using RR.down_ok [OF TrueI assms] by blast
  then show ?thesis by (cases "0 < v") (simp_all add: asem_down_def)
qed

text \<open>A kernel in which process 3 runs and semaphore 0 has counter 1 and nobody waiting.\<close>

lemma sem_example:
  obtains k where "sched_inv RR_ready k" "sem_rep k 0 (1, [])" "current k = 3" "idleproc k = 0"
proof -
  let ?k = "(sem_init 0 1 boot_kernel)\<lparr>current := 3\<rparr>"
  have l: "links ?k = links boot_kernel"
    by (auto simp: sem_init_def wait_queue_init_def boot_links list_init_def set_next_def set_prev_def fun_eq_iff)
  then have "unseen boot_kernel ?k"
    by (simp add: unseen_def sem_init_def wait_queue_init_def upd_klinks_def)
  then have "RR_ready ?k (waiting_to_run boot_kernel)" using RR.ready_unseen boot_inv by (auto simp: sched_inv_def)
  moreover have "waiting_to_run boot_kernel = {}" "waiting_to_run ?k = {}"
    by (auto simp: waiting_to_run_def boot_sel sem_init_def wait_queue_init_def split: if_splits)
  ultimately have "sched_inv RR_ready ?k" by (simp add: sched_inv_def)
  moreover have "sem_rep ?k 0 (1, [])"
    by (simp add: sem_rep_def sem_init_def wait_queue_init_def dll_init)
  moreover have "idleproc ?k = 0" by (simp add: sem_init_def wait_queue_init_def boot_sel)
  ultimately show ?thesis using that [of ?k] by simp
qed

theorem down_refines_witness:
  "\<exists>k k'. current k = 3 \<and> down default_sched_class 0 9 k = Some (True, k') \<and> sem_rep k' 0 (0, [])"
proof -
  obtain k where k: "sched_inv RR_ready k" "sem_rep k 0 (1, [])" "current k = 3" "idleproc k = 0" by (rule sem_example)
  have "current k \<noteq> idleproc k" "9 \<notin> set ([] :: nat list)" using k by simp_all
  from down_refines [OF k(1,2) this(2,1)] k show ?thesis by auto
qed

theorem up_refines_witness:
  "\<exists>k k'. up default_sched_class 0 k = Some k' \<and> sem_rep k 0 (1, []) \<and> sem_rep k' 0 (2, [])"
proof -
  obtain k where k: "sched_inv RR_ready k" "sem_rep k 0 (1, [])" by (rule sem_example)
  have "sleepers k []" by (simp add: sleepers_def)
  from up_refines [OF k this] k show ?thesis by auto
qed

end
