(* ===== verification/Philosophers.thy ===== *)
theory Philosophers
  imports Wait_Sem
begin

section \<open>Dining philosophers with semaphores (sync/check\_sync.c)\<close>

text \<open>
  The kernel's synchronisation test as a transition system. Five threads run
  \<^verbatim>\<open>philosopher_using_semaphore\<close>, each of them \<^verbatim>\<open>TIMES\<close> rounds, and then quit. Kernel threads are not preempted (\<^verbatim>\<open>trap\<close> calls \<^verbatim>\<open>schedule\<close> only
  for traps from user mode), so control changes only inside \<^verbatim>\<open>down\<close>, \<^verbatim>\<open>do_sleep\<close> and at the end:
  one step of the system is what a thread does up to and including its next semaphore operation,
  and steps of different threads interleave in any order. The semaphores are the abstract ones of
  theory \<open>Wait_Sem\<close>, which the kernel's semaphores implement; their queues hold philosophers. A
  thread in a queue is blocked; a thread that is taken out of a queue has finished its \<^verbatim>\<open>down\<close>.
  \<^verbatim>\<open>do_sleep\<close> gives the processor away for \<^verbatim>\<open>SLEEP_TIME\<close> ticks; the model has no clock, so a thread
  that sleeps may go on at any later time.
\<close>

abbreviation N_phil :: nat where "N_phil \<equiv> 5"
abbreviation TIMES :: nat where "TIMES \<equiv> 4"

definition LEFT :: "nat \<Rightarrow> nat" where "LEFT i = (i + 4) mod N_phil"
definition RIGHT :: "nat \<Rightarrow> nat" where "RIGHT i = (i + 1) mod N_phil"

datatype phil_state = THINKING | HUNGRY | EATING

text \<open>Control points: at the test of the \<^verbatim>\<open>while\<close> loop; in the first \<^verbatim>\<open>do_sleep\<close>, before \<^verbatim>\<open>phi_take_forks_sema\<close>; after its \<^verbatim>\<open>down(&mutex)\<close>; before its \<^verbatim>\<open>up(&mutex)\<close>;
  before \<^verbatim>\<open>down(&s[i])\<close>; after it, eating, in the second \<^verbatim>\<open>do_sleep\<close>; after \<^verbatim>\<open>down(&mutex)\<close> of
  \<^verbatim>\<open>phi_put_forks_sema\<close>; before its \<^verbatim>\<open>up(&mutex)\<close>; after the \<^verbatim>\<open>return\<close>.\<close>

datatype phil_pc = Loop | Think | TakeIn | TakeUp | TakeFork | Eat | PutIn | PutUp | Quit

record table =
  state_sema :: "nat \<Rightarrow> phil_state"
  mutex :: asem
  fork_sem :: "nat \<Rightarrow> asem"
  iter :: "nat \<Rightarrow> nat"
  pc :: "nat \<Rightarrow> phil_pc"

definition phi_test_sema :: "nat \<Rightarrow> table \<Rightarrow> table" where
  "phi_test_sema i g =
     (if state_sema g i = HUNGRY \<and> state_sema g (LEFT i) \<noteq> EATING \<and> state_sema g (RIGHT i) \<noteq> EATING
      then g\<lparr>state_sema := (state_sema g)(i := EATING),
             fork_sem := (fork_sem g)(i := fst (asem_up (fork_sem g i)))\<rparr>
      else g)"

definition blocked :: "table \<Rightarrow> nat \<Rightarrow> bool" where
  "blocked g i \<longleftrightarrow> i \<in> set (snd (mutex g)) \<or> i \<in> set (snd (fork_sem g i))"

definition goto :: "nat \<Rightarrow> phil_pc \<Rightarrow> table \<Rightarrow> table" where
  "goto i c g = g\<lparr>pc := (pc g)(i := c)\<rparr>"

definition phi_take_forks_sema :: "nat \<Rightarrow> table \<Rightarrow> table" where
  "phi_take_forks_sema i g =
     (case pc g i of
        Think \<Rightarrow> goto i TakeIn (g\<lparr>mutex := fst (asem_down i (mutex g))\<rparr>)
      | TakeIn \<Rightarrow> goto i TakeUp (phi_test_sema i (g\<lparr>state_sema := (state_sema g)(i := HUNGRY)\<rparr>))
      | TakeUp \<Rightarrow> goto i TakeFork (g\<lparr>mutex := fst (asem_up (mutex g))\<rparr>)
      | TakeFork \<Rightarrow> goto i Eat (g\<lparr>fork_sem := (fork_sem g)(i := fst (asem_down i (fork_sem g i)))\<rparr>)
      | _ \<Rightarrow> g)"

definition phi_put_forks_sema :: "nat \<Rightarrow> table \<Rightarrow> table" where
  "phi_put_forks_sema i g =
     (case pc g i of
        Eat \<Rightarrow> goto i PutIn (g\<lparr>mutex := fst (asem_down i (mutex g))\<rparr>)
      | PutIn \<Rightarrow> goto i PutUp (phi_test_sema (RIGHT i) (phi_test_sema (LEFT i)
                   (g\<lparr>state_sema := (state_sema g)(i := THINKING)\<rparr>)))
      | PutUp \<Rightarrow> goto i Loop (g\<lparr>mutex := fst (asem_up (mutex g))\<rparr>)
      | _ \<Rightarrow> g)"

definition philosopher_step :: "nat \<Rightarrow> table \<Rightarrow> table" where
  "philosopher_step i g =
     (if pc g i = Loop
      then goto i (if iter g i < TIMES then Think else Quit) (g\<lparr>iter := (iter g)(i := iter g i + 1)\<rparr>)
      else if pc g i \<in> {Think, TakeIn, TakeUp, TakeFork} then phi_take_forks_sema i g
      else phi_put_forks_sema i g)"

inductive phil_step :: "table \<Rightarrow> table \<Rightarrow> bool" where
  move: "i < N_phil \<Longrightarrow> pc g i \<noteq> Quit \<Longrightarrow> \<not> blocked g i \<Longrightarrow> phil_step g (philosopher_step i g)"

definition check_sync_init :: table where
  "check_sync_init = \<lparr>state_sema = (\<lambda>_. THINKING), mutex = (1, []), fork_sem = (\<lambda>_. (0, [])),
     iter = (\<lambda>_. 0), pc = (\<lambda>_. Loop)\<rparr>"

inductive reachable :: "table \<Rightarrow> bool" where
  start: "reachable check_sync_init"
| further: "reachable g \<Longrightarrow> phil_step g g' \<Longrightarrow> reachable g'"

inductive_cases phil_stepE: "phil_step g g'"

subsection \<open>Invariants\<close>

text \<open>The phase of each philosopher determines his state and his semaphore.\<close>

definition phase_ok :: "table \<Rightarrow> nat \<Rightarrow> bool" where
  "phase_ok g i \<longleftrightarrow>
     (case pc g i of
        Loop \<Rightarrow> state_sema g i = THINKING \<and> fork_sem g i = (0, [])
      | Think \<Rightarrow> state_sema g i = THINKING \<and> fork_sem g i = (0, [])
      | TakeIn \<Rightarrow> state_sema g i = THINKING \<and> fork_sem g i = (0, [])
      | TakeUp \<Rightarrow> state_sema g i = HUNGRY \<and> fork_sem g i = (0, []) \<or> state_sema g i = EATING \<and> fork_sem g i = (1, [])
      | TakeFork \<Rightarrow> state_sema g i = HUNGRY \<and> fork_sem g i = (0, []) \<or> state_sema g i = EATING \<and> fork_sem g i = (1, [])
      | Eat \<Rightarrow> state_sema g i = HUNGRY \<and> fork_sem g i = (0, [i]) \<or> state_sema g i = EATING \<and> fork_sem g i = (0, [])
      | PutIn \<Rightarrow> state_sema g i = EATING \<and> fork_sem g i = (0, [])
      | PutUp \<Rightarrow> state_sema g i = THINKING \<and> fork_sem g i = (0, [])
      | Quit \<Rightarrow> state_sema g i = THINKING \<and> fork_sem g i = (0, []))"

definition in_section :: "table \<Rightarrow> nat \<Rightarrow> bool" where
  "in_section g i \<longleftrightarrow> i < N_phil \<and> pc g i \<in> {TakeIn, TakeUp, PutIn, PutUp} \<and> i \<notin> set (snd (mutex g))"

definition mutex_ok :: "table \<Rightarrow> bool" where
  "mutex_ok g \<longleftrightarrow> asem_ok (mutex g) \<and> distinct (snd (mutex g)) \<and>
     (\<forall>i\<in>set (snd (mutex g)). i < N_phil \<and> pc g i \<in> {TakeIn, PutIn}) \<and>
     (if 0 < fst (mutex g) then fst (mutex g) = 1 \<and> (\<forall>i. \<not> in_section g i)
      else \<exists>j. \<forall>i. in_section g i \<longleftrightarrow> i = j)"

definition forks_ok :: "table \<Rightarrow> bool" where
  "forks_ok g \<longleftrightarrow> (\<forall>i<N_phil. state_sema g i = EATING \<longrightarrow> state_sema g (RIGHT i) \<noteq> EATING)"

definition hungry_ok :: "table \<Rightarrow> bool" where
  "hungry_ok g \<longleftrightarrow> (\<forall>i<N_phil. state_sema g i = HUNGRY \<longrightarrow>
     state_sema g (LEFT i) = EATING \<or> state_sema g (RIGHT i) = EATING)"

definition table_inv :: "table \<Rightarrow> bool" where
  "table_inv g \<longleftrightarrow> (\<forall>i<N_phil. phase_ok g i) \<and> mutex_ok g \<and> forks_ok g \<and> hungry_ok g"

lemma neighbours [simp]: "LEFT i < N_phil" "RIGHT i < N_phil"
  by (auto simp: LEFT_def RIGHT_def)

lemma less_5: "i < N_phil \<longleftrightarrow> i \<in> {0, 1, 2, 3, 4 :: nat}"
  by auto

lemma ring_facts:
  assumes "i < N_phil"
  shows "LEFT (RIGHT i) = i" "RIGHT (LEFT i) = i" "LEFT i \<noteq> i" "RIGHT i \<noteq> i" "LEFT i \<noteq> RIGHT i"
  using assms unfolding less_5 LEFT_def RIGHT_def by (elim insertE emptyE; simp)+

lemma goto_sel [simp]:
  "state_sema (goto i c g) = state_sema g" "mutex (goto i c g) = mutex g" "fork_sem (goto i c g) = fork_sem g"
  "pc (goto i c g) = (pc g)(i := c)" "iter (goto i c g) = iter g"
  by (simp_all add: goto_def)

lemma goto_test: "goto i c (phi_test_sema j g) = phi_test_sema j (goto i c g)"
  by (simp add: phi_test_sema_def goto_def)

lemma test_sel [simp]: "mutex (phi_test_sema j g) = mutex g" "pc (phi_test_sema j g) = pc g" "iter (phi_test_sema j g) = iter g"
  by (simp_all add: phi_test_sema_def)

definition hungry_except :: "nat set \<Rightarrow> table \<Rightarrow> bool" where
  "hungry_except A g \<longleftrightarrow> (\<forall>i<N_phil. i \<notin> A \<longrightarrow> state_sema g i = HUNGRY \<longrightarrow>
     state_sema g (LEFT i) = EATING \<or> state_sema g (RIGHT i) = EATING)"

lemma test_forks:
  assumes "forks_ok g" "j < N_phil"
  shows "forks_ok (phi_test_sema j g)"
proof (cases "state_sema g j = HUNGRY \<and> state_sema g (LEFT j) \<noteq> EATING \<and> state_sema g (RIGHT j) \<noteq> EATING")
  case True
  have "state_sema (phi_test_sema j g) (RIGHT i) \<noteq> EATING"
    if i: "i < N_phil" "state_sema (phi_test_sema j g) i = EATING" for i
  proof (cases "i = j")
    case True
    then show ?thesis using \<open>_ \<and> _ \<and> _\<close> ring_facts(4) [OF assms(2)] by (simp add: phi_test_sema_def)
  next
    case False
    then have "state_sema g i = EATING" using i(2) True by (simp add: phi_test_sema_def)
    then have "RIGHT i \<noteq> j" using True ring_facts(1) [OF i(1)] by auto
    then show ?thesis using \<open>state_sema g i = EATING\<close> assms(1) i(1) True
      by (simp add: phi_test_sema_def forks_ok_def)
  qed
  then show ?thesis by (simp add: forks_ok_def)
next
  case False
  then have "phi_test_sema j g = g" unfolding phi_test_sema_def by (rule if_not_P)
  then show ?thesis using assms(1) by simp
qed

lemma test_hungry: "hungry_except A g \<Longrightarrow> hungry_except (A - {j}) (phi_test_sema j g)"
  by (auto simp: hungry_except_def phi_test_sema_def)

lemma test_phase:
  assumes "\<forall>i<N_phil. phase_ok g i" "i < N_phil"
  shows "phase_ok (phi_test_sema j g) i"
  using assms(1) [rule_format, OF assms(2)]
  by (cases "i = j") (auto simp: phase_ok_def phi_test_sema_def asem_up_def split: phil_pc.splits)

lemma phase_ok_cong:
  "state_sema g' i = state_sema g i \<Longrightarrow> fork_sem g' i = fork_sem g i \<Longrightarrow> pc g' i = pc g i \<Longrightarrow> phase_ok g' i = phase_ok g i"
  by (cases "pc g i") (simp_all add: phase_ok_def)

lemma phase_other:
  assumes "\<forall>j<N_phil. phase_ok g j" "\<forall>j<N_phil. j \<noteq> i \<longrightarrow> state_sema g' j = state_sema g j \<and>
      fork_sem g' j = fork_sem g j \<and> pc g' j = pc g j" "phase_ok g' i"
  shows "\<forall>j<N_phil. phase_ok g' j"
proof (intro allI impI)
  fix j assume "j < N_phil"
  then show "phase_ok g' j" using assms phase_ok_cong [of g' j g] by (cases "j = i") auto
qed

lemma take_section:
  assumes "table_inv g" "i < N_phil" "pc g i = TakeIn" "\<not> blocked g i"
  shows "table_inv (philosopher_step i g)"
proof -
  let ?g = "goto i TakeUp (g\<lparr>state_sema := (state_sema g)(i := HUNGRY)\<rparr>)"
  have step: "philosopher_step i g = phi_test_sema i ?g"
    using assms(3) by (simp add: philosopher_step_def phi_take_forks_sema_def goto_test)
  have think: "state_sema g i = THINKING" "fork_sem g i = (0, [])"
    using assms(1-3) by (auto simp: table_inv_def phase_ok_def)
  have "\<forall>j<N_phil. phase_ok ?g j"
    by (rule phase_other [of g i]) (use assms(1) think in \<open>simp_all add: table_inv_def phase_ok_def [of ?g]\<close>)
  then have "\<forall>j<N_phil. phase_ok (philosopher_step i g) j" unfolding step using test_phase by blast
  moreover have "forks_ok ?g" using assms(1) by (auto simp: table_inv_def forks_ok_def)
  then have "forks_ok (philosopher_step i g)" unfolding step by (rule test_forks [OF _ assms(2)])
  moreover have "hungry_except {i} ?g"
    using assms(1) think by (auto simp: table_inv_def hungry_ok_def hungry_except_def)
  from test_hungry [OF this, of i] have "hungry_ok (philosopher_step i g)"
    unfolding step by (simp add: hungry_except_def hungry_ok_def)
  moreover have "mutex_ok (philosopher_step i g)"
  proof -
    have "i \<notin> set (snd (mutex g))" using assms(4) by (simp add: blocked_def)
    moreover have "in_section (philosopher_step i g) j = in_section g j" for j
      using assms(3) unfolding step in_section_def by auto
    ultimately show ?thesis using assms(1) unfolding step table_inv_def mutex_ok_def by auto
  qed
  ultimately show ?thesis by (simp add: table_inv_def)
qed

lemma put_section:
  assumes "table_inv g" "i < N_phil" "pc g i = PutIn" "\<not> blocked g i"
  shows "table_inv (philosopher_step i g)"
proof -
  let ?g = "goto i PutUp (g\<lparr>state_sema := (state_sema g)(i := THINKING)\<rparr>)"
  have step: "philosopher_step i g = phi_test_sema (RIGHT i) (phi_test_sema (LEFT i) ?g)"
    using assms(3) by (simp add: philosopher_step_def phi_put_forks_sema_def goto_test)
  have eat: "state_sema g i = EATING" "fork_sem g i = (0, [])"
    using assms(1-3) by (auto simp: table_inv_def phase_ok_def)
  have "\<forall>j<N_phil. phase_ok ?g j"
    by (rule phase_other [of g i]) (use assms(1) eat in \<open>simp_all add: table_inv_def phase_ok_def [of ?g]\<close>)
  then have "\<forall>j<N_phil. phase_ok (philosopher_step i g) j" unfolding step by (simp add: test_phase)
  moreover have "forks_ok ?g" using assms(1) by (auto simp: table_inv_def forks_ok_def)
  then have "forks_ok (philosopher_step i g)" unfolding step by (intro test_forks) simp_all
  moreover have "hungry_except {LEFT i, RIGHT i} ?g"
    using assms(1) ring_facts [of _] eat unfolding table_inv_def hungry_ok_def hungry_except_def
    by (auto split: if_splits)
  then have "hungry_ok (philosopher_step i g)"
    unfolding step using test_hungry [OF test_hungry, of "{LEFT i, RIGHT i}" ?g "LEFT i" "RIGHT i"]
    by (simp add: hungry_except_def hungry_ok_def)
  moreover have "mutex_ok (philosopher_step i g)"
  proof -
    have "i \<notin> set (snd (mutex g))" using assms(4) by (simp add: blocked_def)
    moreover have "in_section (philosopher_step i g) j = in_section g j" for j
      using assms(3) unfolding step in_section_def by auto
    ultimately show ?thesis using assms(1) unfolding step table_inv_def mutex_ok_def by auto
  qed
  ultimately show ?thesis by (simp add: table_inv_def)
qed

lemma mutex_down_ok:
  assumes "mutex_ok g" "i < N_phil" "pc g i \<notin> {TakeIn, TakeUp, PutIn, PutUp}" "c \<in> {TakeIn, PutIn}"
  shows "mutex_ok (goto i c (g\<lparr>mutex := fst (asem_down i (mutex g))\<rparr>))"
proof -
  let ?g = "goto i c (g\<lparr>mutex := fst (asem_down i (mutex g))\<rparr>)"
  have nq: "i \<notin> set (snd (mutex g))" using assms(1,3) by (auto simp: mutex_ok_def)
  show ?thesis
  proof (cases "0 < fst (mutex g)")
    case True
    then have "in_section ?g j \<longleftrightarrow> j = i" for j
      using assms by (auto simp: mutex_ok_def in_section_def asem_down_def asem_ok_def)
    then show ?thesis using True assms(1) by (auto simp: mutex_ok_def asem_down_def asem_ok_def)
  next
    case False
    then have "in_section ?g j = in_section g j" for j
      using assms nq by (auto simp: in_section_def asem_down_def)
    then show ?thesis using False assms nq by (auto simp: mutex_ok_def asem_down_def asem_ok_def)
  qed
qed

lemma mutex_up_ok:
  assumes "mutex_ok g" "i < N_phil" "pc g i \<in> {TakeUp, PutUp}" "c \<in> {TakeFork, Loop}"
  shows "mutex_ok (goto i c (g\<lparr>mutex := fst (asem_up (mutex g))\<rparr>))"
proof -
  let ?g = "goto i c (g\<lparr>mutex := fst (asem_up (mutex g))\<rparr>)"
  have nq: "i \<notin> set (snd (mutex g))" using assms(1,3) by (auto simp: mutex_ok_def)
  then have i: "in_section g i" using assms(2,3) by (auto simp: in_section_def)
  then have only: "\<not> 0 < fst (mutex g)" "\<And>j. in_section g j \<longleftrightarrow> j = i"
    using assms(1) by (auto simp: mutex_ok_def split: if_splits)
  have v0: "fst (mutex g) = 0" using only(1) assms(1) by (simp add: mutex_ok_def asem_ok_def)
  show ?thesis
  proof (cases "snd (mutex g)")
    case Nil
    then have "\<not> in_section ?g j" for j
      using only(2) [of j] assms(3,4) by (auto simp: in_section_def asem_up_def)
    then show ?thesis using Nil v0 by (simp add: mutex_ok_def asem_up_def asem_ok_def)
  next
    case (Cons w ws)
    have "in_section ?g j \<longleftrightarrow> j = w" for j
      using only(2) [of j] assms Cons nq by (auto simp: in_section_def asem_up_def mutex_ok_def)
    then show ?thesis using Cons v0 assms(1,3) nq by (auto simp: mutex_ok_def asem_up_def asem_ok_def)
  qed
qed

lemma mutex_step:
  assumes inv: "table_inv g" and i: "i < N_phil" and mx: "mutex_ok (goto i c (g\<lparr>mutex := m\<rparr>))"
    and ph: "phase_ok (goto i c (g\<lparr>mutex := m\<rparr>)) i"
  shows "table_inv (goto i c (g\<lparr>mutex := m\<rparr>))"
proof -
  have "\<forall>j<N_phil. phase_ok (goto i c (g\<lparr>mutex := m\<rparr>)) j"
    by (rule phase_other [of g i]) (use inv ph in \<open>simp_all add: table_inv_def\<close>)
  then show ?thesis using inv mx by (simp add: table_inv_def forks_ok_def hungry_ok_def)
qed

lemma fork_step:
  assumes inv: "table_inv g" and i: "i < N_phil" "pc g i = TakeFork"
  shows "table_inv (philosopher_step i g)"
proof -
  let ?g = "goto i Eat (g\<lparr>fork_sem := (fork_sem g)(i := fst (asem_down i (fork_sem g i)))\<rparr>)"
  have step: "philosopher_step i g = ?g" using i by (simp add: philosopher_step_def phi_take_forks_sema_def)
  have pi: "state_sema g i = HUNGRY \<and> fork_sem g i = (0, []) \<or> state_sema g i = EATING \<and> fork_sem g i = (1, [])"
    using inv i by (auto simp: table_inv_def phase_ok_def)
  have "\<forall>j<N_phil. phase_ok ?g j"
  proof (rule phase_other [of g i])
    show "phase_ok ?g i" using pi by (auto simp: phase_ok_def asem_down_def)
  qed (use inv in \<open>simp_all add: table_inv_def\<close>)
  moreover have "in_section ?g j = in_section g j" for j using i by (auto simp: in_section_def)
  then have "mutex_ok ?g" using inv i by (auto simp: table_inv_def mutex_ok_def)
  ultimately show ?thesis unfolding step using inv by (simp add: table_inv_def forks_ok_def hungry_ok_def)
qed

lemma loop_step:
  assumes inv: "table_inv g" and i: "i < N_phil" "pc g i = Loop"
  shows "table_inv (philosopher_step i g)"
proof -
  let ?c = "if iter g i < TIMES then Think else Quit"
  let ?g = "goto i ?c (g\<lparr>iter := (iter g)(i := iter g i + 1)\<rparr>)"
  have step: "philosopher_step i g = ?g" using i by (simp add: philosopher_step_def)
  have think: "state_sema g i = THINKING" "fork_sem g i = (0, [])"
    using inv i by (auto simp: table_inv_def phase_ok_def)
  have "\<forall>j<N_phil. phase_ok ?g j"
  proof (rule phase_other [of g i])
    show "phase_ok ?g i" using think by (simp add: phase_ok_def)
  qed (use inv in \<open>simp_all add: table_inv_def\<close>)
  moreover have "in_section ?g j = in_section g j" for j using i by (auto simp: in_section_def)
  then have "mutex_ok ?g" using inv i by (auto simp: table_inv_def mutex_ok_def)
  ultimately show ?thesis unfolding step using inv by (simp add: table_inv_def forks_ok_def hungry_ok_def)
qed

lemma philosopher_step_inv:
  assumes inv: "table_inv g" and i: "i < N_phil" "pc g i \<noteq> Quit" "\<not> blocked g i"
  shows "table_inv (philosopher_step i g)"
proof -
  have mx: "mutex_ok g" and ph: "phase_ok g i" using inv i by (auto simp: table_inv_def)
  show ?thesis
  proof (cases "pc g i")
    case Think
    have "table_inv (goto i TakeIn (g\<lparr>mutex := fst (asem_down i (mutex g))\<rparr>))"
      by (rule mutex_step [OF inv i(1) mutex_down_ok [OF mx i(1)]]) (use Think ph in \<open>simp_all add: phase_ok_def\<close>)
    then show ?thesis using Think by (simp add: philosopher_step_def phi_take_forks_sema_def)
  next
    case TakeUp
    have "table_inv (goto i TakeFork (g\<lparr>mutex := fst (asem_up (mutex g))\<rparr>))"
      by (rule mutex_step [OF inv i(1) mutex_up_ok [OF mx i(1)]]) (use TakeUp ph in \<open>simp_all add: phase_ok_def\<close>)
    then show ?thesis using TakeUp by (simp add: philosopher_step_def phi_take_forks_sema_def)
  next
    case Eat
    have "state_sema g i = EATING \<and> fork_sem g i = (0, [])"
      using ph i Eat by (auto simp: phase_ok_def blocked_def)
    then have "table_inv (goto i PutIn (g\<lparr>mutex := fst (asem_down i (mutex g))\<rparr>))"
      by (intro mutex_step [OF inv i(1) mutex_down_ok [OF mx i(1)]]) (use Eat in \<open>simp_all add: phase_ok_def\<close>)
    then show ?thesis using Eat by (simp add: philosopher_step_def phi_put_forks_sema_def)
  next
    case PutUp
    have "table_inv (goto i Loop (g\<lparr>mutex := fst (asem_up (mutex g))\<rparr>))"
      by (rule mutex_step [OF inv i(1) mutex_up_ok [OF mx i(1)]]) (use PutUp ph in \<open>simp_all add: phase_ok_def\<close>)
    then show ?thesis using PutUp by (simp add: philosopher_step_def phi_put_forks_sema_def)
  qed (use take_section put_section fork_step loop_step assms in blast)+
qed

lemma waiting_hungry:
  "phase_ok g i \<Longrightarrow> i \<in> set (snd (fork_sem g i)) \<Longrightarrow> state_sema g i = HUNGRY \<and> pc g i = Eat"
  by (cases "pc g i") (auto simp: phase_ok_def)

lemma reachable_inv: "reachable g \<Longrightarrow> table_inv g"
proof (induction rule: reachable.induct)
  case start
  show ?case
    by (auto simp: check_sync_init_def table_inv_def phase_ok_def mutex_ok_def asem_ok_def in_section_def
        forks_ok_def hungry_ok_def)
next
  case (further g g')
  then show ?case by (auto elim!: phil_stepE intro: philosopher_step_inv)
qed

subsection \<open>Properties\<close>

text \<open>C17: two neighbours never eat at the same time. In every reachable state of the five philosopher
  threads, if philosopher \<open>i\<close> is past his \<^verbatim>\<open>down(&s[i])\<close> and has not yet put his forks back, then
  neither his right nor his left neighbour is.\<close>

theorem philosophers_exclusion:
  assumes "reachable g" "i < N_phil" "pc g i \<in> {Eat, PutIn}" "i \<notin> set (snd (fork_sem g i))"
  shows "\<forall>j\<in>{LEFT i, RIGHT i}. \<not> (pc g j \<in> {Eat, PutIn} \<and> j \<notin> set (snd (fork_sem g j)))"
proof -
  have inv: "table_inv g" by (rule reachable_inv [OF assms(1)])
  have eats: "state_sema g j = EATING" if "j < N_phil" "pc g j \<in> {Eat, PutIn}" "j \<notin> set (snd (fork_sem g j))" for j
  proof -
    have "phase_ok g j" using inv that(1) by (simp add: table_inv_def)
    then show ?thesis using that(2,3) by (auto simp: phase_ok_def)
  qed
  have "forks_ok g" using inv by (simp add: table_inv_def)
  then have "state_sema g (RIGHT i) \<noteq> EATING" "state_sema g (LEFT i) \<noteq> EATING"
    using eats [OF assms(2-4)] assms(2) ring_facts(2) [OF assms(2)] by (auto simp: forks_ok_def dest: spec [of _ "LEFT i"])
  then show ?thesis using eats by auto
qed

text \<open>What a thread still has to do: the loop test of each round left, the seven steps of a round, and the final test.\<close>

fun phil_pc_rest :: "phil_pc \<Rightarrow> nat" where
  "phil_pc_rest Think = 8" | "phil_pc_rest TakeIn = 7" | "phil_pc_rest TakeUp = 6" | "phil_pc_rest TakeFork = 5"
| "phil_pc_rest Eat = 4" | "phil_pc_rest PutIn = 3" | "phil_pc_rest PutUp = 2" | "phil_pc_rest Loop = 1"
| "phil_pc_rest Quit = 0"

definition remaining :: "table \<Rightarrow> nat \<Rightarrow> nat" where
  "remaining g i = 8 * (TIMES - iter g i) + phil_pc_rest (pc g i)"

definition round_ok :: "table \<Rightarrow> nat \<Rightarrow> bool" where
  "round_ok g i \<longleftrightarrow> (if pc g i = Quit then iter g i = TIMES + 1 else iter g i \<le> TIMES)"

fun phil_pc_next :: "phil_pc \<Rightarrow> phil_pc" where
  "phil_pc_next Think = TakeIn" | "phil_pc_next TakeIn = TakeUp" | "phil_pc_next TakeUp = TakeFork"
| "phil_pc_next TakeFork = Eat" | "phil_pc_next Eat = PutIn" | "phil_pc_next PutIn = PutUp"
| "phil_pc_next PutUp = Loop" | "phil_pc_next c = c"

lemma step_pc:
  "pc (philosopher_step i g) = (pc g)(i := if pc g i = Loop then if iter g i < TIMES then Think else Quit
      else phil_pc_next (pc g i))"
  by (cases "pc g i") (simp_all add: philosopher_step_def phi_take_forks_sema_def phi_put_forks_sema_def fun_upd_idem)

lemma step_iter:
  "iter (philosopher_step i g) = (if pc g i = Loop then (iter g)(i := iter g i + 1) else iter g)"
  by (cases "pc g i") (simp_all add: philosopher_step_def phi_take_forks_sema_def phi_put_forks_sema_def)

lemma step_remaining:
  assumes "pc g i \<noteq> Quit" "round_ok g i"
  shows "remaining g i = Suc (remaining (philosopher_step i g) i)" "round_ok (philosopher_step i g) i"
    "j \<noteq> i \<Longrightarrow> remaining (philosopher_step i g) j = remaining g j"
    "j \<noteq> i \<Longrightarrow> round_ok (philosopher_step i g) j = round_ok g j"
proof -
  show "remaining g i = Suc (remaining (philosopher_step i g) i)"
    using assms by (cases "pc g i") (auto simp: remaining_def round_ok_def step_pc step_iter)
  show "round_ok (philosopher_step i g) i"
    using assms by (cases "pc g i") (auto simp: round_ok_def step_pc step_iter)
qed (simp_all add: remaining_def round_ok_def step_pc step_iter)

definition work :: "table \<Rightarrow> nat" where
  "work g = (\<Sum>i<N_phil. remaining g i)"

lemma step_work:
  assumes "phil_step g g'" "\<forall>i<N_phil. round_ok g i"
  shows "work g = Suc (work g')" "\<forall>i<N_phil. round_ok g' i"
proof -
  obtain i where i: "i < N_phil" "pc g i \<noteq> Quit" "g' = philosopher_step i g" using assms(1) by (rule phil_stepE)
  note s = step_remaining [OF i(2) assms(2) [rule_format, OF i(1)]]
  show "\<forall>j<N_phil. round_ok g' j" using s(2,4) assms(2) unfolding i(3) by metis
  have split: "(\<Sum>j<N_phil. f j) = f i + (\<Sum>j\<in>{..<N_phil} - {i}. f j)" for f :: "nat \<Rightarrow> nat"
    using i(1) by (simp add: sum.remove)
  have "(\<Sum>j\<in>{..<N_phil} - {i}. remaining g' j) = (\<Sum>j\<in>{..<N_phil} - {i}. remaining g j)"
    unfolding i(3) by (rule sum.cong) (simp_all add: s(3))
  then show "work g = Suc (work g')" unfolding work_def split [of "remaining g"] split [of "remaining g'"]
    using s(1) i(3) by simp
qed

text \<open>A thread that is waiting for its forks has a neighbour who has them.\<close>

lemma waiting_for_neighbour:
  assumes "table_inv g" "i < N_phil" "i \<in> set (snd (fork_sem g i))"
  shows "\<exists>j\<in>{LEFT i, RIGHT i}. state_sema g j = EATING \<and> j \<notin> set (snd (fork_sem g j))"
proof -
  have ph: "\<forall>j<N_phil. phase_ok g j" using assms(1) by (simp add: table_inv_def)
  have "state_sema g i = HUNGRY" using waiting_hungry ph assms(2,3) by blast
  then have "\<exists>j\<in>{LEFT i, RIGHT i}. state_sema g j = EATING" using assms(1,2) by (auto simp: table_inv_def hungry_ok_def)
  then obtain j where j: "j \<in> {LEFT i, RIGHT i}" "state_sema g j = EATING" by blast
  then have "j < N_phil" using neighbours by blast
  then have "j \<notin> set (snd (fork_sem g j))" using waiting_hungry [of g j] ph j(2) by auto
  then show ?thesis using j by blast
qed

text \<open>As long as some thread has not quit, some thread can go on.\<close>

lemma someone_moves:
  assumes inv: "table_inv g" and k: "k < N_phil" "pc g k \<noteq> Quit"
  shows "\<exists>g'. phil_step g g'"
proof (rule ccontr)
  assume "\<not> ?thesis"
  then have all: "\<forall>i<N_phil. pc g i \<noteq> Quit \<longrightarrow> blocked g i" using phil_step.move by blast
  have ph: "phase_ok g i" if "i < N_phil" for i using inv that by (simp add: table_inv_def)
  have in_s: False if "in_section g i" for i
  proof -
    have "i < N_phil" "i \<in> set (snd (fork_sem g i))" using that all by (auto simp: in_section_def blocked_def)
    then show False using waiting_hungry [OF ph] that by (auto simp: in_section_def)
  qed
  have "snd (mutex g) = []"
  proof (cases "0 < fst (mutex g)")
    case True
    then show ?thesis using inv by (simp add: table_inv_def mutex_ok_def asem_ok_def)
  next
    case False
    then obtain j where "in_section g j" using inv by (auto simp: table_inv_def mutex_ok_def)
    then show ?thesis using in_s by blast
  qed
  then have w: "i \<in> set (snd (fork_sem g i))" if "i < N_phil" "pc g i \<noteq> Quit" for i
    using all that by (simp add: blocked_def)
  obtain j where j: "j \<in> {LEFT k, RIGHT k}" "state_sema g j = EATING" "j \<notin> set (snd (fork_sem g j))"
    using waiting_for_neighbour [OF inv k(1) w [OF k]] by blast
  then have jl: "j < N_phil" using neighbours by blast
  then have "pc g j = Quit" using w j(3) by blast
  then show False using ph [OF jl] j(2) by (simp add: phase_ok_def)
qed

lemma run_ok:
  "(phil_step ^^ n) check_sync_init g \<Longrightarrow> table_inv g \<and> (\<forall>i<N_phil. round_ok g i) \<and> work g + n = 165"
proof (induction n arbitrary: g)
  case 0
  then show ?case using reachable_inv [OF start]
    by (auto simp: check_sync_init_def round_ok_def work_def remaining_def)
next
  case (Suc n)
  then obtain g0 where g0: "(phil_step ^^ n) check_sync_init g0" "phil_step g0 g" by auto
  note IH = Suc.IH [OF g0(1)]
  have "table_inv g" using g0(2) IH by (auto elim!: phil_stepE intro: philosopher_step_inv)
  then show ?case using step_work [OF g0(2)] IH by simp
qed

lemma work_zero: "\<forall>i<N_phil. round_ok g i \<Longrightarrow> work g = 0 \<longleftrightarrow> (\<forall>i<N_phil. pc g i = Quit)"
proof -
  assume r: "\<forall>i<N_phil. round_ok g i"
  have "remaining g i = 0 \<longleftrightarrow> pc g i = Quit" if "i < N_phil" for i
    using r that by (cases "pc g i") (auto simp: remaining_def round_ok_def)
  then have "(\<forall>i\<in>{..<N_phil}. remaining g i = 0) \<longleftrightarrow> (\<forall>i<N_phil. pc g i = Quit)" by blast
  then show ?thesis by (simp add: work_def)
qed

text \<open>C18: the five philosophers always finish, whatever the interleaving: there is neither a deadlock nor a lost
  wakeup. After any \<open>n\<close> steps of the test from its start, a philosopher asleep on his own semaphore has a neighbour
  who has the forks and is not asleep on his. No run is longer than 165 steps, and a run that cannot be continued has
  exactly 165 steps: there every thread has left its loop after all its \<^verbatim>\<open>TIMES\<close> rounds, so that the five
  \<^verbatim>\<open>do_wait\<close> calls of \<^verbatim>\<open>check_sync\<close> return.\<close>

theorem philosophers_no_deadlock:
  assumes "(phil_step ^^ n) check_sync_init g"
  shows "(\<forall>i<N_phil. i \<in> set (snd (fork_sem g i)) \<longrightarrow>
      (\<exists>j\<in>{LEFT i, RIGHT i}. state_sema g j = EATING \<and> j \<notin> set (snd (fork_sem g j)))) \<and>
    n \<le> 165 \<and> ((\<exists>g'. phil_step g g') \<longleftrightarrow> n < 165) \<and>
    (n = 165 \<longrightarrow> (\<forall>i<N_phil. pc g i = Quit \<and> iter g i = TIMES + 1 \<and> state_sema g i = THINKING))"
proof (intro conjI allI impI)
  have inv: "table_inv g" and rnd: "\<forall>i<N_phil. round_ok g i" and w: "work g + n = 165" using run_ok [OF assms] by auto
  show "\<exists>j\<in>{LEFT i, RIGHT i}. state_sema g j = EATING \<and> j \<notin> set (snd (fork_sem g j))"
    if "i < N_phil" "i \<in> set (snd (fork_sem g i))" for i by (rule waiting_for_neighbour [OF inv that])
  show "n \<le> 165" using w by simp
  have "(\<exists>g'. phil_step g g') \<longleftrightarrow> (\<exists>i<N_phil. pc g i \<noteq> Quit)"
    using someone_moves [OF inv] by (auto elim: phil_stepE)
  then show "(\<exists>g'. phil_step g g') \<longleftrightarrow> n < 165" using work_zero [OF rnd] w by auto
  assume n: "n = 165"
  fix i assume i: "i < N_phil"
  show q: "pc g i = Quit" using work_zero [OF rnd] w n i by simp
  show "iter g i = TIMES + 1" using rnd i q by (simp add: round_ok_def)
  have "phase_ok g i" using inv i by (simp add: table_inv_def)
  then show "state_sema g i = THINKING" using q by (simp add: phase_ok_def)
qed

text \<open>Philosopher 2 has taken five steps from the start and eats.\<close>

lemma eat_run:
  "(phil_step ^^ 5) check_sync_init ((philosopher_step 2 ^^ 5) check_sync_init)"
  "pc ((philosopher_step 2 ^^ 5) check_sync_init) 2 = Eat"
  "2 \<notin> set (snd (fork_sem ((philosopher_step 2 ^^ 5) check_sync_init) 2))"
proof -
  have "\<forall>n\<in>{0, 1, 2, 3, 4}. pc ((philosopher_step 2 ^^ n) check_sync_init) 2 \<noteq> Quit \<and>
    \<not> blocked ((philosopher_step 2 ^^ n) check_sync_init) 2" by code_simp
  then have step: "phil_step ((philosopher_step 2 ^^ n) check_sync_init) ((philosopher_step 2 ^^ Suc n) check_sync_init)"
    if "n \<in> {0, 1, 2, 3, 4}" for n using phil_step.move [of 2 "(philosopher_step 2 ^^ n) check_sync_init"] that by auto
  have "(phil_step ^^ n) check_sync_init ((philosopher_step 2 ^^ n) check_sync_init)" if "n \<le> 5" for n
    using that
  proof (induction n)
    case (Suc n)
    then have "n \<in> {0, 1, 2, 3, 4}" by auto
    then show ?case using Suc step [of n] by auto
  qed simp
  then show "(phil_step ^^ 5) check_sync_init ((philosopher_step 2 ^^ 5) check_sync_init)" by blast
qed (code_simp+)

lemma run_reachable: "(phil_step ^^ n) check_sync_init g \<Longrightarrow> reachable g"
  by (induction n arbitrary: g) (auto intro: start further)

theorem philosophers_exclusion_witness:
  "let g = (philosopher_step 2 ^^ 5) check_sync_init in
    pc g 2 = Eat \<and> (\<forall>j\<in>{LEFT 2, RIGHT 2}. \<not> (pc g j \<in> {Eat, PutIn} \<and> j \<notin> set (snd (fork_sem g j))))"
  using philosophers_exclusion [OF run_reachable [OF eat_run(1)], of 2] eat_run(2,3) unfolding Let_def by simp

theorem philosophers_no_deadlock_witness:
  "\<exists>g'. phil_step ((philosopher_step 2 ^^ 5) check_sync_init) g'"
  using philosophers_no_deadlock [OF eat_run(1)] by simp

end
