(* ===== verification/Cstring.thy ===== *)
theory Cstring
  imports Kernel_Prelude
begin

section \<open>C strings and memory blocks (libs/string.c)\<close>

text \<open>
  Memory is a function from addresses to bytes. The functions that stop at a NUL byte are
  \<open>partial_function\<close>s (without a NUL byte they run on), the ones with a length argument are total.
  \<open>cstr m a xs\<close> says that the string \<open>xs\<close> (without its NUL) is at address \<open>a\<close>, \<open>bytes m a n\<close> are the
  \<open>n\<close> bytes from \<open>a\<close> on. The lemmas give every function its meaning on strings and byte lists.
\<close>

type_synonym mem = "nat \<Rightarrow> 8 word"

subsection \<open>Operations\<close>

partial_function (option) strlen_loop :: "nat \<Rightarrow> nat \<Rightarrow> mem \<Rightarrow> nat option" where
  "strlen_loop s cnt m = (if m s \<noteq> 0 then strlen_loop (s + 1) (cnt + 1) m else Some cnt)"

definition strlen :: "nat \<Rightarrow> mem \<Rightarrow> nat option" where
  "strlen s m = strlen_loop s 0 m"

fun strnlen_loop :: "nat \<Rightarrow> nat \<Rightarrow> nat \<Rightarrow> mem \<Rightarrow> nat" where
  "strnlen_loop s cnt 0 m = cnt"
| "strnlen_loop s cnt (Suc left) m = (if m s \<noteq> 0 then strnlen_loop (s + 1) (cnt + 1) left m else cnt)"

definition strnlen :: "nat \<Rightarrow> nat \<Rightarrow> mem \<Rightarrow> nat" where
  "strnlen s len m = strnlen_loop s 0 len m"

partial_function (option) strcpy_loop :: "nat \<Rightarrow> nat \<Rightarrow> mem \<Rightarrow> mem option" where
  "strcpy_loop p src m = (
     let m' = m(p := m src)
     in if m src \<noteq> 0 then strcpy_loop (p + 1) (src + 1) m' else Some m')"

definition strcpy :: "nat \<Rightarrow> nat \<Rightarrow> mem \<Rightarrow> mem option" where
  "strcpy dst src m = strcpy_loop dst src m"

fun strncpy :: "nat \<Rightarrow> nat \<Rightarrow> nat \<Rightarrow> mem \<Rightarrow> mem" where
  "strncpy p src 0 m = m"
| "strncpy p src (Suc len) m = (
     let m' = m(p := m src)
     in strncpy (p + 1) (if m' p \<noteq> 0 then src + 1 else src) len m')"

definition strcat :: "nat \<Rightarrow> nat \<Rightarrow> mem \<Rightarrow> mem option" where
  "strcat dst src m = do { n \<leftarrow> strlen dst m; strcpy (dst + n) src m }"

definition byte_diff :: "8 word \<Rightarrow> 8 word \<Rightarrow> int" where
  "byte_diff a b = uint a - uint b"

partial_function (option) strcmp :: "nat \<Rightarrow> nat \<Rightarrow> mem \<Rightarrow> int option" where
  "strcmp s1 s2 m =
     (if m s1 \<noteq> 0 \<and> m s1 = m s2 then strcmp (s1 + 1) (s2 + 1) m else Some (byte_diff (m s1) (m s2)))"

fun strncmp :: "nat \<Rightarrow> nat \<Rightarrow> nat \<Rightarrow> mem \<Rightarrow> int" where
  "strncmp s1 s2 0 m = 0"
| "strncmp s1 s2 (Suc n) m =
     (if m s1 \<noteq> 0 \<and> m s1 = m s2 then strncmp (s1 + 1) (s2 + 1) n m else byte_diff (m s1) (m s2))"

partial_function (option) strchr :: "nat \<Rightarrow> 8 word \<Rightarrow> mem \<Rightarrow> nat option option" where
  "strchr s c m =
     (if m s \<noteq> 0 then if m s = c then Some (Some s) else strchr (s + 1) c m else Some None)"

partial_function (option) strfind :: "nat \<Rightarrow> 8 word \<Rightarrow> mem \<Rightarrow> nat option" where
  "strfind s c m = (if m s \<noteq> 0 then if m s = c then Some s else strfind (s + 1) c m else Some s)"

text \<open>\<^verbatim>\<open>strtol\<close>: white space, sign, base prefix, digits. The value is a 64-bit \<^verbatim>\<open>long\<close>; arithmetic on it that
  overflows is undefined in C, here \<open>None\<close>.\<close>

definition to_long :: "int \<Rightarrow> int option" where
  "to_long x = (if - (2 ^ 63) \<le> x \<and> x < 2 ^ 63 then Some x else None)"

partial_function (option) skip_space :: "nat \<Rightarrow> mem \<Rightarrow> nat option" where
  "skip_space s m = (if m s = 32 \<or> m s = 9 then skip_space (s + 1) m else Some s)"

definition digit_of :: "8 word \<Rightarrow> int option" where
  "digit_of c =
     (if 48 \<le> c \<and> c \<le> 57 then Some (uint c - 48)
      else if 97 \<le> c \<and> c \<le> 122 then Some (uint c - 97 + 10)
      else if 65 \<le> c \<and> c \<le> 90 then Some (uint c - 65 + 10)
      else None)"

partial_function (option) strtol_digits :: "int \<Rightarrow> nat \<Rightarrow> int \<Rightarrow> mem \<Rightarrow> (nat \<times> int) option" where
  "strtol_digits base s val m =
     (case digit_of (m s) of
        None \<Rightarrow> Some (s, val)
      | Some dig \<Rightarrow>
          if base \<le> dig then Some (s, val)
          else do {
            val \<leftarrow> to_long (val * base);
            val \<leftarrow> to_long (val + dig);
            strtol_digits base (s + 1) val m
          })"

definition strtol :: "nat \<Rightarrow> int \<Rightarrow> mem \<Rightarrow> (int \<times> nat) option" where
  "strtol s base m = do {
     s \<leftarrow> skip_space s m;
     let (s, neg) = (if m s = 43 then (s + 1, False) else if m s = 45 then (s + 1, True) else (s, False));
     let (s, base) =
       (if (base = 0 \<or> base = 16) \<and> m s = 48 \<and> m (s + 1) = 120 then (s + 2, 16)
        else if base = 0 \<and> m s = 48 then (s + 1, 8)
        else if base = 0 then (s, 10)
        else (s, base));
     (s, val) \<leftarrow> strtol_digits base s 0 m;
     val \<leftarrow> (if neg then to_long (- val) else Some val);
     Some (val, s)
   }"

fun memset :: "nat \<Rightarrow> 8 word \<Rightarrow> nat \<Rightarrow> mem \<Rightarrow> mem" where
  "memset p c 0 m = m"
| "memset p c (Suc n) m = memset (p + 1) c n (m(p := c))"

fun copy_up :: "nat \<Rightarrow> nat \<Rightarrow> nat \<Rightarrow> mem \<Rightarrow> mem" where
  "copy_up d s 0 m = m"
| "copy_up d s (Suc n) m = copy_up (d + 1) (s + 1) n (m(d := m s))"

fun copy_down :: "nat \<Rightarrow> nat \<Rightarrow> nat \<Rightarrow> mem \<Rightarrow> mem" where
  "copy_down d s 0 m = m"
| "copy_down d s (Suc n) m = copy_down (d - 1) (s - 1) n (m(d - 1 := m (s - 1)))"

definition memmove :: "nat \<Rightarrow> nat \<Rightarrow> nat \<Rightarrow> mem \<Rightarrow> mem" where
  "memmove dst src n m =
     (if src < dst \<and> dst < src + n then copy_down (dst + n) (src + n) n m else copy_up dst src n m)"

definition memcpy :: "nat \<Rightarrow> nat \<Rightarrow> nat \<Rightarrow> mem \<Rightarrow> mem" where
  "memcpy dst src n m = copy_up dst src n m"

fun memcmp :: "nat \<Rightarrow> nat \<Rightarrow> nat \<Rightarrow> mem \<Rightarrow> int" where
  "memcmp s1 s2 0 m = 0"
| "memcmp s1 s2 (Suc n) m = (if m s1 \<noteq> m s2 then byte_diff (m s1) (m s2) else memcmp (s1 + 1) (s2 + 1) n m)"

declare strlen_loop.simps [code] strcpy_loop.simps [code] strcmp.simps [code] strchr.simps [code]
  strfind.simps [code] skip_space.simps [code] strtol_digits.simps [code]

subsection \<open>Strings and byte lists in memory\<close>

definition bytes :: "mem \<Rightarrow> nat \<Rightarrow> nat \<Rightarrow> 8 word list" where
  "bytes m a n = map m [a..<a + n]"

fun cstr :: "mem \<Rightarrow> nat \<Rightarrow> 8 word list \<Rightarrow> bool" where
  "cstr m a [] \<longleftrightarrow> m a = 0"
| "cstr m a (x # xs) \<longleftrightarrow> m a = x \<and> x \<noteq> 0 \<and> cstr m (a + 1) xs"

lemma bytes_simps [simp]: "bytes m a 0 = []" "bytes m a (Suc n) = m a # bytes m (a + 1) n" "length (bytes m a n) = n"
  by (simp_all add: bytes_def upt_conv_Cons del: upt_Suc)

lemma bytes_eq_iff: "bytes m a n = bytes m' b n \<longleftrightarrow> (\<forall>i<n. m (a + i) = m' (b + i))"
  by (auto simp: bytes_def list_eq_iff_nth_eq)

lemma cstr_unique: "cstr m a xs \<Longrightarrow> cstr m a ys \<Longrightarrow> xs = ys"
  by (induction xs arbitrary: a ys) (case_tac ys; auto)+

lemma cstr_cong: "cstr m a xs \<Longrightarrow> \<forall>i\<le>length xs. m' (b + i) = m (a + i) \<Longrightarrow> cstr m' b xs"
proof (induction xs arbitrary: a b)
  case (Cons x xs)
  have "m' (b + 1 + i) = m (a + 1 + i)" if "i \<le> length xs" for i
    using Cons.prems(2) that by (auto dest: spec [of _ "Suc i"])
  moreover have "m' b = m a" using Cons.prems(2) by (auto dest: spec [of _ 0])
  ultimately show ?case using Cons.IH [of "a + 1" "b + 1"] Cons.prems(1) by auto
qed (auto dest: spec [of _ 0])

lemma strlen_loop_ok: "cstr m a xs \<Longrightarrow> strlen_loop a cnt m = Some (cnt + length xs)"
  by (induction xs arbitrary: a cnt) (subst strlen_loop.simps; simp)+

lemma strlen_ok: "cstr m a xs \<Longrightarrow> strlen a m = Some (length xs)"
  by (simp add: strlen_def strlen_loop_ok)

lemma strnlen_loop_ok: "cstr m a xs \<Longrightarrow> strnlen_loop a cnt len m = cnt + min len (length xs)"
  by (induction xs arbitrary: a cnt len) (case_tac len; simp)+

lemma copy_up_ok:
  "\<not> (s < d \<and> d < s + n) \<Longrightarrow> copy_up d s n m = (\<lambda>a. if d \<le> a \<and> a < d + n then m (s + (a - d)) else m a)"
proof (induction n arbitrary: d s m)
  case (Suc n)
  have "copy_up (d + 1) (s + 1) n (m(d := m s)) =
      (\<lambda>a. if d + 1 \<le> a \<and> a < d + 1 + n then (m(d := m s)) (s + 1 + (a - (d + 1))) else (m(d := m s)) a)"
    using Suc.prems by (intro Suc.IH) auto
  then show ?case using Suc.prems by (auto simp: fun_eq_iff Suc_diff_Suc)
qed (auto simp: fun_eq_iff)

lemma copy_down_ok:
  "s < d \<Longrightarrow> copy_down (d + n) (s + n) n m = (\<lambda>a. if d \<le> a \<and> a < d + n then m (s + (a - d)) else m a)"
proof (induction n arbitrary: m)
  case (Suc n)
  have "copy_down (d + n) (s + n) n (m(d + n := m (s + n))) =
      (\<lambda>a. if d \<le> a \<and> a < d + n then (m(d + n := m (s + n))) (s + (a - d)) else (m(d + n := m (s + n))) a)"
    using Suc.prems by (intro Suc.IH)
  then show ?case using Suc.prems by (auto simp: fun_eq_iff)
qed (auto simp: fun_eq_iff)

lemma memmove_ok: "memmove dst src n m = (\<lambda>a. if dst \<le> a \<and> a < dst + n then m (src + (a - dst)) else m a)"
  unfolding memmove_def using copy_up_ok copy_down_ok by auto

lemma memset_ok: "memset p c n m = (\<lambda>a. if p \<le> a \<and> a < p + n then c else m a)"
  by (induction n arbitrary: p m) (auto simp: fun_eq_iff)

lemma memcmp_ok:
  "memcmp a b n m = 0 \<longleftrightarrow> bytes m a n = bytes m b n"
  by (induction n arbitrary: a b) (auto simp: byte_diff_def word_uint_eq_iff)

lemma strcpy_loop_ok:
  "cstr m src xs \<Longrightarrow> dst + length xs < src \<or> src + length xs < dst \<Longrightarrow>
    strcpy_loop dst src m = Some (\<lambda>a. if dst \<le> a \<and> a \<le> dst + length xs then m (src + (a - dst)) else m a)"
proof (induction xs arbitrary: dst src m)
  case Nil
  then show ?case by (subst strcpy_loop.simps) (auto simp: Let_def fun_eq_iff)
next
  case (Cons x xs)
  let ?m = "m(dst := m src)"
  have far: "dst + 1 + length xs < src + 1 \<or> src + 1 + length xs < dst + 1" "\<forall>i\<le>length xs. src + 1 + i \<noteq> dst"
    using Cons.prems(2) by auto
  have "cstr m (src + 1) xs" using Cons.prems(1) by simp
  then have "cstr ?m (src + 1) xs" by (rule cstr_cong) (use far(2) in simp)
  from Cons.IH [OF this far(1)] have "strcpy_loop (dst + 1) (src + 1) ?m =
      Some (\<lambda>a. if dst + 1 \<le> a \<and> a \<le> dst + 1 + length xs then ?m (src + 1 + (a - (dst + 1))) else ?m a)" .
  moreover have "m src \<noteq> 0" using Cons.prems(1) by simp
  ultimately have "strcpy_loop dst src m =
      Some (\<lambda>a. if dst + 1 \<le> a \<and> a \<le> dst + 1 + length xs then ?m (src + 1 + (a - (dst + 1))) else ?m a)"
    by (subst strcpy_loop.simps) (simp only: Let_def if_True not_False_eq_True simp_thms)
  moreover have "(if dst + 1 \<le> a \<and> a \<le> dst + 1 + length xs then ?m (src + 1 + (a - (dst + 1))) else ?m a) =
      (if dst \<le> a \<and> a \<le> dst + length (x # xs) then m (src + (a - dst)) else m a)" for a
  proof (cases "dst + 1 \<le> a \<and> a \<le> dst + 1 + length xs")
    case True
    then have "src + 1 + (a - (dst + 1)) = src + (a - dst)" "src + (a - dst) \<noteq> dst" using Cons.prems(2) by auto
    then show ?thesis using True by simp
  next
    case False
    then show ?thesis by (cases "a = dst") auto
  qed
  ultimately show ?case by simp
qed

fun lexcmp :: "8 word list \<Rightarrow> 8 word list \<Rightarrow> int" where
  "lexcmp [] [] = 0"
| "lexcmp [] (y # ys) = - uint y"
| "lexcmp (x # xs) [] = uint x"
| "lexcmp (x # xs) (y # ys) = (if x = y then lexcmp xs ys else uint x - uint y)"

lemma strcmp_ok: "cstr m a xs \<Longrightarrow> cstr m b ys \<Longrightarrow> strcmp a b m = Some (lexcmp xs ys)"
  by (induction xs ys arbitrary: a b rule: lexcmp.induct) (subst strcmp.simps; simp add: byte_diff_def)+

lemma cstr_nonzero: "cstr m a xs \<Longrightarrow> 0 \<notin> set xs"
  by (induction xs arbitrary: a) auto

lemma lexcmp_zero: "0 \<notin> set xs \<Longrightarrow> 0 \<notin> set ys \<Longrightarrow> lexcmp xs ys = 0 \<longleftrightarrow> xs = ys"
  by (induction xs ys rule: lexcmp.induct) (auto simp: word_uint_eq_iff)

lemma lexcmp_neg:
  "0 \<notin> set xs \<Longrightarrow> 0 \<notin> set ys \<Longrightarrow> lexcmp xs ys < 0 \<longleftrightarrow> (xs, ys) \<in> lexord {(x, y). x < y}"
  by (induction xs ys rule: lexcmp.induct)
    (auto simp: word_less_def word_uint_eq_iff uint_nonnegative not_less order.strict_iff_order)

definition decimal :: "int list \<Rightarrow> int" where
  "decimal ds = foldl (\<lambda>v d. v * 10 + d) 0 ds"

lemma digits_grow: "0 \<le> x \<Longrightarrow> \<forall>d\<in>set ds. 0 \<le> d \<and> d < 10 \<Longrightarrow> (x :: int) \<le> foldl (\<lambda>v d. v * 10 + d) x ds"
proof (induction ds arbitrary: x)
  case (Cons d ds)
  then have "x * 10 + d \<le> foldl (\<lambda>v d. v * 10 + d) (x * 10 + d) ds" by simp
  then show ?case using Cons.prems by simp
qed simp

lemma digit_byte:
  assumes "0 \<le> d" and "d < (10 :: int)"
  shows "uint (of_int (d + 48) :: 8 word) = d + 48"
  by (simp only: uint_word_of_int) (use assms in \<open>simp add: take_bit_int_eq_self\<close>)

lemma strtol_digits_ok:
  "\<forall>d\<in>set ds. 0 \<le> d \<and> d < 10 \<Longrightarrow> cstr m a (map (\<lambda>d. of_int (d + 48)) ds) \<Longrightarrow> 0 \<le> val \<Longrightarrow> val < 2 ^ 63 \<Longrightarrow>
    strtol_digits 10 a val m =
      (let v = foldl (\<lambda>v d. v * 10 + d) val ds in if v < 2 ^ 63 then Some (a + length ds, v) else None)"
proof (induction ds arbitrary: a val)
  case Nil
  then show ?case by (subst strtol_digits.simps) (simp add: digit_of_def word_le_def)
next
  case (Cons d ds)
  have d: "0 \<le> d" "d < 10" using Cons.prems(1) by simp_all
  then have u: "uint (m a) = d + 48" using Cons.prems(2) digit_byte [OF d] by simp
  then have "digit_of (m a) = Some d" using d by (simp add: digit_of_def word_le_def)
  then have step: "strtol_digits 10 a val m = do {
      val \<leftarrow> to_long (val * 10); val \<leftarrow> to_long (val + d); strtol_digits 10 (a + 1) val m }"
    using d by (subst strtol_digits.simps) simp
  let ?w = "val * 10 + d"
  show ?case
  proof (cases "?w < 2 ^ 63")
    case True
    then have "to_long (val * 10) = Some (val * 10)" "to_long ?w = Some ?w" using Cons.prems(3) d by (simp_all add: to_long_def)
    then show ?thesis using step Cons.IH [of "a + 1" ?w] Cons.prems d True by (simp add: Let_def)
  next
    case False
    then have "do { val \<leftarrow> to_long (val * 10); to_long (val + d) } = None" by (simp add: to_long_def)
    then have "strtol_digits 10 a val m = None" using step by (cases "to_long (val * 10)") (auto split: bind_splits)
    moreover have "\<not> foldl (\<lambda>v d. v * 10 + d) ?w ds < 2 ^ 63" using digits_grow [of ?w ds] False Cons.prems d by simp
    ultimately show ?thesis by (simp add: Let_def)
  qed
qed

lemma skip_space_ok:
  "set ws \<subseteq> {32, 9} \<Longrightarrow> cstr m a (ws @ xs) \<Longrightarrow> (\<forall>x y. xs = x # y \<longrightarrow> x \<noteq> 32 \<and> x \<noteq> 9) \<Longrightarrow>
    skip_space a m = Some (a + length ws)"
proof (induction ws arbitrary: a)
  case Nil
  then have "m a \<noteq> 32 \<and> m a \<noteq> 9" by (cases xs) auto
  then show ?case by (subst skip_space.simps) simp
next
  case (Cons w ws)
  then show ?case using Cons.IH [of "a + 1"] by (subst skip_space.simps) auto
qed

subsection \<open>Properties\<close>

text \<open>C37: \<^verbatim>\<open>memmove\<close> copies correctly for every pair of areas, overlapping or not: afterwards the
  destination holds what the source held before, and no other byte has changed.\<close>

theorem memmove_correct:
  "bytes (memmove dst src n m) dst n = bytes m src n \<and>
   (\<forall>a. a < dst \<or> dst + n \<le> a \<longrightarrow> memmove dst src n m a = m a)"
  by (auto simp: memmove_ok bytes_eq_iff)

theorem memmove_correct_witness:
  "bytes (memmove 12 10 5 (\<lambda>a. of_nat a)) 12 5 = bytes (\<lambda>a. of_nat a) 10 5 \<and>
   memmove 12 10 5 (\<lambda>a. of_nat a) 17 = 17"
  using memmove_correct [of 12 10 5 "\<lambda>a. of_nat a"] by (auto dest: spec [of _ 17])

text \<open>C38: \<^verbatim>\<open>strcmp\<close> is the lexicographic comparison of the two strings as unsigned bytes: it returns, its
  result is 0 exactly for equal strings, and negative exactly if the first comes first.\<close>

theorem strcmp_lexicographic:
  assumes "cstr m a xs" "cstr m b ys"
  shows "\<exists>r. strcmp a b m = Some r \<and> (r = 0 \<longleftrightarrow> xs = ys) \<and> (r < 0 \<longleftrightarrow> (xs, ys) \<in> lexord {(x, y). x < y})"
  using strcmp_ok [OF assms] lexcmp_zero lexcmp_neg cstr_nonzero [OF assms(1)] cstr_nonzero [OF assms(2)] by blast

definition sample_mem :: mem where
  "sample_mem = (\<lambda>_. 0)(10 := 97, 11 := 98, 20 := 97, 21 := 99)"

theorem strcmp_lexicographic_witness:
  "\<exists>r. strcmp 10 20 sample_mem = Some r \<and> (r = 0 \<longleftrightarrow> [97, 98] = [97, 99 :: 8 word]) \<and>
    (r < 0 \<longleftrightarrow> ([97, 98], [97, 99]) \<in> lexord {(x :: 8 word, y). x < y})"
  by (rule strcmp_lexicographic) (simp_all add: sample_mem_def)

lemma cstr_append:
  "0 \<notin> set xs \<Longrightarrow> cstr m a (xs @ ys) \<longleftrightarrow> (\<forall>i<length xs. m (a + i) = xs ! i) \<and> cstr m (a + length xs) ys"
proof (induction xs arbitrary: a)
  case (Cons x xs)
  have "(\<forall>i<length (x # xs). m (a + i) = (x # xs) ! i) \<longleftrightarrow> m a = x \<and> (\<forall>i<length xs. m (a + 1 + i) = xs ! i)"
    by (auto simp: less_Suc_eq_0_disj)
  then show ?case using Cons by auto
qed simp

lemma cstr_nth: "cstr m a xs \<Longrightarrow> i < length xs \<Longrightarrow> m (a + i) = xs ! i"
  using cstr_append [of xs m a "[]"] cstr_nonzero by auto

text \<open>Appending with \<^verbatim>\<open>strcat\<close>. For a string \<open>xs\<close> at \<open>dst\<close> and a string \<open>ys\<close> at \<open>src\<close> that does not
  overlap the space for the result, \<^verbatim>\<open>strcat\<close> returns and leaves \<open>xs @ ys\<close> at \<open>dst\<close>; \<^verbatim>\<open>strlen\<close> of it is
  the sum of the lengths, and the source string is unchanged.\<close>

theorem strcat_correct:
  assumes "cstr m dst xs" "cstr m src ys"
    and "dst + length xs + length ys < src \<or> src + length ys < dst"
  shows "\<exists>m'. strcat dst src m = Some m' \<and> cstr m' dst (xs @ ys) \<and> cstr m' src ys \<and>
    strlen dst m' = Some (length xs + length ys)"
proof -
  let ?d = "dst + length xs"
  let ?m = "\<lambda>a. if ?d \<le> a \<and> a \<le> ?d + length ys then m (src + (a - ?d)) else m a"
  have "?d + length ys < src \<or> src + length ys < ?d" using assms(3) by auto
  then have "strcat dst src m = Some ?m"
    using strlen_ok [OF assms(1)] strcpy_loop_ok [OF assms(2)] by (simp add: strcat_def strcpy_def)
  moreover have d: "cstr ?m ?d ys" by (rule cstr_cong [OF assms(2)]) simp
  have "cstr ?m dst (xs @ ys)"
    using d cstr_nth [OF assms(1)] cstr_nonzero [OF assms(1)] by (simp add: cstr_append)
  moreover have "cstr ?m src ys" by (rule cstr_cong [OF assms(2)]) (use assms(3) in auto)
  ultimately show ?thesis using strlen_ok [of ?m dst "xs @ ys"] by auto
qed

theorem strcat_correct_witness:
  "\<exists>m'. strcat 10 20 sample_mem = Some m' \<and> cstr m' 10 ([97, 98] @ [97, 99]) \<and> cstr m' 20 [97, 99] \<and>
    strlen 10 m' = Some (length [97 :: 8 word, 98] + length [97 :: 8 word, 99])"
  by (rule strcat_correct) (simp_all add: sample_mem_def)

text \<open>C39: \<^verbatim>\<open>strtol\<close> reads decimal numbers. On a string of white space, an optional plus or minus sign and at
  least one decimal digit it returns the number and the end of the string whenever the digits denote a
  value \<open>v\<close> below \<open>2 ^ 63\<close>. For any larger value the arithmetic overflows; this includes the numeral of the least
  \<^verbatim>\<open>long\<close>, whose digits are \<open>2 ^ 63\<close>.\<close>

theorem strtol_decimal:
  assumes s: "cstr m a (ws @ sign @ map (\<lambda>d. of_int (d + 48)) ds)" and ws: "set ws \<subseteq> {32, 9}" and sign: "sign \<in> {[], [43], [45]}"
    and ds: "ds \<noteq> []" "\<forall>d\<in>set ds. 0 \<le> d \<and> d < 10"
  shows "strtol a 10 m = (if decimal ds < 2 ^ 63
    then Some (if sign = [45] then - decimal ds else decimal ds, a + length ws + length sign + length ds) else None)"
proof -
  let ?xs = "map (\<lambda>d. of_int (d + 48)) ds :: 8 word list" and ?b = "a + length ws"
  have u: "uint (hd ?xs) = hd ds + 48" "0 \<le> hd ds" "hd ds < 10" using ds digit_byte [of "hd ds"] by (cases ds; simp)+
  have c: "hd ?xs \<noteq> 32" "hd ?xs \<noteq> 9" "hd ?xs \<noteq> 43" "hd ?xs \<noteq> 45"
    using u by (auto simp: word_uint_eq_iff)
  have "sign @ ?xs = x # y \<Longrightarrow> x \<noteq> 32 \<and> x \<noteq> 9" for x y using sign ds(1) c(1,2) by (cases ds) auto
  then have skip: "skip_space a m = Some ?b" using skip_space_ok [OF ws s] by blast
  have "0 \<notin> set ws" using ws by auto
  then have b: "cstr m ?b (sign @ ?xs)" using s cstr_append by blast
  then have d: "cstr m (?b + length sign) ?xs" using sign by auto
  have hd: "m (?b + length sign) = hd ?xs" using d ds(1) by (cases ds) simp_all
  have digits: "strtol_digits 10 (?b + length sign) 0 m =
      (if decimal ds < 2 ^ 63 then Some (?b + length sign + length ds, decimal ds) else None)"
    using strtol_digits_ok [OF ds(2) d, of 0] by (simp add: decimal_def Let_def)
  have nn: "0 \<le> decimal ds" using digits_grow [of 0 ds] ds(2) by (simp add: decimal_def)
  consider "sign = []" | "sign = [43]" | "sign = [45]" using sign by auto
  then show ?thesis
  proof cases
    case 1
    then show ?thesis using skip digits hd c by (simp add: strtol_def)
  next
    case 2
    then show ?thesis using skip digits b by (simp add: strtol_def)
  next
    case 3
    then show ?thesis using skip digits b nn by (simp add: strtol_def to_long_def)
  qed
qed

theorem strtol_decimal_witness:
  "strtol 10 10 ((\<lambda>_. 0)(10 := 32, 11 := 45, 12 := of_int (4 + 48), 13 := of_int (2 + 48))) = Some (- 42, 14)"
  using strtol_decimal [of "(\<lambda>_. 0)(10 := 32, 11 := 45, 12 := of_int (4 + 48), 13 := of_int (2 + 48))" 10 "[32]" "[45]" "[4, 2]"]
  by (simp add: decimal_def)

end
