(* ===== verification/Process.thy ===== *)
theory Process
  imports Sched
begin

section \<open>The process table (process/proc.c, libs/hash.c)\<close>

text \<open>
  Process identifiers, the pid hash table, the list of all processes and the family tree. The
  invariant \<open>proc_table k ps\<close> ties them together for the processes \<open>ps\<close> on \<^verbatim>\<open>proc_list\<close>: the hash
  chains hold exactly these processes, pids are unique, the sibling chains of every process hold
  exactly its children, and no pid lies strictly between \<^verbatim>\<open>last_pid\<close> and \<^verbatim>\<open>next_safe\<close>, which is what
  makes the fast path of \<^verbatim>\<open>get_pid\<close> right. A NULL or stray pointer that the code would follow is
  \<open>None\<close>, like a failed assertion.
\<close>

subsection \<open>Operations\<close>

definition hash32 :: "32 word \<Rightarrow> nat \<Rightarrow> 32 word" where
  "hash32 val bits = drop_bit (32 - bits) (val * 0x9e370001)"

definition pid_hashfn :: "int \<Rightarrow> nat" where
  "pid_hashfn x = unat (hash32 (word_of_int x) 10)"

fun le2proc_list :: "knode \<Rightarrow> nat option" where
  "le2proc_list (ListLink p) = Some p"
| "le2proc_list _ = None"

fun le2proc_hash :: "knode \<Rightarrow> nat option" where
  "le2proc_hash (HashLink p) = Some p"
| "le2proc_hash _ = None"

definition set_links :: "nat \<Rightarrow> kernel \<Rightarrow> kernel option" where
  "set_links p k = do {
     let k = upd_klinks (list_add ProcList (ListLink p)) k;
     let k = upd_proc p (\<lambda>x. x\<lparr>yptr := None\<rparr>) k;
     par \<leftarrow> parent (procs k p);
     let k = upd_proc p (\<lambda>x. x\<lparr>optr := cptr (procs k par)\<rparr>) k;
     let k = (case optr (procs k p) of
                Some q \<Rightarrow> upd_proc q (\<lambda>x. x\<lparr>yptr := Some p\<rparr>) k
              | None \<Rightarrow> k);
     let k = upd_proc par (\<lambda>x. x\<lparr>cptr := Some p\<rparr>) k;
     Some (k\<lparr>nr_process := nr_process k + 1\<rparr>)
   }"

definition remove_links :: "nat \<Rightarrow> kernel \<Rightarrow> kernel option" where
  "remove_links p k = do {
     let k = upd_klinks (list_del (ListLink p)) k;
     let k = (case optr (procs k p) of
                Some q \<Rightarrow> upd_proc q (\<lambda>x. x\<lparr>yptr := yptr (procs k p)\<rparr>) k
              | None \<Rightarrow> k);
     k \<leftarrow> (case yptr (procs k p) of
             Some q \<Rightarrow> Some (upd_proc q (\<lambda>x. x\<lparr>optr := optr (procs k p)\<rparr>) k)
           | None \<Rightarrow> do {
               par \<leftarrow> parent (procs k p);
               Some (upd_proc par (\<lambda>x. x\<lparr>cptr := optr (procs k p)\<rparr>) k)
             });
     Some (k\<lparr>nr_process := nr_process k - 1\<rparr>)
   }"

text \<open>The loop of \<^verbatim>\<open>get_pid\<close>; the jump to \<^verbatim>\<open>repeat\<close> restarts the walk at the list head.\<close>

partial_function (option) pid_scan :: "knode \<Rightarrow> kernel \<Rightarrow> kernel option" where
  "pid_scan le k =
     (let le = list_next le (links k) in
      if le = ProcList then Some k
      else case le2proc_list le of
        None \<Rightarrow> None
      | Some p \<Rightarrow>
          if pid (procs k p) = last_pid k then
            let k = k\<lparr>last_pid := last_pid k + 1\<rparr> in
            if next_safe k \<le> last_pid k then
              let k = (if MAX_PID \<le> last_pid k then k\<lparr>last_pid := 1\<rparr> else k) in
              pid_scan ProcList (k\<lparr>next_safe := MAX_PID\<rparr>)
            else pid_scan le k
          else if last_pid k < pid (procs k p) \<and> pid (procs k p) < next_safe k then
            pid_scan le (k\<lparr>next_safe := pid (procs k p)\<rparr>)
          else pid_scan le k)"

definition get_pid :: "kernel \<Rightarrow> (int \<times> kernel) option" where
  "get_pid k = do {
     let k = k\<lparr>last_pid := last_pid k + 1\<rparr>;
     k \<leftarrow> (if MAX_PID \<le> last_pid k then pid_scan ProcList (k\<lparr>last_pid := 1, next_safe := MAX_PID\<rparr>)
           else if next_safe k \<le> last_pid k then pid_scan ProcList (k\<lparr>next_safe := MAX_PID\<rparr>)
           else Some k);
     Some (last_pid k, k)
   }"

definition hash_proc :: "nat \<Rightarrow> kernel \<Rightarrow> kernel" where
  "hash_proc p k = upd_klinks (list_add (HashList (pid_hashfn (pid (procs k p)))) (HashLink p)) k"

definition unhash_proc :: "nat \<Rightarrow> kernel \<Rightarrow> kernel" where
  "unhash_proc p k = upd_klinks (list_del (HashLink p)) k"

partial_function (option) find_proc_loop :: "knode \<Rightarrow> knode \<Rightarrow> int \<Rightarrow> kernel \<Rightarrow> nat option option" where
  "find_proc_loop lst le n k =
     (let le = list_next le (links k) in
      if le = lst then Some None
      else case le2proc_hash le of
        None \<Rightarrow> None
      | Some p \<Rightarrow> if pid (procs k p) = n then Some (Some p) else find_proc_loop lst le n k)"

definition find_proc :: "int \<Rightarrow> kernel \<Rightarrow> nat option option" where
  "find_proc n k =
     (if 0 < n \<and> n < MAX_PID then
        find_proc_loop (HashList (pid_hashfn n)) (HashList (pid_hashfn n)) n k
      else Some None)"

text \<open>The critical section of \<^verbatim>\<open>do_fork\<close> and the one of \<^verbatim>\<open>do_wait\<close>.\<close>

definition enter_table :: "nat \<Rightarrow> kernel \<Rightarrow> kernel option" where
  "enter_table p k = do {
     (n, k) \<leftarrow> get_pid k;
     let k = upd_proc p (\<lambda>x. x\<lparr>pid := n\<rparr>) k;
     let k = hash_proc p k;
     set_links p k
   }"

definition leave_table :: "nat \<Rightarrow> kernel \<Rightarrow> kernel option" where
  "leave_table p k = remove_links p (unhash_proc p k)"

declare pid_scan.simps [code] find_proc_loop.simps [code]

subsection \<open>Process identifiers\<close>

definition pids :: "kernel \<Rightarrow> nat list \<Rightarrow> int list" where
  "pids k ps = map (\<lambda>p. pid (procs k p)) ps"

definition pid_inv :: "kernel \<Rightarrow> nat list \<Rightarrow> bool" where
  "pid_inv k ps \<longleftrightarrow> 1 \<le> last_pid k \<and> last_pid k \<le> MAX_PID \<and> next_safe k \<le> MAX_PID \<and>
     (\<forall>n\<in>set (pids k ps). \<not> (last_pid k < n \<and> n < next_safe k))"

text \<open>Distance from \<open>l\<close> forward to the free pid \<open>f\<close>, in the cycle \<open>1, ..., MAX_PID - 1\<close>.\<close>

definition pid_dist :: "int \<Rightarrow> int \<Rightarrow> nat" where
  "pid_dist f l = nat (if l \<le> f then f - l else f + MAX_PID - 1 - l)"

lemma pid_dist_step:
  assumes "1 \<le> f" "f < MAX_PID" "1 \<le> l" "l < MAX_PID" "l \<noteq> f"
  shows "pid_dist f (if MAX_PID \<le> l + 1 then 1 else l + 1) < pid_dist f l"
  using assms by (auto simp: pid_dist_def)

text \<open>What the walk knows about the processes \<open>us\<close> it has passed.\<close>

definition scan_inv :: "kernel \<Rightarrow> nat list \<Rightarrow> bool" where
  "scan_inv k us \<longleftrightarrow> 1 \<le> last_pid k \<and> last_pid k < next_safe k \<and> next_safe k \<le> MAX_PID \<and>
     (\<forall>n\<in>set (pids k us). n \<noteq> last_pid k \<and> \<not> (last_pid k < n \<and> n < next_safe k))"

lemma pid_scan_ok:
  assumes "dll (links k) ProcList (map ListLink ps)" "ps = us @ vs" "scan_inv k us"
    and "1 \<le> f" "f < MAX_PID" "f \<notin> set (pids k ps)"
  shows "\<exists>l s. pid_scan (last (ProcList # map ListLink us)) k = Some (k\<lparr>last_pid := l, next_safe := s\<rparr>) \<and>
    scan_inv (k\<lparr>last_pid := l, next_safe := s\<rparr>) ps"
  using assms
proof (induction "pid_dist f (last_pid k) * Suc (length ps) + length vs" arbitrary: k us vs rule: less_induct)
  case less
  note dll = less.prems(1) and ps = less.prems(2) and inv = less.prems(3) and f = less.prems(4-6)
  have nxt: "list_next (last (ProcList # map ListLink us)) (links k) = hd (map ListLink vs @ [ProcList])"
    using dll_next_last [of "links k" ProcList "map ListLink us" "map ListLink vs"] dll ps
    by (simp add: list_next_def)
  show ?case
  proof (cases vs)
    case Nil
    then have "pid_scan (last (ProcList # map ListLink us)) k = Some (k\<lparr>last_pid := last_pid k, next_safe := next_safe k\<rparr>)"
      using nxt by (subst pid_scan.simps) simp
    then show ?thesis using inv ps Nil by fastforce
  next
    case (Cons p vs')
    let ?le = "last (ProcList # map ListLink (us @ [p]))"
    have le: "list_next (last (ProcList # map ListLink us)) (links k) = ListLink p" using nxt Cons by simp
    have ps': "ps = (us @ [p]) @ vs'" and n: "length vs = Suc (length vs')" using ps Cons by simp_all
    have p: "pid (procs k p) \<in> set (pids k ps)" by (simp add: ps' pids_def)
    note unf = pid_scan.simps [of "last (ProcList # map ListLink us)" k] and nf = f(3) [unfolded pids_def]
    let ?l = "last_pid k + 1"
    show ?thesis
    proof (cases "pid (procs k p) = last_pid k")
      case hit: True
      have d: "pid_dist f (if MAX_PID \<le> ?l then 1 else ?l) < pid_dist f (last_pid k)"
        by (rule pid_dist_step) (use inv f hit p in \<open>auto simp: scan_inv_def\<close>)
      then have m: "pid_dist f (if MAX_PID \<le> ?l then 1 else ?l) * Suc (length ps) + length ps <
          pid_dist f (last_pid k) * Suc (length ps) + length vs"
        using mult_le_mono1 [of "Suc (pid_dist f (if MAX_PID \<le> ?l then 1 else ?l))" "pid_dist f (last_pid k)" "Suc (length ps)"] n
        by simp
      show ?thesis
      proof (cases "next_safe k \<le> ?l")
        case True
        let ?k = "k\<lparr>last_pid := if MAX_PID \<le> ?l then 1 else ?l, next_safe := MAX_PID\<rparr>"
        have "pid_scan (last (ProcList # map ListLink us)) k = pid_scan ProcList ?k"
          unfolding unf le using hit True by simp
        moreover have "scan_inv ?k []" using inv by (simp add: scan_inv_def pids_def)
        ultimately show ?thesis
          using less.hyps [of ?k ps "[]"] m dll f by (fastforce simp: pids_def)
      next
        case False
        let ?k = "k\<lparr>last_pid := ?l\<rparr>"
        have "pid_scan (last (ProcList # map ListLink us)) k = pid_scan ?le ?k"
          unfolding unf le using hit False by simp
        moreover have "scan_inv ?k (us @ [p])" using inv hit False by (fastforce simp: scan_inv_def pids_def)
        moreover have "\<not> MAX_PID \<le> ?l" using inv False by (simp add: scan_inv_def)
        ultimately show ?thesis
          using less.hyps [of ?k vs' "us @ [p]"] m n ps' dll f by (fastforce simp: pids_def)
      qed
    next
      case miss: False
      let ?s = "if last_pid k < pid (procs k p) \<and> pid (procs k p) < next_safe k then pid (procs k p) else next_safe k"
      let ?k = "k\<lparr>next_safe := ?s\<rparr>"
      have "pid_scan (last (ProcList # map ListLink us)) k = pid_scan ?le ?k"
        unfolding unf le using miss by (simp add: Let_def)
      moreover have "scan_inv ?k (us @ [p])" using inv miss by (fastforce simp: scan_inv_def pids_def)
      ultimately show ?thesis
        using less.hyps [of ?k vs' "us @ [p]"] n ps' dll f by (fastforce simp: pids_def)
    qed
  qed
qed

lemma free_pid:
  assumes "int (length ps) < MAX_PROCESS"
  obtains f where "1 \<le> f" "f < MAX_PID" "f \<notin> set (pids k ps)"
proof -
  have "card (set (pids k ps)) \<le> length ps" using card_length [of "pids k ps"] by (simp add: pids_def)
  then have "card (set (pids k ps)) < card {1..<MAX_PID}" using assms by simp
  then have "\<not> {1..<MAX_PID} \<subseteq> set (pids k ps)"
    using card_mono [of "set (pids k ps)" "{1..<MAX_PID}"] by auto
  then obtain f where "f \<in> {1..<MAX_PID}" "f \<notin> set (pids k ps)" by blast
  then show ?thesis using that [of f] by simp
qed

lemma get_pid_ok:
  assumes "dll (links k) ProcList (map ListLink ps)" "pid_inv k ps" "int (length ps) < MAX_PROCESS"
  shows "\<exists>n s. get_pid k = Some (n, k\<lparr>last_pid := n, next_safe := s\<rparr>) \<and>
    0 < n \<and> n < MAX_PID \<and> n \<notin> set (pids k ps) \<and> pid_inv (k\<lparr>last_pid := n, next_safe := s\<rparr>) ps"
proof -
  obtain f where f: "1 \<le> f" "f < MAX_PID" "f \<notin> set (pids k ps)" using free_pid [OF assms(3)] .
  have scan: ?thesis if h: "get_pid k = pid_scan ProcList k1 \<bind> (\<lambda>k. Some (last_pid k, k))"
    "k1 = k\<lparr>last_pid := l, next_safe := MAX_PID\<rparr>" "1 \<le> l" "l < MAX_PID" for k1 l
  proof -
    have "scan_inv k1 []" using h by (simp add: scan_inv_def pids_def)
    then obtain n s where "pid_scan ProcList k1 = Some (k1\<lparr>last_pid := n, next_safe := s\<rparr>)"
      "scan_inv (k1\<lparr>last_pid := n, next_safe := s\<rparr>) ps"
      using pid_scan_ok [of k1 ps "[]" ps f] assms(1) f h(2) by (auto simp: pids_def)
    then show ?thesis using h by (auto simp: scan_inv_def pid_inv_def pids_def)
  qed
  show ?thesis
  proof (cases "MAX_PID \<le> last_pid k + 1")
    case True
    then show ?thesis using scan [of _ 1] by (simp add: get_pid_def)
  next
    case False
    note lt = this
    show ?thesis
    proof (cases "next_safe k \<le> last_pid k + 1")
      case True
      then show ?thesis using scan [of _ "last_pid k + 1"] lt assms(2) by (simp add: get_pid_def pid_inv_def)
    next
      case False
      then have "get_pid k = Some (last_pid k + 1, k\<lparr>last_pid := last_pid k + 1, next_safe := next_safe k\<rparr>)"
        using lt by (simp add: get_pid_def)
      moreover have "last_pid k + 1 \<notin> set (pids k ps)" using assms(2) False by (auto simp: pid_inv_def)
      moreover have "pid_inv (k\<lparr>last_pid := last_pid k + 1, next_safe := next_safe k\<rparr>) ps"
        using assms(2) lt by (auto simp: pid_inv_def pids_def)
      moreover have "0 < last_pid k + 1" "last_pid k + 1 < MAX_PID" using assms(2) lt by (auto simp: pid_inv_def)
      ultimately show ?thesis by blast
    qed
  qed
qed

subsection \<open>The hash table\<close>

definition hash_inv :: "kernel \<Rightarrow> nat list \<Rightarrow> bool" where
  "hash_inv k ps \<longleftrightarrow> (\<forall>h<1024. \<exists>hs. dll (links k) (HashList h) (map HashLink hs) \<and>
     set hs = {p \<in> set ps. pid_hashfn (pid (procs k p)) = h})"

lemma pid_hashfn_bound: "pid_hashfn n < 1024"
proof -
  have "unat (drop_bit 22 (x :: 32 word)) < 1024" for x
    using unsigned_less [of x, where 'a = nat]
    by (simp only: unat_drop_bit_eq drop_bit_nat_def) (simp add: less_mult_imp_div_less)
  then show ?thesis by (simp add: pid_hashfn_def hash32_def)
qed

lemma find_proc_loop_ok:
  "dll (links k) lst (map HashLink (us @ vs)) \<Longrightarrow>
    find_proc_loop lst (last (lst # map HashLink us)) n k = Some (List.find (\<lambda>p. pid (procs k p) = n) vs)"
proof (induction vs arbitrary: us)
  case Nil
  then show ?case
    using dll_next_last [of "links k" lst "map HashLink us" "[]"]
    by (subst find_proc_loop.simps) (simp add: list_next_def)
next
  case (Cons p vs)
  have "list_next (last (lst # map HashLink us)) (links k) = HashLink p"
    using dll_next_last [of "links k" lst "map HashLink us" "map HashLink (p # vs)"] Cons.prems
    by (simp add: list_next_def)
  moreover have "lst \<noteq> HashLink p" using dll_distinct [OF Cons.prems] by auto
  moreover have "find_proc_loop lst (HashLink p) n k = Some (List.find (\<lambda>p. pid (procs k p) = n) vs)"
    using Cons.IH [of "us @ [p]"] Cons.prems by simp
  ultimately show ?case by (subst find_proc_loop.simps) (simp add: Let_def)
qed

lemma find_SomeD: "List.find P xs = Some x \<Longrightarrow> x \<in> set xs \<and> P x"
  by (induction xs) (auto split: if_splits)

lemma find_proc_ok:
  assumes "hash_inv k ps" "inj_on (\<lambda>p. pid (procs k p)) (set ps)" "\<forall>p\<in>set ps. 0 < pid (procs k p) \<and> pid (procs k p) < MAX_PID"
  shows "\<exists>r. find_proc n k = Some r \<and>
    (\<forall>p. r = Some p \<longleftrightarrow> p \<in> set ps \<and> pid (procs k p) = n)"
proof (cases "0 < n \<and> n < MAX_PID")
  case True
  obtain hs where hs: "dll (links k) (HashList (pid_hashfn n)) (map HashLink hs)"
    "set hs = {p \<in> set ps. pid_hashfn (pid (procs k p)) = pid_hashfn n}"
    using assms(1) pid_hashfn_bound [of n] unfolding hash_inv_def by blast
  let ?r = "List.find (\<lambda>p. pid (procs k p) = n) hs"
  have "find_proc n k = Some ?r"
    using find_proc_loop_ok [of k "HashList (pid_hashfn n)" "[]" hs n] hs(1) True by (simp add: find_proc_def)
  moreover have "?r = Some p \<longleftrightarrow> p \<in> set ps \<and> pid (procs k p) = n" for p
  proof
    assume "?r = Some p"
    then show "p \<in> set ps \<and> pid (procs k p) = n" using hs(2) find_SomeD by fastforce
  next
    assume p: "p \<in> set ps \<and> pid (procs k p) = n"
    then have "p \<in> set hs" using hs(2) by simp
    then obtain q where q: "?r = Some q" using p by (cases ?r) (auto simp: find_None_iff)
    then have "q \<in> set ps" "pid (procs k q) = n" using hs(2) find_SomeD [OF q] by auto
    then show "?r = Some p" using p q assms(2) by (auto dest: inj_onD)
  qed
  ultimately show ?thesis by blast
next
  case False
  then show ?thesis using assms(3) by (auto simp: find_proc_def)
qed

subsection \<open>The family tree\<close>

text \<open>The chain of children from the youngest on: \<open>Y\<close> and \<open>O'\<close> are the fields \<^verbatim>\<open>yptr\<close> and \<^verbatim>\<open>optr\<close>.\<close>

fun siblings :: "(nat \<Rightarrow> nat option) \<Rightarrow> (nat \<Rightarrow> nat option) \<Rightarrow> nat option \<Rightarrow> nat option \<Rightarrow> nat list \<Rightarrow> bool" where
  "siblings Y O' y c [] \<longleftrightarrow> c = None"
| "siblings Y O' y c (x # xs) \<longleftrightarrow> c = Some x \<and> Y x = y \<and> siblings Y O' (Some x) (O' x) xs"

lemma siblings_cong:
  "siblings Y O' y c xs \<Longrightarrow> (\<And>x. x \<in> set xs \<Longrightarrow> Y2 x = Y x \<and> O2 x = O' x) \<Longrightarrow> siblings Y2 O2 y c xs"
  by (induction xs arbitrary: y c) auto

lemma siblings_push:
  assumes "siblings Y O' None c xs" "x \<notin> set xs" "distinct xs"
  shows "siblings ((case c of Some q \<Rightarrow> Y(q := Some x) | None \<Rightarrow> Y)(x := None)) (O'(x := c)) None (Some x) (x # xs)"
proof (cases xs)
  case (Cons q zs)
  then have "siblings ((Y(q := Some x))(x := None)) (O'(x := c)) (Some q) (O' q) zs"
    using assms by (auto intro: siblings_cong [of Y O' "Some q" "O' q" zs])
  then show ?thesis using Cons assms by auto
qed (use assms in auto)

lemma siblings_younger:
  "siblings Y O' y c (us @ x # vs) \<Longrightarrow> Y x = (if us = [] then y else Some (last us))"
  by (induction us arbitrary: y c) auto

lemma siblings_older: "siblings Y O' y c (us @ x # vs) \<Longrightarrow> O' x = Some q \<Longrightarrow> q \<in> set vs"
  by (induction us arbitrary: y c) (cases vs; auto)+

lemma siblings_del:
  assumes "siblings Y O' y c (us @ x # vs)" "distinct (us @ x # vs)" "\<And>q. y = Some q \<Longrightarrow> q \<notin> set (us @ x # vs)"
  shows "siblings (case O' x of Some q \<Rightarrow> Y(q := Y x) | None \<Rightarrow> Y)
    (case Y x of Some q \<Rightarrow> O'(q := O' x) | None \<Rightarrow> O') y (if us = [] then O' x else c) (us @ vs)"
  using assms
proof (induction us arbitrary: y c)
  case Nil
  show ?case
  proof (cases vs)
    case (Cons v ws)
    then have "siblings (Y(v := y)) (case y of Some q \<Rightarrow> O'(q := O' x) | None \<Rightarrow> O') (Some v) (O' v) ws"
      using Nil.prems by (cases y) (auto intro: siblings_cong [of Y O' "Some v" "O' v" ws])
    then show ?thesis using Nil.prems Cons by (cases y) (auto simp: fun_upd_def cong: if_cong)
  qed (use Nil in auto)
next
  case (Cons u us)
  have y: "Y x = Some (last (u # us))"
    using siblings_younger [OF Cons.prems(1)] by simp
  have o: "q \<in> set vs" if "O' x = Some q" for q
    using siblings_older [OF Cons.prems(1) that] .
  let ?Y = "case O' x of Some q \<Rightarrow> Y(q := Y x) | None \<Rightarrow> Y" and ?O = "O'(last (u # us) := O' x)"
  have "siblings ?Y ?O (Some u) (if us = [] then O' x else O' u) (us @ vs)"
    using Cons.IH [of "Some u" "O' u"] Cons.prems y by (cases "us = []") (auto simp: fun_upd_def)
  moreover have "?Y u = y" using Cons.prems o by (cases "O' x") auto
  moreover have "?O u = (if us = [] then O' x else O' u)" using Cons.prems(2) by auto
  ultimately show ?case using y Cons.prems(1) by (cases "us = []") (auto simp: fun_upd_def)
qed

abbreviation yptrs :: "kernel \<Rightarrow> nat \<Rightarrow> nat option" where "yptrs k \<equiv> (\<lambda>p. yptr (procs k p))"
abbreviation optrs :: "kernel \<Rightarrow> nat \<Rightarrow> nat option" where "optrs k \<equiv> (\<lambda>p. optr (procs k p))"

definition children :: "kernel \<Rightarrow> nat list \<Rightarrow> nat \<Rightarrow> nat set" where
  "children k ps q = {p \<in> set ps. parent (procs k p) = Some q}"

definition child_chain :: "kernel \<Rightarrow> nat \<Rightarrow> nat list \<Rightarrow> bool" where
  "child_chain k q cs \<longleftrightarrow> distinct cs \<and> siblings (yptrs k) (optrs k) None (cptr (procs k q)) cs"

text \<open>Every process of the table has its children, and only them, on its chain; every parent is
  the idle process or in the table itself.\<close>

definition family_inv :: "kernel \<Rightarrow> nat list \<Rightarrow> bool" where
  "family_inv k ps \<longleftrightarrow>
     (\<forall>q\<in>set (idleproc k # ps). \<exists>cs. child_chain k q cs \<and> set cs = children k ps q) \<and>
     (\<forall>p\<in>set ps. \<exists>q\<in>set (idleproc k # ps). parent (procs k p) = Some q)"

definition proc_table :: "kernel \<Rightarrow> nat list \<Rightarrow> bool" where
  "proc_table k ps \<longleftrightarrow>
     dll (links k) ProcList (map ListLink ps) \<and> idleproc k \<notin> set ps \<and> nr_process k = int (length ps) + 1 \<and>
     inj_on (\<lambda>p. pid (procs k p)) (set ps) \<and> (\<forall>p\<in>set ps. 0 < pid (procs k p) \<and> pid (procs k p) < MAX_PID) \<and>
     pid_inv k ps \<and> hash_inv k ps \<and> family_inv k ps"

lemma child_chain_cong:
  assumes "child_chain k q cs" "cptr (procs k' q) = cptr (procs k q)"
    and "\<And>x. x \<in> set cs \<Longrightarrow> yptr (procs k' x) = yptr (procs k x) \<and> optr (procs k' x) = optr (procs k x)"
  shows "child_chain k' q cs"
  using assms siblings_cong [of "yptrs k" "optrs k" None "cptr (procs k q)" cs "yptrs k'" "optrs k'"]
  by (auto simp: child_chain_def)

lemma child_chain_head: "child_chain k q cs \<Longrightarrow> cptr (procs k q) = Some c \<Longrightarrow> c \<in> set cs"
  by (cases cs) (auto simp: child_chain_def)

lemma hash_inv_cong:
  assumes "hash_inv k ps" "same_on A (links k) (links k')" "range HashList \<union> HashLink ` set ps \<subseteq> A"
    and "\<And>p. p \<in> set ps \<Longrightarrow> pid (procs k' p) = pid (procs k p)"
  shows "hash_inv k' ps"
  unfolding hash_inv_def
proof (intro allI impI)
  fix h :: nat assume "h < 1024"
  then obtain hs where hs: "dll (links k) (HashList h) (map HashLink hs)"
    "set hs = {p \<in> set ps. pid_hashfn (pid (procs k p)) = h}" using assms(1) unfolding hash_inv_def by blast
  have "dll (links k') (HashList h) (map HashLink hs)"
    by (rule dll_keep [OF hs(1) assms(2)]) (use assms(3) hs(2) in auto)
  moreover have "set hs = {p \<in> set ps. pid_hashfn (pid (procs k' p)) = h}" using hs(2) assms(4) by auto
  ultimately show "\<exists>hs. dll (links k') (HashList h) (map HashLink hs) \<and>
     set hs = {p \<in> set ps. pid_hashfn (pid (procs k' p)) = h}" by blast
qed

text \<open>The table depends only on the entries, fields and links of its processes.\<close>

definition table_nodes :: "nat list \<Rightarrow> knode set" where
  "table_nodes ps = insert ProcList (range HashList \<union> ListLink ` set ps \<union> HashLink ` set ps)"

definition same_family :: "kernel \<Rightarrow> kernel \<Rightarrow> nat \<Rightarrow> bool" where
  "same_family k k' x \<longleftrightarrow> cptr (procs k' x) = cptr (procs k x) \<and> yptr (procs k' x) = yptr (procs k x) \<and>
     optr (procs k' x) = optr (procs k x) \<and> parent (procs k' x) = parent (procs k x)"

lemma family_inv_cong:
  assumes "family_inv k ps" "\<And>x. x \<in> set (idleproc k # ps) \<Longrightarrow> same_family k k' x" "idleproc k' = idleproc k"
  shows "family_inv k' ps"
proof -
  have ch: "children k' ps q = children k ps q" for q using assms(2) by (auto simp: children_def same_family_def)
  have "\<exists>cs. child_chain k' q cs \<and> set cs = children k' ps q" if q: "q \<in> set (idleproc k # ps)" for q
  proof -
    obtain cs where cs: "child_chain k q cs" "set cs = children k ps q" using assms(1) q by (auto simp: family_inv_def)
    have "child_chain k' q cs"
      by (rule child_chain_cong [OF cs(1)]) (use assms(2) q cs(2) in \<open>auto simp: same_family_def children_def\<close>)
    then show ?thesis using cs(2) ch by blast
  qed
  moreover have "\<forall>p\<in>set ps. \<exists>q\<in>set (idleproc k # ps). parent (procs k' p) = Some q"
    using assms(1,2) by (auto simp: family_inv_def same_family_def)
  ultimately show ?thesis using assms(3) by (simp add: family_inv_def)
qed

lemma proc_table_local:
  assumes "proc_table k ps" "same_on (table_nodes ps) (links k) (links k')"
    and "\<And>x. x \<in> set (idleproc k # ps) \<Longrightarrow> same_family k k' x \<and> pid (procs k' x) = pid (procs k x)"
    and "nr_process k' = nr_process k" "last_pid k' = last_pid k" "next_safe k' = next_safe k" "idleproc k' = idleproc k"
  shows "proc_table k' ps"
proof -
  have "dll (links k) ProcList (map ListLink ps)" using assms(1) by (simp add: proc_table_def)
  then have "dll (links k') ProcList (map ListLink ps)"
    by (rule dll_keep [OF _ assms(2)]) (auto simp: table_nodes_def)
  moreover have "hash_inv k' ps"
    by (rule hash_inv_cong [OF _ assms(2)]) (use assms(1,3) in \<open>auto simp: proc_table_def table_nodes_def\<close>)
  moreover have "family_inv k' ps"
    by (rule family_inv_cong [of k]) (use assms(1,3,7) in \<open>auto simp: proc_table_def\<close>)
  moreover have "pids k' ps = pids k ps" using assms(3) by (simp add: pids_def)
  moreover have "inj_on (\<lambda>p. pid (procs k' p)) (set ps) = inj_on (\<lambda>p. pid (procs k p)) (set ps)"
    using assms(3) by (intro inj_on_cong) simp
  ultimately show ?thesis
    using assms(1,3-7) by (simp add: proc_table_def pid_inv_def)
qed

text \<open>Waking up and scheduling keep the table.\<close>

lemma proc_table_cong:
  assumes "proc_table k ps" "same_table k k'" "same_on {x. \<not> is_run_node x} (links k) (links k')"
    "idleproc k' = idleproc k"
  shows "proc_table k' ps"
proof (rule proc_table_local [OF assms(1)])
  show "same_on (table_nodes ps) (links k) (links k')"
    by (rule same_on_mono [OF assms(3)]) (auto simp: table_nodes_def)
qed (use assms(2,4) in \<open>auto simp: same_table_def same_family_def\<close>)

subsection \<open>Entering and leaving the table\<close>

text \<open>What the operations on the table leave alone.\<close>

definition table_frame :: "kernel \<Rightarrow> kernel \<Rightarrow> bool" where
  "table_frame k k' \<longleftrightarrow>
     (\<forall>x. state (procs k' x) = state (procs k x) \<and> wait_state (procs k' x) = wait_state (procs k x) \<and>
        pflags (procs k' x) = pflags (procs k x) \<and> exit_code (procs k' x) = exit_code (procs k x) \<and>
        kstack (procs k' x) = kstack (procs k x) \<and> mm (procs k' x) = mm (procs k x) \<and>
        filesp (procs k' x) = filesp (procs k x)) \<and>
     unseen k k' \<and> current k' = current k \<and> idleproc k' = idleproc k \<and> initproc k' = initproc k"

lemma table_frame_refl [simp]: "table_frame k k"
  by (simp add: table_frame_def unseen_def)

lemma table_frame_trans: "table_frame k k' \<Longrightarrow> table_frame k' k'' \<Longrightarrow> table_frame k k''"
  by (auto simp: table_frame_def unseen_def elim: same_on_trans)

lemma set_links_ok:
  assumes "parent (procs k p) = Some q" "q \<noteq> p" "cptr (procs k q) \<noteq> Some p"
  shows "\<exists>k'. set_links p k = Some k' \<and> links k' = list_add ProcList (ListLink p) (links k) \<and>
    yptrs k' = (case cptr (procs k q) of Some c \<Rightarrow> (yptrs k)(c := Some p) | None \<Rightarrow> yptrs k)(p := None) \<and>
    optrs k' = (optrs k)(p := cptr (procs k q)) \<and>
    (\<forall>x. cptr (procs k' x) = (if x = q then Some p else cptr (procs k x)) \<and>
       parent (procs k' x) = parent (procs k x) \<and> pid (procs k' x) = pid (procs k x)) \<and>
    nr_process k' = nr_process k + 1 \<and> last_pid k' = last_pid k \<and> next_safe k' = next_safe k \<and>
    (same_on {x. is_run_node x} (links k) (links k') \<longrightarrow> table_frame k k')"
proof (cases "cptr (procs k q)")
  case None
  then show ?thesis using assms
    by (simp add: set_links_def Let_def table_frame_def unseen_def fun_eq_iff)
next
  case (Some c)
  then show ?thesis using assms
    by (simp add: set_links_def Let_def table_frame_def unseen_def fun_eq_iff)
qed

lemma hash_chains:
  assumes "hash_inv k ps"
  shows "\<exists>H. \<forall>h<1024. dll (links k) (HashList h) (map HashLink (H h)) \<and>
    set (H h) = {p \<in> set ps. pid_hashfn (pid (procs k p)) = h}"
  using assms unfolding hash_inv_def by metis

lemma hash_proc_inv:
  assumes "hash_inv k ps" "p \<notin> set ps"
  shows "hash_inv (hash_proc p k) (p # ps)"
proof -
  obtain H where H0: "\<forall>h<1024. dll (links k) (HashList h) (map HashLink (H h)) \<and>
    set (H h) = {p \<in> set ps. pid_hashfn (pid (procs k p)) = h}" using hash_chains [OF assms(1)] ..
  then have H: "\<And>h. h < 1024 \<Longrightarrow> dll (links k) (HashList h) (map HashLink (H h))"
    "\<And>h. h < 1024 \<Longrightarrow> set (H h) = {p \<in> set ps. pid_hashfn (pid (procs k p)) = h}" by simp_all
  let ?h = "pid_hashfn (pid (procs k p))" and ?L = "links (hash_proc p k)"
  note b = pid_hashfn_bound [of "pid (procs k p)"]
  have L: "?L = list_add_after (HashList ?h) (HashLink p) (links k)" by (simp add: hash_proc_def list_add_def)
  have foot: "same_on (- insert (HashLink p) (set (HashList ?h # map HashLink (H ?h)))) (links k) ?L"
    unfolding L by (rule add_footprint(2) [OF H(1) [OF b]]) simp
  have "dll ?L (HashList h) (map HashLink (if h = ?h then p # H h else H h)) \<and>
    set (if h = ?h then p # H h else H h) = {x \<in> set (p # ps). pid_hashfn (pid (procs k x)) = h}"
    if h: "h < 1024" for h
  proof (cases "h = ?h")
    case True
    have "dll ?L (HashList ?h) (HashLink p # map HashLink (H ?h))"
      unfolding L by (rule dll_add_after_head [OF H(1) [OF b]]) (use H(2) [OF b] assms(2) in auto)
    then show ?thesis using True H(2) [OF h] by auto
  next
    case False
    have "dll ?L (HashList h) (map HashLink (H h))"
      by (rule dll_keep [OF H(1) [OF h] foot]) (use False H(2) [OF h] H(2) [OF b] assms(2) in auto)
    then show ?thesis using False H(2) [OF h] by auto
  qed
  then show ?thesis unfolding hash_inv_def by (fastforce simp: hash_proc_def)
qed

lemma hash_proc_same:
  assumes "hash_inv k ps"
  shows "same_on {x. \<forall>h q. x \<noteq> HashList h \<and> x \<noteq> HashLink q} (links k) (links (hash_proc p k))"
proof -
  obtain H where H0: "\<forall>h<1024. dll (links k) (HashList h) (map HashLink (H h)) \<and>
    set (H h) = {p \<in> set ps. pid_hashfn (pid (procs k p)) = h}" using hash_chains [OF assms(1)] ..
  then have H: "\<And>h. h < 1024 \<Longrightarrow> dll (links k) (HashList h) (map HashLink (H h))" by simp
  have "same_on (- insert (HashLink p) (set (HashList (pid_hashfn (pid (procs k p))) # map HashLink (H (pid_hashfn (pid (procs k p)))))))
    (links k) (links (hash_proc p k))"
    unfolding hash_proc_def list_add_def upd_klinks_sel
    by (rule add_footprint(2) [OF H [OF pid_hashfn_bound]]) simp
  then show ?thesis by (rule same_on_mono) auto
qed

lemma family_push:
  assumes fam: "family_inv k ps" and p: "p \<notin> set (idleproc k # ps)"
    and q: "parent (procs k p) = Some q" "q \<in> set (idleproc k # ps)"
    and c: "cptr (procs k p) = None"
    and k': "yptrs k' = (case cptr (procs k q) of Some c \<Rightarrow> (yptrs k)(c := Some p) | None \<Rightarrow> yptrs k)(p := None)"
      "optrs k' = (optrs k)(p := cptr (procs k q))"
      "\<And>x. cptr (procs k' x) = (if x = q then Some p else cptr (procs k x))"
      "\<And>x. parent (procs k' x) = parent (procs k x)" "idleproc k' = idleproc k"
  shows "family_inv k' (p # ps)"
proof -
  obtain qs where qs: "child_chain k q qs" "set qs = children k ps q" using fam q(2) by (auto simp: family_inv_def)
  have "\<exists>cs. child_chain k' x cs \<and> set cs = children k' (p # ps) x" if x: "x \<in> set (idleproc k # p # ps)" for x
  proof (cases "x = q")
    case True
    have "p \<notin> set qs" using qs(2) p by (auto simp: children_def)
    then have "child_chain k' q (p # qs)"
      using siblings_push [of "yptrs k" "optrs k" "cptr (procs k q)" qs p] qs(1)
      unfolding child_chain_def k'(1,2,3) by simp
    moreover have "set (p # qs) = children k' (p # ps) q" using qs(2) q(1) k'(4) by (auto simp: children_def)
    ultimately show ?thesis using True by blast
  next
    case False
    have ch: "children k' (p # ps) x = children k ps x" using False q(1) k'(4) by (auto simp: children_def)
    show ?thesis
    proof (cases "x = p")
      case True
      have "children k ps p = {}" using fam p by (auto simp: family_inv_def children_def)
      moreover have "child_chain k' p []" using c False k'(3) True by (simp add: child_chain_def)
      ultimately show ?thesis using ch True by fastforce
    next
      case xp: False
      then obtain cs where cs: "child_chain k x cs" "set cs = children k ps x" using fam x by (auto simp: family_inv_def)
      have "yptr (procs k' y) = yptr (procs k y) \<and> optr (procs k' y) = optr (procs k y)" if y: "y \<in> set cs" for y
      proof -
        have "y \<noteq> p" using y cs(2) p by (auto simp: children_def)
        moreover have "cptr (procs k q) \<noteq> Some y"
          using child_chain_head [OF qs(1)] qs(2) y cs(2) False by (auto simp: children_def)
        ultimately show ?thesis using fun_cong [OF k'(1), of y] fun_cong [OF k'(2), of y] by (auto split: option.splits)
      qed
      then have "child_chain k' x cs" using cs(1) False k'(3) by (intro child_chain_cong [OF cs(1)]) auto
      then show ?thesis using cs(2) ch by blast
    qed
  qed
  moreover have "\<forall>x\<in>set (p # ps). \<exists>y\<in>set (idleproc k # p # ps). parent (procs k' x) = Some y"
    using fam q k'(4) by (auto simp: family_inv_def)
  ultimately show ?thesis using k'(5) by (simp add: family_inv_def)
qed

lemma enter_table_ok:
  assumes tab: "proc_table k ps" and room: "nr_process k \<le> MAX_PROCESS"
    and p: "p \<notin> set (idleproc k # ps)" "parent (procs k p) = Some q" "q \<in> set (idleproc k # ps)"
      "cptr (procs k p) = None"
  shows "\<exists>k'. enter_table p k = Some k' \<and> proc_table k' (p # ps) \<and> table_frame k k' \<and>
    (\<forall>x. x \<noteq> q \<longrightarrow> cptr (procs k' x) = cptr (procs k x)) \<and> (\<forall>x. parent (procs k' x) = parent (procs k x)) \<and>
    (\<forall>x. x \<noteq> p \<longrightarrow> pid (procs k' x) = pid (procs k x))"
proof -
  note t = tab [unfolded proc_table_def]
  obtain n s where pid: "get_pid k = Some (n, k\<lparr>last_pid := n, next_safe := s\<rparr>)" "0 < n" "n < MAX_PID"
    "n \<notin> set (pids k ps)" "pid_inv (k\<lparr>last_pid := n, next_safe := s\<rparr>) ps"
    using get_pid_ok [of k ps] t room by auto
  define k1 where "k1 = upd_proc p (\<lambda>x. x\<lparr>pid := n\<rparr>) (k\<lparr>last_pid := n, next_safe := s\<rparr>)"
  define k2 where "k2 = hash_proc p k1"
  have pn: "p \<notin> set ps" "q \<noteq> p" using p by auto
  have k1: "procs k1 = (procs k)(p := (procs k p)\<lparr>pid := n\<rparr>)" "links k1 = links k" by (simp_all add: k1_def)
  have k2: "procs k2 = procs k1" "last_pid k2 = n" "next_safe k2 = s" "nr_process k2 = nr_process k"
    "idleproc k2 = idleproc k" by (simp_all add: k2_def k1_def hash_proc_def)
  have h1: "hash_inv k1 ps"
    by (rule hash_inv_cong [of k _ UNIV]) (use t pn(1) k1 in auto)
  have h2: "hash_inv k2 (p # ps)" unfolding k2_def by (rule hash_proc_inv [OF h1 pn(1)])
  have same2: "same_on {x. \<forall>h q. x \<noteq> HashList h \<and> x \<noteq> HashLink q} (links k) (links k2)"
    using hash_proc_same [OF h1, of p] k1(2) by (simp add: k2_def)
  have dll: "dll (links k) ProcList (map ListLink ps)" using t by simp
  have dll2: "dll (links k2) ProcList (map ListLink ps)" by (rule dll_keep [OF dll same2]) auto
  have "cptr (procs k q) \<noteq> Some p"
    using t p(3) pn(1) by (fastforce simp: family_inv_def children_def dest: child_chain_head)
  then obtain k' where k': "set_links p k2 = Some k'" "links k' = list_add ProcList (ListLink p) (links k2)"
    "yptrs k' = (case cptr (procs k2 q) of Some c \<Rightarrow> (yptrs k2)(c := Some p) | None \<Rightarrow> yptrs k2)(p := None)"
    "optrs k' = (optrs k2)(p := cptr (procs k2 q))"
    "\<And>x. cptr (procs k' x) = (if x = q then Some p else cptr (procs k2 x))"
    "\<And>x. parent (procs k' x) = parent (procs k2 x)" "\<And>x. pid (procs k' x) = pid (procs k2 x)"
    "nr_process k' = nr_process k2 + 1" "last_pid k' = last_pid k2" "next_safe k' = next_safe k2"
    "same_on {x. is_run_node x} (links k2) (links k') \<longrightarrow> table_frame k2 k'"
    using set_links_ok [of k2 p q] p(2) pn(2) k1 k2 by auto
  have foot: "same_on (- insert (ListLink p) (set (ProcList # map ListLink ps))) (links k2) (links k')"
    unfolding k'(2) list_add_def by (rule add_footprint(2) [OF dll2]) simp
  have "same_on {x. is_run_node x} (links k2) (links k')" by (rule same_on_mono [OF foot]) auto
  then have fr': "table_frame k2 k'" using k'(11) by blast
  moreover have "same_on {x. is_run_node x} (links k) (links k2)" by (rule same_on_mono [OF same2]) auto
  then have "table_frame k k2" using k1 k2(1) by (simp add: table_frame_def unseen_def) (simp add: k2_def k1_def hash_proc_def)
  ultimately have fr: "table_frame k k'" using table_frame_trans by blast
  have "family_inv k2 ps" by (rule family_inv_cong [of k]) (use t k1 k2 in \<open>auto simp: same_family_def\<close>)
  then have "family_inv k' (p # ps)"
    by (rule family_push [OF _ _ _ _ _ k'(3-6)]) (use p k1 k2 fr' in \<open>auto simp: table_frame_def\<close>)
  moreover have "dll (links k') ProcList (map ListLink (p # ps))"
    unfolding k'(2) list_add_def using dll_add_after_head [OF dll2, of "ListLink p"] pn(1) by auto
  moreover have pidk: "pid (procs k' x) = (if x = p then n else pid (procs k x))" for x
    using k'(7) [of x] k1(1) k2(1) by simp
  have "hash_inv k' (p # ps)"
    by (rule hash_inv_cong [OF h2 foot]) (use k'(7) in auto)
  moreover have pk: "pids k' (p # ps) = n # pids k ps" using pn(1) by (auto simp: pids_def pidk)
  have "pid_inv k' (p # ps)"
    using pid(2,3,5) unfolding pid_inv_def pk k'(9,10) k2 by (auto simp: pids_def)
  moreover have "inj_on (\<lambda>x. pid (procs k' x)) (set (p # ps))"
    using t pid(4) pn(1) unfolding pidk by (auto simp: inj_on_def pids_def split: if_splits)
  moreover have "\<forall>x\<in>set (p # ps). 0 < pid (procs k' x) \<and> pid (procs k' x) < MAX_PID"
    using t pid(2,3) by (auto simp: pidk)
  moreover have "nr_process k' = int (length (p # ps)) + 1" using t k'(8) k2(4) by simp
  moreover have "idleproc k' = idleproc k" using fr by (simp add: table_frame_def)
  ultimately have "proc_table k' (p # ps)" using p(1) t unfolding proc_table_def by simp
  moreover have "x \<noteq> q \<Longrightarrow> cptr (procs k' x) = cptr (procs k x)" "parent (procs k' x) = parent (procs k x)" for x
    using k'(5,6) [of x] k1 k2 by auto
  moreover have "enter_table p k = Some k'" using pid(1) k'(1) by (simp add: enter_table_def k1_def k2_def)
  ultimately show ?thesis using fr pidk by auto
qed

lemma remove_links_ok:
  assumes "parent (procs k p) = Some q" "optr (procs k p) \<noteq> Some p" "yptr (procs k p) \<noteq> Some p"
  shows "\<exists>k'. remove_links p k = Some k' \<and> links k' = list_del (ListLink p) (links k) \<and>
    yptrs k' = (case optrs k p of Some c \<Rightarrow> (yptrs k)(c := yptrs k p) | None \<Rightarrow> yptrs k) \<and>
    optrs k' = (case yptrs k p of Some c \<Rightarrow> (optrs k)(c := optrs k p) | None \<Rightarrow> optrs k) \<and>
    (\<forall>x. cptr (procs k' x) = (if yptr (procs k p) = None \<and> x = q then optr (procs k p) else cptr (procs k x)) \<and>
       parent (procs k' x) = parent (procs k x) \<and> pid (procs k' x) = pid (procs k x)) \<and>
    nr_process k' = nr_process k - 1 \<and> last_pid k' = last_pid k \<and> next_safe k' = next_safe k \<and>
    (same_on {x. is_run_node x} (links k) (links k') \<longrightarrow> table_frame k k')"
proof (cases "yptr (procs k p)")
  case None
  then show ?thesis using assms
    by (cases "optr (procs k p)") (simp_all add: remove_links_def Let_def table_frame_def unseen_def fun_eq_iff)
next
  case (Some c)
  then show ?thesis using assms
    by (cases "optr (procs k p)") (simp_all add: remove_links_def Let_def table_frame_def unseen_def fun_eq_iff)
qed

lemma unhash_proc_inv:
  assumes "hash_inv k ps" "p \<in> set ps"
  shows "hash_inv (unhash_proc p k) (filter (\<lambda>x. x \<noteq> p) ps)"
    and "same_on {x. \<forall>h q. x \<noteq> HashList h \<and> x \<noteq> HashLink q} (links k) (links (unhash_proc p k))"
proof -
  obtain H where H0: "\<forall>h<1024. dll (links k) (HashList h) (map HashLink (H h)) \<and>
    set (H h) = {p \<in> set ps. pid_hashfn (pid (procs k p)) = h}" using hash_chains [OF assms(1)] ..
  then have H: "\<And>h. h < 1024 \<Longrightarrow> dll (links k) (HashList h) (map HashLink (H h))"
    "\<And>h. h < 1024 \<Longrightarrow> set (H h) = {p \<in> set ps. pid_hashfn (pid (procs k p)) = h}" by simp_all
  let ?h = "pid_hashfn (pid (procs k p))" and ?L = "links (unhash_proc p k)"
  note b = pid_hashfn_bound [of "pid (procs k p)"]
  have L: "?L = list_del (HashLink p) (links k)" by (simp add: unhash_proc_def)
  have "p \<in> set (H ?h)" using H(2) [OF b] assms(2) by simp
  then obtain us vs where uv: "H ?h = us @ p # vs" by (auto simp: in_set_conv_decomp)
  have foot: "same_on (- set (HashList ?h # map HashLink (H ?h))) (links k) ?L"
    unfolding L by (rule del_footprint(1) [OF H(1) [OF b]]) (simp add: uv)
  then show "same_on {x. \<forall>h q. x \<noteq> HashList h \<and> x \<noteq> HashLink q} (links k) ?L"
    by (rule same_on_mono) auto
  have d: "distinct (us @ p # vs)" using dll_distinct [OF H(1) [OF b]] uv by (auto simp: distinct_map)
  have "dll ?L (HashList h) (map HashLink (if h = ?h then us @ vs else H h)) \<and>
    set (if h = ?h then us @ vs else H h) =
      {x \<in> set (filter (\<lambda>x. x \<noteq> p) ps). pid_hashfn (pid (procs k x)) = h}"
    if h: "h < 1024" for h
  proof (cases "h = ?h")
    case True
    have "dll ?L (HashList ?h) (map HashLink us @ map HashLink vs)"
      unfolding L by (rule dll_del) (use H(1) [OF b] uv in simp)
    moreover have "set (us @ vs) = set (H ?h) - {p}" using d uv by auto
    ultimately show ?thesis using True H(2) [OF h] by auto
  next
    case False
    have "dll ?L (HashList h) (map HashLink (H h))"
      by (rule dll_keep [OF H(1) [OF h] foot]) (use False H(2) [OF h] H(2) [OF b] in auto)
    then show ?thesis using False H(2) [OF h] by auto
  qed
  then show "hash_inv (unhash_proc p k) (filter (\<lambda>x. x \<noteq> p) ps)"
    unfolding hash_inv_def by (fastforce simp: unhash_proc_def)
qed

lemma family_del:
  assumes fam: "family_inv k ps" and p: "p \<in> set ps" "p \<noteq> idleproc k" "parent (procs k p) = Some q"
    and c: "cptr (procs k p) = None"
    and k': "yptrs k' = (case optrs k p of Some c \<Rightarrow> (yptrs k)(c := yptrs k p) | None \<Rightarrow> yptrs k)"
      "optrs k' = (case yptrs k p of Some c \<Rightarrow> (optrs k)(c := optrs k p) | None \<Rightarrow> optrs k)"
      "\<And>x. cptr (procs k' x) = (if yptr (procs k p) = None \<and> x = q then optr (procs k p) else cptr (procs k x))"
      "\<And>x. parent (procs k' x) = parent (procs k x)" "idleproc k' = idleproc k"
  shows "family_inv k' (filter (\<lambda>x. x \<noteq> p) ps)"
proof -
  let ?ps = "filter (\<lambda>x. x \<noteq> p) ps"
  have no_child: "parent (procs k x) \<noteq> Some p" if "x \<in> set ps" for x
  proof -
    obtain cs where "child_chain k p cs" "set cs = children k ps p" using fam p(1) by (auto simp: family_inv_def)
    then show ?thesis using c that by (cases cs) (auto simp: child_chain_def children_def)
  qed
  have q: "q \<in> set (idleproc k # ?ps)" using fam p no_child by (auto simp: family_inv_def)
  obtain qs where qs: "child_chain k q qs" "set qs = children k ps q" using fam q by (auto simp: family_inv_def)
  have "p \<in> set qs" using qs(2) p by (simp add: children_def)
  then obtain us vs where uv: "qs = us @ p # vs" by (auto simp: in_set_conv_decomp)
  have sib: "siblings (yptrs k) (optrs k) None (cptr (procs k q)) (us @ p # vs)" and d: "distinct (us @ p # vs)"
    using qs(1) uv by (simp_all add: child_chain_def)
  have y: "yptrs k p = (if us = [] then None else Some (last us))" using siblings_younger [OF sib] .
  have "child_chain k' q (us @ vs)"
    using siblings_del [OF sib d] d y k'(3) [of q] unfolding child_chain_def k'(1,2) by (cases "us = []") auto
  moreover have "set (us @ vs) = children k' ?ps q"
    using qs(2) uv d k'(4) by (auto simp: children_def)
  moreover have "\<exists>cs. child_chain k' x cs \<and> set cs = children k' ?ps x" if x: "x \<in> set (idleproc k # ?ps)" "x \<noteq> q" for x
  proof -
    obtain cs where cs: "child_chain k x cs" "set cs = children k ps x" using fam x by (auto simp: family_inv_def)
    have dj: "set cs \<inter> set qs = {}" using cs(2) qs(2) x(2) by (auto simp: children_def)
    have "yptr (procs k' z) = yptr (procs k z) \<and> optr (procs k' z) = optr (procs k z)" if z: "z \<in> set cs" for z
    proof -
      have "yptr (procs k p) \<noteq> Some z" using y dj z uv by (auto split: if_splits)
      moreover have "optr (procs k p) \<noteq> Some z" using siblings_older [OF sib, of z] dj z uv by auto
      ultimately show ?thesis
        using fun_cong [OF k'(1), of z] fun_cong [OF k'(2), of z] by (auto split: option.splits)
    qed
    then have "child_chain k' x cs" using x(2) k'(3) by (intro child_chain_cong [OF cs(1)]) auto
    moreover have "set cs = children k' ?ps x" using cs(2) x(2) p(3) k'(4) by (auto simp: children_def)
    ultimately show ?thesis by blast
  qed
  moreover have "\<forall>x\<in>set ?ps. \<exists>y\<in>set (idleproc k # ?ps). parent (procs k' x) = Some y"
    using fam no_child k'(4) by (fastforce simp: family_inv_def)
  ultimately show ?thesis unfolding family_inv_def k'(5) by blast
qed

lemma leave_table_ok:
  assumes tab: "proc_table k ps" and p: "p \<in> set ps" "cptr (procs k p) = None"
  shows "\<exists>k'. leave_table p k = Some k' \<and> proc_table k' (filter (\<lambda>x. x \<noteq> p) ps) \<and> table_frame k k' \<and>
    (\<forall>x. parent (procs k' x) = parent (procs k x) \<and> pid (procs k' x) = pid (procs k x))"
proof -
  note t = tab [unfolded proc_table_def]
  let ?ps = "filter (\<lambda>x. x \<noteq> p) ps"
  define k1 where "k1 = unhash_proc p k"
  have k1: "procs k1 = procs k" "last_pid k1 = last_pid k" "next_safe k1 = next_safe k"
    "nr_process k1 = nr_process k" "idleproc k1 = idleproc k" by (simp_all add: k1_def unhash_proc_def)
  have hash: "hash_inv k ps" using t by simp
  note h1 = unhash_proc_inv [OF hash p(1), folded k1_def]
  have dll: "dll (links k) ProcList (map ListLink ps)" using t by simp
  have dll1: "dll (links k1) ProcList (map ListLink ps)" by (rule dll_keep [OF dll h1(2)]) auto
  obtain q where q: "parent (procs k p) = Some q" "q \<in> set (idleproc k # ps)" using t p(1) by (auto simp: family_inv_def)
  obtain qs where qs: "child_chain k q qs" "set qs = children k ps q" using t q(2) by (auto simp: family_inv_def)
  have "p \<in> set qs" using qs(2) p q by (simp add: children_def)
  then obtain us vs where uv: "qs = us @ p # vs" by (auto simp: in_set_conv_decomp)
  have sib: "siblings (yptrs k) (optrs k) None (cptr (procs k q)) (us @ p # vs)" and d: "distinct (us @ p # vs)"
    using qs(1) uv by (simp_all add: child_chain_def)
  have "optr (procs k p) \<noteq> Some p" "yptr (procs k p) \<noteq> Some p"
    using siblings_older [OF sib, of p] siblings_younger [OF sib] d by (auto split: if_splits)
  then obtain k' where k': "remove_links p k1 = Some k'" "links k' = list_del (ListLink p) (links k1)"
    "yptrs k' = (case optrs k p of Some c \<Rightarrow> (yptrs k)(c := yptrs k p) | None \<Rightarrow> yptrs k)"
    "optrs k' = (case yptrs k p of Some c \<Rightarrow> (optrs k)(c := optrs k p) | None \<Rightarrow> optrs k)"
    "\<And>x. cptr (procs k' x) = (if yptr (procs k p) = None \<and> x = q then optr (procs k p) else cptr (procs k x))"
    "\<And>x. parent (procs k' x) = parent (procs k x)" "\<And>x. pid (procs k' x) = pid (procs k x)"
    "nr_process k' = nr_process k - 1" "last_pid k' = last_pid k" "next_safe k' = next_safe k"
    "same_on {x. is_run_node x} (links k1) (links k') \<longrightarrow> table_frame k1 k'"
    using remove_links_ok [of k1 p q] q(1) unfolding k1(1-4) by metis
  have foot: "same_on (- set (ProcList # map ListLink ps)) (links k1) (links k')"
    unfolding k'(2) by (rule del_footprint(1) [OF dll1]) (simp add: p(1))
  have "same_on {x. is_run_node x} (links k1) (links k')" by (rule same_on_mono [OF foot]) auto
  then have "table_frame k1 k'" using k'(11) by blast
  moreover have "same_on {x. is_run_node x} (links k) (links k1)" by (rule same_on_mono [OF h1(2)]) auto
  then have "table_frame k k1" by (simp add: table_frame_def unseen_def k1_def unhash_proc_def)
  ultimately have fr: "table_frame k k'" using table_frame_trans by blast
  have idle: "idleproc k' = idleproc k" using fr by (simp add: table_frame_def)
  obtain as bs where ab: "ps = as @ p # bs" using p(1) by (auto simp: in_set_conv_decomp)
  have "distinct ps" using dll_distinct [OF dll] by (auto simp: distinct_map)
  then have "\<forall>x\<in>set as. x \<noteq> p" "\<forall>x\<in>set bs. x \<noteq> p" using ab by auto
  then have ps: "?ps = as @ bs" using ab by simp
  have "dll (links k') ProcList (map ListLink ?ps)"
    unfolding k'(2) ps map_append by (rule dll_del) (use dll1 ab in simp)
  moreover have "hash_inv k' ?ps"
    by (rule hash_inv_cong [OF h1(1) foot]) (use k'(7) k1(1) in auto)
  moreover have "family_inv k' ?ps"
    by (rule family_del [OF _ p(1) _ q(1) p(2) k'(3-6) idle]) (use t p(1) in auto)
  moreover have "pid_inv k' ?ps" using t k'(7,9,10) by (auto simp: pid_inv_def pids_def)
  moreover have "inj_on (\<lambda>x. pid (procs k' x)) (set ?ps)"
    using t k'(7) by (auto simp: inj_on_def)
  moreover have "nr_process k' = int (length ?ps) + 1" using t k'(8) by (simp only: ps) (simp add: ab)
  ultimately have "proc_table k' ?ps" using t k'(7) idle unfolding proc_table_def by simp
  moreover have "leave_table p k = Some k'" using k'(1) by (simp add: leave_table_def k1_def)
  ultimately show ?thesis using fr k'(6,7) by auto
qed

subsection \<open>Properties\<close>

lemma find_proc_iff:
  assumes "proc_table k ps" "p \<in> set ps"
  shows "find_proc (pid (procs k p)) k = Some (Some p)"
  using find_proc_ok [of k ps "pid (procs k p)"] assms by (auto simp: proc_table_def)

lemma find_proc_None:
  assumes "proc_table k ps" "n \<notin> set (pids k ps)"
  shows "find_proc n k = Some None"
proof -
  obtain r where r: "find_proc n k = Some r" "\<forall>p. r = Some p \<longleftrightarrow> p \<in> set ps \<and> pid (procs k p) = n"
    using find_proc_ok [of k ps n] assms(1) by (auto simp: proc_table_def)
  then have "r = None" using assms(2) by (cases r) (auto simp: pids_def)
  then show ?thesis using r(1) by simp
qed

lemma boot_counters:
  "nr_process boot_kernel = 1" "last_pid boot_kernel = MAX_PID" "next_safe boot_kernel = MAX_PID"
  "cptr (procs boot_kernel p) = None"
  by (simp_all add: boot_kernel_def sched_init_def RR_init_def)

lemma boot_table: "proc_table boot_kernel []"
  by (auto simp: proc_table_def boot_links dll_def pid_inv_def pids_def hash_inv_def family_inv_def
      child_chain_def children_def boot_counters)

definition first_born :: kernel where
  "first_born = upd_proc 5 (\<lambda>x. x\<lparr>parent := Some 0\<rparr>) boot_kernel"

lemma first_born_sel:
  "parent (procs first_born 5) = Some 0" "idleproc first_born = 0" "nr_process first_born = 1"
  "cptr (procs first_born 5) = None"
  by (simp_all add: first_born_def boot_kernel_def sched_init_def RR_init_def)

lemma first_born_table: "proc_table first_born []"
  by (rule proc_table_local [OF boot_table])
    (auto simp: first_born_def boot_sel same_family_def)

text \<open>C15: a fresh process identifier. With less than \<^verbatim>\<open>MAX_PROCESS\<close> processes in the table, \<^verbatim>\<open>get_pid\<close>
  returns (its nested restarts end), the result lies between 1 and \<^verbatim>\<open>MAX_PID - 1\<close>, no process of the
  table has it, and the static variables are left so that the next call is right again.\<close>

theorem get_pid_fresh:
  assumes "proc_table k ps" "nr_process k \<le> MAX_PROCESS"
  shows "\<exists>n k'. get_pid k = Some (n, k') \<and> 0 < n \<and> n < MAX_PID \<and>
    (\<forall>p\<in>set ps. pid (procs k p) \<noteq> n) \<and> proc_table k' ps"
proof -
  obtain n s where n: "get_pid k = Some (n, k\<lparr>last_pid := n, next_safe := s\<rparr>)" "0 < n" "n < MAX_PID"
    "n \<notin> set (pids k ps)" "pid_inv (k\<lparr>last_pid := n, next_safe := s\<rparr>) ps"
    using get_pid_ok [of k ps] assms by (auto simp: proc_table_def)
  have "proc_table (k\<lparr>last_pid := n, next_safe := s\<rparr>) ps"
    using assms(1) n(5) by (simp add: proc_table_def hash_inv_def family_inv_def child_chain_def children_def)
  then show ?thesis using n by (fastforce simp: pids_def)
qed

theorem get_pid_fresh_witness:
  "\<exists>k1. enter_table 5 first_born = Some k1 \<and>
    (\<exists>n k'. get_pid k1 = Some (n, k') \<and> 0 < n \<and> n < MAX_PID \<and>
      (\<forall>p\<in>set [5]. pid (procs k1 p) \<noteq> n) \<and> proc_table k' [5])"
proof -
  obtain k1 where "enter_table 5 first_born = Some k1" "proc_table k1 [5]"
    using enter_table_ok [OF first_born_table, of 5 0] by (auto simp: first_born_sel)
  then show ?thesis using get_pid_fresh [of k1 "[5]"] by (auto simp: proc_table_def)
qed

text \<open>C16: the process table. Entering a new process (fresh pid, hash list, process list, family
  links) returns and keeps the table's invariant, and \<^verbatim>\<open>find_proc\<close> then finds it under its pid; taking
  it out again restores the table of before, and \<^verbatim>\<open>find_proc\<close> does not find it any more.\<close>

theorem process_table_roundtrip:
  assumes "proc_table k ps" "nr_process k \<le> MAX_PROCESS" "p \<notin> set (idleproc k # ps)"
    and "parent (procs k p) = Some q" "q \<in> set (idleproc k # ps)" "cptr (procs k p) = None"
  shows "\<exists>k' k''. enter_table p k = Some k' \<and> proc_table k' (p # ps) \<and>
    find_proc (pid (procs k' p)) k' = Some (Some p) \<and>
    leave_table p k' = Some k'' \<and> proc_table k'' ps \<and> find_proc (pid (procs k' p)) k'' = Some None"
proof -
  have "q \<noteq> p" using assms(3,5) by auto
  then obtain k' where k': "enter_table p k = Some k'" "proc_table k' (p # ps)" "cptr (procs k' p) = None"
    using enter_table_ok [OF assms] assms(6) by metis
  obtain k'' where k'': "leave_table p k' = Some k''" "proc_table k'' (filter (\<lambda>x. x \<noteq> p) (p # ps))"
    "\<forall>x. pid (procs k'' x) = pid (procs k' x)" using leave_table_ok [OF k'(2) _ k'(3)] by auto
  have ps: "filter (\<lambda>x. x \<noteq> p) (p # ps) = ps" using assms(3) by (simp add: filter_id_conv) auto
  have "pid (procs k' p) \<notin> set (pids k'' ps)"
    using k'(2) k''(3) assms(3) by (auto simp: proc_table_def pids_def)
  then show ?thesis
    using k'(1,2) k''(1,2) find_proc_iff [OF k'(2), of p] find_proc_None [of k'' ps] ps by auto
qed

theorem process_table_roundtrip_witness:
  "\<exists>k' k''. enter_table 5 first_born = Some k' \<and> proc_table k' [5] \<and>
    find_proc (pid (procs k' 5)) k' = Some (Some 5) \<and>
    leave_table 5 k' = Some k'' \<and> proc_table k'' [] \<and> find_proc (pid (procs k' 5)) k'' = Some None"
  by (rule process_table_roundtrip [OF first_born_table, of 5 0]) (simp_all add: first_born_sel)

end
