(* ===== verification/Disk0.thy ===== *)
theory Disk0
  imports Cstring
begin

section \<open>I/O buffers and the disk device (fs/iobuf.c, fs/devs/dev_disk0.c, driver/ide.c, driver/ramdisk.c)\<close>

text \<open>
  The file system reads and writes blocks through an \<^verbatim>\<open>iobuf\<close>; the disk is a RAM disk, an area of the
  same memory, and all transfers go through a bounce buffer of four blocks. Memory is the byte memory of
  \<open>Cstring\<close>. The main lemma shows that \<^verbatim>\<open>disk0_io\<close> is a plain transfer of whole blocks.
\<close>

subsection \<open>I/O buffers\<close>

record iobuf =
  io_base :: nat
  io_offset :: int
  io_len :: nat
  io_resid :: nat

definition iobuf_init :: "nat \<Rightarrow> nat \<Rightarrow> int \<Rightarrow> iobuf" where
  "iobuf_init base len offset = \<lparr>io_base = base, io_offset = offset, io_len = len, io_resid = len\<rparr>"

definition iobuf_skip :: "nat \<Rightarrow> iobuf \<Rightarrow> iobuf option" where
  "iobuf_skip n iob = do {
     massert (n \<le> io_resid iob);
     Some (iob\<lparr>io_base := io_base iob + n, io_offset := io_offset iob + int n, io_resid := io_resid iob - n\<rparr>)
   }"

definition iobuf_move :: "nat \<Rightarrow> nat \<Rightarrow> bool \<Rightarrow> iobuf \<Rightarrow> mem \<Rightarrow> (int \<times> nat \<times> iobuf \<times> mem) option" where
  "iobuf_move data len m2b iob mem =
     (let alen = (if io_resid iob > len then len else io_resid iob) in
      if alen > 0 then
        let (src, dst) = (if m2b then (data, io_base iob) else (io_base iob, data)) in do {
          let mem = memmove dst src alen mem;
          iob \<leftarrow> iobuf_skip alen iob;
          Some (if len - alen = 0 then 0 else - E_NO_MEM, alen, iob, mem)
        }
      else Some (if len = 0 then 0 else - E_NO_MEM, alen, iob, mem))"

definition iobuf_move_zeros :: "nat \<Rightarrow> iobuf \<Rightarrow> mem \<Rightarrow> (int \<times> nat \<times> iobuf \<times> mem) option" where
  "iobuf_move_zeros len iob mem =
     (let alen = (if io_resid iob > len then len else io_resid iob) in
      if alen > 0 then do {
        let mem = memset (io_base iob) 0 alen mem;
        iob \<leftarrow> iobuf_skip alen iob;
        Some (if len - alen = 0 then 0 else - E_NO_MEM, alen, iob, mem)
      }
      else Some (if len = 0 then 0 else - E_NO_MEM, alen, iob, mem))"

subsection \<open>RAM disk and sector layer\<close>

abbreviation SECTSIZE :: nat where "SECTSIZE \<equiv> 512"
abbreviation MAX_NSECS :: nat where "MAX_NSECS \<equiv> 128"
abbreviation MAX_DISK_NSECS :: nat where "MAX_DISK_NSECS \<equiv> 0x10000000"

record ide_device =
  valid :: bool
  sectors :: nat
  iobase :: nat

definition ramdisk_init :: "nat \<Rightarrow> nat \<Rightarrow> ide_device" where
  "ramdisk_init initrd_begin initrd_end =
     (if initrd_begin = initrd_end then \<lparr>valid = False, sectors = 0, iobase = 0\<rparr>
      else \<lparr>valid = True, sectors = ((initrd_end - initrd_begin) mod 2 ^ 32) div SECTSIZE, iobase = initrd_begin\<rparr>)"

text \<open>The number of sectors left is a difference of unsigned 64-bit numbers.\<close>

definition sectors_left :: "ide_device \<Rightarrow> nat \<Rightarrow> nat" where
  "sectors_left dev secno = nat ((int (sectors dev) - int secno) mod 2 ^ 64)"

definition ramdisk_read :: "ide_device \<Rightarrow> nat \<Rightarrow> nat \<Rightarrow> nat \<Rightarrow> mem \<Rightarrow> int \<times> mem" where
  "ramdisk_read dev secno dst nsecs mem =
     (let nsecs = min nsecs (sectors_left dev secno)
      in (0, memcpy dst (iobase dev + secno * SECTSIZE) (nsecs * SECTSIZE) mem))"

definition ramdisk_write :: "ide_device \<Rightarrow> nat \<Rightarrow> nat \<Rightarrow> nat \<Rightarrow> mem \<Rightarrow> int \<times> mem" where
  "ramdisk_write dev secno src nsecs mem =
     (let nsecs = min nsecs (sectors_left dev secno)
      in (0, memcpy (iobase dev + secno * SECTSIZE) src (nsecs * SECTSIZE) mem))"

definition ide_device_size :: "ide_device \<Rightarrow> nat" where
  "ide_device_size dev = (if valid dev then sectors dev else 0)"

definition ide_read_secs :: "ide_device \<Rightarrow> nat \<Rightarrow> nat \<Rightarrow> nat \<Rightarrow> mem \<Rightarrow> (int \<times> mem) option" where
  "ide_read_secs dev secno dst nsecs mem = do {
     massert (nsecs \<le> MAX_NSECS \<and> valid dev);
     massert (secno < MAX_DISK_NSECS \<and> secno + nsecs \<le> MAX_DISK_NSECS);
     Some (ramdisk_read dev secno dst nsecs mem)
   }"

definition ide_write_secs :: "ide_device \<Rightarrow> nat \<Rightarrow> nat \<Rightarrow> nat \<Rightarrow> mem \<Rightarrow> (int \<times> mem) option" where
  "ide_write_secs dev secno src nsecs mem = do {
     massert (nsecs \<le> MAX_NSECS \<and> valid dev);
     massert (secno < MAX_DISK_NSECS \<and> secno + nsecs \<le> MAX_DISK_NSECS);
     Some (ramdisk_write dev secno src nsecs mem)
   }"

subsection \<open>The block device\<close>

abbreviation DISK0_BLKSIZE :: nat where "DISK0_BLKSIZE \<equiv> 4096"
abbreviation DISK0_BUFSIZE :: nat where "DISK0_BUFSIZE \<equiv> 4 * DISK0_BLKSIZE"
abbreviation DISK0_BLK_NSECT :: nat where "DISK0_BLK_NSECT \<equiv> DISK0_BLKSIZE div SECTSIZE"

record disk0 =
  d_blocks :: nat
  d_buffer :: nat
  d_ide :: ide_device

definition disk0_device_init :: "ide_device \<Rightarrow> nat option \<Rightarrow> disk0 option" where
  "disk0_device_init ide kmalloc = do {
     massert (valid ide);
     buf \<leftarrow> kmalloc;
     Some \<lparr>d_blocks = ide_device_size ide div DISK0_BLK_NSECT, d_buffer = buf, d_ide = ide\<rparr>
   }"

definition disk0_read_blks_nolock :: "disk0 \<Rightarrow> nat \<Rightarrow> nat \<Rightarrow> mem \<Rightarrow> mem option" where
  "disk0_read_blks_nolock d blkno nblks mem =
     (let sectno = (blkno * DISK0_BLK_NSECT) mod 2 ^ 32; nsecs = (nblks * DISK0_BLK_NSECT) mod 2 ^ 32 in do {
        (ret, mem) \<leftarrow> ide_read_secs (d_ide d) sectno (d_buffer d) nsecs mem;
        massert (ret = 0);
        Some mem
      })"

definition disk0_write_blks_nolock :: "disk0 \<Rightarrow> nat \<Rightarrow> nat \<Rightarrow> mem \<Rightarrow> mem option" where
  "disk0_write_blks_nolock d blkno nblks mem =
     (let sectno = (blkno * DISK0_BLK_NSECT) mod 2 ^ 32; nsecs = (nblks * DISK0_BLK_NSECT) mod 2 ^ 32 in do {
        (ret, mem) \<leftarrow> ide_write_secs (d_ide d) sectno (d_buffer d) nsecs mem;
        massert (ret = 0);
        Some mem
      })"

partial_function (option) disk0_loop :: "disk0 \<Rightarrow> bool \<Rightarrow> nat \<Rightarrow> nat \<Rightarrow> iobuf \<Rightarrow> mem \<Rightarrow> (iobuf \<times> mem) option" where
  "disk0_loop d write resid blkno iob mem =
     (if resid = 0 then Some (iob, mem)
      else if write then do {
        (ret, copied, iob, mem) \<leftarrow> iobuf_move (d_buffer d) DISK0_BUFSIZE False iob mem;
        massert (copied \<noteq> 0 \<and> copied \<le> resid \<and> copied mod DISK0_BLKSIZE = 0);
        mem \<leftarrow> disk0_write_blks_nolock d blkno (copied div DISK0_BLKSIZE) mem;
        disk0_loop d write (resid - copied) ((blkno + copied div DISK0_BLKSIZE) mod 2 ^ 32) iob mem
      }
      else let alen = (if DISK0_BUFSIZE > resid then resid else DISK0_BUFSIZE) in do {
        mem \<leftarrow> disk0_read_blks_nolock d blkno (alen div DISK0_BLKSIZE) mem;
        (ret, copied, iob, mem) \<leftarrow> iobuf_move (d_buffer d) alen True iob mem;
        massert (copied = alen \<and> copied mod DISK0_BLKSIZE = 0);
        disk0_loop d write (resid - copied) ((blkno + alen div DISK0_BLKSIZE) mod 2 ^ 32) iob mem
      })"

definition disk0_io :: "disk0 \<Rightarrow> bool \<Rightarrow> iobuf \<Rightarrow> mem \<Rightarrow> (int \<times> iobuf \<times> mem) option" where
  "disk0_io d write iob mem =
     (let offset = io_offset iob; resid = io_resid iob;
          blkno = nat ((offset div int DISK0_BLKSIZE) mod 2 ^ 32);
          nblks = (resid div DISK0_BLKSIZE) mod 2 ^ 32 in
      if offset mod int DISK0_BLKSIZE \<noteq> 0 \<or> resid mod DISK0_BLKSIZE \<noteq> 0 then Some (- E_INVAL, iob, mem)
      else if d_blocks d < (blkno + nblks) mod 2 ^ 32 then Some (- E_INVAL, iob, mem)
      else if nblks = 0 then Some (0, iob, mem)
      else do {
        (iob, mem) \<leftarrow> disk0_loop d write resid blkno iob mem;
        Some (0, iob, mem)
      })"

declare disk0_loop.simps [code]

subsection \<open>Transfers\<close>

definition apart :: "nat \<Rightarrow> nat \<Rightarrow> nat \<Rightarrow> nat \<Rightarrow> bool" where
  "apart a n b m \<longleftrightarrow> a + n \<le> b \<or> b + m \<le> a"

text \<open>A device whose size fits its image and the sector numbers, and whose bounce buffer is apart from it.\<close>

definition disk0_ok :: "disk0 \<Rightarrow> bool" where
  "disk0_ok d \<longleftrightarrow> valid (d_ide d) \<and> 8 * d_blocks d \<le> sectors (d_ide d) \<and> sectors (d_ide d) \<le> MAX_DISK_NSECS \<and>
     apart (d_buffer d) DISK0_BUFSIZE (iobase (d_ide d)) (SECTSIZE * sectors (d_ide d))"

definition in_buffer :: "disk0 \<Rightarrow> nat \<Rightarrow> bool" where
  "in_buffer d a \<longleftrightarrow> d_buffer d \<le> a \<and> a < d_buffer d + DISK0_BUFSIZE"

definition blk_addr :: "disk0 \<Rightarrow> nat \<Rightarrow> nat" where
  "blk_addr d k = iobase (d_ide d) + DISK0_BLKSIZE * k"

lemma iobuf_move_ok:
  "iobuf_move data len m2b iob mem = Some (if len \<le> io_resid iob then 0 else - E_NO_MEM, min len (io_resid iob),
     iob\<lparr>io_base := io_base iob + min len (io_resid iob), io_offset := io_offset iob + int (min len (io_resid iob)),
       io_resid := io_resid iob - min len (io_resid iob)\<rparr>,
     if m2b then memmove (io_base iob) data (min len (io_resid iob)) mem
     else memmove data (io_base iob) (min len (io_resid iob)) mem)"
  by (auto simp: iobuf_move_def iobuf_skip_def Let_def min_def memmove_ok fun_eq_iff)

lemma sectors_left_ok: "secno \<le> sectors dev \<Longrightarrow> sectors dev < 2 ^ 64 \<Longrightarrow> sectors_left dev secno = sectors dev - secno"
  by (simp add: sectors_left_def nat_diff_distrib' mod_pos_pos_trivial flip: of_nat_diff)

lemma memcpy_ok: "apart d n s n \<Longrightarrow> memcpy d s n m = (\<lambda>a. if d \<le> a \<and> a < d + n then m (s + (a - d)) else m a)"
  unfolding memcpy_def by (rule copy_up_ok) (auto simp: apart_def)

lemma chunk_ok:
  assumes "disk0_ok d" "k + c \<le> d_blocks d" "c \<le> 4" "0 < c"
  shows "disk0_read_blks_nolock d k c m = Some (memcpy (d_buffer d) (blk_addr d k) (4096 * c) m)"
    "disk0_write_blks_nolock d k c m = Some (memcpy (blk_addr d k) (d_buffer d) (4096 * c) m)"
    "apart (d_buffer d) (4096 * c) (blk_addr d k) (4096 * c)"
proof -
  note ok = assms(1) [unfolded disk0_ok_def]
  have "8 * (k + c) \<le> 8 * d_blocks d" using assms(2) by simp
  then have b: "8 * (k + c) \<le> sectors (d_ide d)" using ok by (meson le_trans)
  have "sectors_left (d_ide d) (8 * k) = sectors (d_ide d) - 8 * k" using ok b by (intro sectors_left_ok) auto
  then have m: "min (8 * c) (sectors_left (d_ide d) (8 * k)) = 8 * c" using b by simp
  have s: "(k * 8) mod 2 ^ 32 = 8 * k" "(c * 8) mod 2 ^ 32 = 8 * c" "8 * k < MAX_DISK_NSECS" "8 * k + 8 * c \<le> MAX_DISK_NSECS"
    "8 * c \<le> MAX_NSECS" using ok b assms(3,4) by auto
  show "disk0_read_blks_nolock d k c m = Some (memcpy (d_buffer d) (blk_addr d k) (4096 * c) m)"
    "disk0_write_blks_nolock d k c m = Some (memcpy (blk_addr d k) (d_buffer d) (4096 * c) m)"
    using s m ok unfolding disk0_read_blks_nolock_def disk0_write_blks_nolock_def ide_read_secs_def ide_write_secs_def
      ramdisk_read_def ramdisk_write_def Let_def blk_addr_def
    by (simp_all add: algebra_simps)
  show "apart (d_buffer d) (4096 * c) (blk_addr d k) (4096 * c)"
    using ok b assms(3) by (auto simp: apart_def blk_addr_def)
qed

text \<open>\<open>moved d dst src len m m'\<close>: outside the bounce buffer, \<open>m'\<close> is \<open>m\<close> with \<open>len\<close> bytes copied from \<open>src\<close> to
  \<open>dst\<close>.\<close>

definition moved :: "disk0 \<Rightarrow> nat \<Rightarrow> nat \<Rightarrow> nat \<Rightarrow> mem \<Rightarrow> mem \<Rightarrow> bool" where
  "moved d dst src len m m' \<longleftrightarrow>
     (\<forall>a. \<not> in_buffer d a \<longrightarrow> m' a = (if dst \<le> a \<and> a < dst + len then m (src + (a - dst)) else m a))"

lemma moved_append:
  assumes "moved d dst src l1 m m1" "moved d (dst + l1) (src + l1) l2 m1 m2"
    and "apart dst (l1 + l2) src (l1 + l2)" "apart (d_buffer d) DISK0_BUFSIZE src (l1 + l2)"
  shows "moved d dst src (l1 + l2) m m2"
  unfolding moved_def
proof (intro allI impI)
  fix a assume a: "\<not> in_buffer d a"
  consider "dst \<le> a" "a < dst + l1" | "dst + l1 \<le> a" "a < dst + (l1 + l2)" | "a < dst \<or> dst + (l1 + l2) \<le> a" by linarith
  then show "m2 a = (if dst \<le> a \<and> a < dst + (l1 + l2) then m (src + (a - dst)) else m a)"
  proof cases
    case 1
    then show ?thesis using assms(1,2) a by (simp add: moved_def)
  next
    case 2
    let ?s = "src + l1 + (a - (dst + l1))"
    have s: "?s = src + (a - dst)" using 2 by simp
    have "\<not> in_buffer d ?s" "\<not> (dst \<le> ?s \<and> ?s < dst + l1)"
      using 2 assms(3,4) by (auto simp: apart_def in_buffer_def)
    then have "m1 ?s = m ?s" using assms(1) unfolding moved_def by presburger
    moreover have "m2 a = m1 ?s" using assms(2) a 2 unfolding moved_def by presburger
    ultimately show ?thesis using 2 s by simp
  next
    case 3
    then have "m2 a = m1 a" "m1 a = m a" using assms(1,2) a unfolding moved_def by auto
    then show ?thesis using 3 by auto
  qed
qed

text \<open>Copying a chunk through the bounce buffer, from \<open>src\<close> into it and from it to \<open>dst\<close>.\<close>

lemma moved_bounce:
  assumes "c \<le> DISK0_BUFSIZE" "apart (d_buffer d) DISK0_BUFSIZE src c"
    and "m1 = (\<lambda>a. if d_buffer d \<le> a \<and> a < d_buffer d + c then m (src + (a - d_buffer d)) else m a)"
    and "m2 = (\<lambda>a. if dst \<le> a \<and> a < dst + c then m1 (d_buffer d + (a - dst)) else m1 a)"
  shows "moved d dst src c m m2"
  using assms by (auto simp: moved_def in_buffer_def)

definition skipped :: "nat \<Rightarrow> iobuf \<Rightarrow> iobuf" where
  "skipped n iob = iob\<lparr>io_base := io_base iob + n, io_offset := io_offset iob + int n, io_resid := io_resid iob - n\<rparr>"

lemma skipped_sel [simp]:
  "io_base (skipped n iob) = io_base iob + n" "io_resid (skipped n iob) = io_resid iob - n"
  by (simp_all add: skipped_def)

lemma skipped_skipped: "a + b \<le> io_resid iob \<Longrightarrow> skipped b (skipped a iob) = skipped (a + b) iob"
  by (simp add: skipped_def)

lemma disk0_chunk:
  assumes d: "disk0_ok d" and k: "k + c \<le> d_blocks d" "0 < c" "c \<le> 4"
    and io: "io_resid iob = 4096 * n" "c = min 4 n"
    and ap: "apart (d_buffer d) DISK0_BUFSIZE (io_base iob) (4096 * c)" "apart (io_base iob) (4096 * c) (blk_addr d k) (4096 * c)"
  shows "\<exists>m'. disk0_loop d write (4096 * n) k iob m =
      disk0_loop d write (4096 * (n - c)) ((k + c) mod 2 ^ 32) (skipped (4096 * c) iob) m' \<and>
    moved d (if write then blk_addr d k else io_base iob) (if write then io_base iob else blk_addr d k) (4096 * c) m m'"
proof -
  note ch = chunk_ok [OF d k(1,3,2)]
  have n: "n \<noteq> 0" using k(2) io(2) by auto
  have len: "min DISK0_BUFSIZE (4096 * n) = 4096 * c" "(if DISK0_BUFSIZE > 4096 * n then 4096 * n else DISK0_BUFSIZE) = 4096 * c"
    "4096 * n - 4096 * c = 4096 * (n - c)" "4096 * c \<le> 4096 * n" "4096 * c div DISK0_BLKSIZE = c" "4096 * c mod DISK0_BLKSIZE = 0"
    "4096 * c \<le> DISK0_BUFSIZE" using io(2) by auto
  have ap2: "apart (blk_addr d k) (4096 * c) (d_buffer d) (4096 * c)" using ch(3) by (auto simp: apart_def)
  show ?thesis
  proof (cases "write")
    case True
    let ?m1 = "memmove (d_buffer d) (io_base iob) (4096 * c) m"
    let ?m2 = "memcpy (blk_addr d k) (d_buffer d) (4096 * c) ?m1"
    have "disk0_loop d write (4096 * n) k iob m = disk0_loop d write (4096 * (n - c)) ((k + c) mod 2 ^ 32) (skipped (4096 * c) iob) ?m2"
      using True n k(2) len by (subst disk0_loop.simps) (simp add: iobuf_move_ok io(1) ch(2) skipped_def)
    moreover have "moved d (blk_addr d k) (io_base iob) (4096 * c) m ?m2"
      using ap(1) len(7) ap2 by (intro moved_bounce [of "4096 * c"]) (auto simp: memmove_ok memcpy_ok apart_def)
    ultimately show ?thesis using True by auto
  next
    case False
    let ?m1 = "memcpy (d_buffer d) (blk_addr d k) (4096 * c) m"
    let ?m2 = "memmove (io_base iob) (d_buffer d) (4096 * c) ?m1"
    have "disk0_loop d write (4096 * n) k iob m = disk0_loop d write (4096 * (n - c)) ((k + c) mod 2 ^ 32) (skipped (4096 * c) iob) ?m2"
      using False n k(2) len by (subst disk0_loop.simps) (simp add: iobuf_move_ok io(1) ch(1) skipped_def Let_def)
    moreover have "apart (d_buffer d) DISK0_BUFSIZE (blk_addr d k) (4096 * c)"
      using d k(1) unfolding disk0_ok_def by (auto simp: apart_def blk_addr_def)
    then have "moved d (io_base iob) (blk_addr d k) (4096 * c) m ?m2"
      using len(7) ch(3) by (intro moved_bounce [of "4096 * c"]) (auto simp: memmove_ok memcpy_ok)
    ultimately show ?thesis using False by auto
  qed
qed

lemma disk0_loop_ok:
  assumes d: "disk0_ok d" and k: "k + n \<le> d_blocks d" and io: "io_resid iob = 4096 * n"
    and ap: "apart (d_buffer d) DISK0_BUFSIZE (io_base iob) (4096 * n)" "apart (io_base iob) (4096 * n) (blk_addr d k) (4096 * n)"
  shows "\<exists>m'. disk0_loop d write (4096 * n) k iob m = Some (skipped (4096 * n) iob, m') \<and>
    moved d (if write then blk_addr d k else io_base iob) (if write then io_base iob else blk_addr d k) (4096 * n) m m'"
  using k io ap
proof (induction n arbitrary: k iob m rule: less_induct)
  case (less n)
  show ?case
  proof (cases "n = 0")
    case True
    then show ?thesis by (subst disk0_loop.simps) (auto simp: skipped_def moved_def)
  next
    case False
    define c where "c = min 4 n"
    have c: "0 < c" "c \<le> 4" "c \<le> n" "n - c < n" using False by (auto simp: c_def)
    have ap1: "apart (d_buffer d) DISK0_BUFSIZE (io_base iob) (4096 * c)" "apart (io_base iob) (4096 * c) (blk_addr d k) (4096 * c)"
      using less.prems(3,4) c(3) by (auto simp: apart_def)
    have kc: "k + c \<le> d_blocks d" using less.prems(1) c(3) by linarith
    obtain m1 where m1: "disk0_loop d write (4096 * n) k iob m =
        disk0_loop d write (4096 * (n - c)) ((k + c) mod 2 ^ 32) (skipped (4096 * c) iob) m1"
      "moved d (if write then blk_addr d k else io_base iob) (if write then io_base iob else blk_addr d k) (4096 * c) m m1"
      using disk0_chunk [OF d kc c(1,2) less.prems(2) c_def ap1] by blast
    have "8 * d_blocks d \<le> MAX_DISK_NSECS" using d unfolding disk0_ok_def by linarith
    then have wrap: "(k + c) mod 2 ^ 32 = k + c" using kc by simp
    have adr: "blk_addr d (k + c) = blk_addr d k + 4096 * c" by (simp add: blk_addr_def algebra_simps)
    have nn: "4096 * n = 4096 * c + 4096 * (n - c)" using c(3) by (simp add: algebra_simps)
    have "k + c + (n - c) \<le> d_blocks d" "io_resid (skipped (4096 * c) iob) = 4096 * (n - c)"
      "apart (d_buffer d) DISK0_BUFSIZE (io_base (skipped (4096 * c) iob)) (4096 * (n - c))"
      "apart (io_base (skipped (4096 * c) iob)) (4096 * (n - c)) (blk_addr d (k + c)) (4096 * (n - c))"
      using less.prems c(3) nn adr by (auto simp: apart_def)
    from less.IH [OF c(4) this, of m1] obtain m2 where m2:
      "disk0_loop d write (4096 * (n - c)) (k + c) (skipped (4096 * c) iob) m1 =
        Some (skipped (4096 * (n - c)) (skipped (4096 * c) iob), m2)"
      "moved d (if write then blk_addr d k + 4096 * c else io_base iob + 4096 * c)
        (if write then io_base iob + 4096 * c else blk_addr d k + 4096 * c) (4096 * (n - c)) m1 m2"
      unfolding adr skipped_sel by blast
    have img: "apart (d_buffer d) DISK0_BUFSIZE (blk_addr d k) (4096 * n)"
      using d less.prems(1) unfolding disk0_ok_def by (auto simp: apart_def blk_addr_def)
    have "moved d (if write then blk_addr d k else io_base iob) (if write then io_base iob else blk_addr d k)
      (4096 * c + 4096 * (n - c)) m m2"
      using m1(2) m2(2) less.prems(3,4) img nn
      by (intro moved_append [of d _ _ _ m m1]) (auto simp: apart_def split: if_splits)
    then show ?thesis using m1(1) m2(1) wrap nn skipped_skipped [of "4096 * c" "4096 * (n - c)" iob] less.prems(2) by auto
  qed
qed

text \<open>C21: \<^verbatim>\<open>disk0_io\<close> implements a transfer of whole blocks. For a block-aligned \<^verbatim>\<open>iobuf\<close> inside the
  device it returns 0 with the \<^verbatim>\<open>iobuf\<close> used up, and outside the bounce buffer memory changes exactly at
  the destination, which gets the bytes of the source: the user buffer from the disk image, or the image
  from the user buffer. A range that ends past the device, but below block \<open>2 ^ 32\<close>, gives \<^verbatim>\<open>-E_INVAL\<close> and changes
  nothing. (The bound \<open>k + n < 2 ^ 32\<close> is needed: the code computes block numbers in 32 bits, so at and above block
  \<open>2 ^ 32\<close> its range check looks at the wrapped number.)\<close>

theorem disk0_io_transfers:
  assumes d: "disk0_ok d" and k: "k + n < 2 ^ 32"
    and ap: "apart (d_buffer d) DISK0_BUFSIZE base (4096 * n)" "apart base (4096 * n) (blk_addr d k) (4096 * n)"
  shows "if k + n \<le> d_blocks d
    then \<exists>iob' m'. disk0_io d write (iobuf_init base (4096 * n) (4096 * int k)) m = Some (0, iob', m') \<and> io_resid iob' = 0 \<and>
      (\<forall>a. \<not> in_buffer d a \<longrightarrow> m' a =
        (if write then if blk_addr d k \<le> a \<and> a < blk_addr d k + 4096 * n then m (base + (a - blk_addr d k)) else m a
         else if base \<le> a \<and> a < base + 4096 * n then m (blk_addr d k + (a - base)) else m a))
    else disk0_io d write (iobuf_init base (4096 * n) (4096 * int k)) m =
      Some (- E_INVAL, iobuf_init base (4096 * n) (4096 * int k), m)"
proof -
  let ?iob = "iobuf_init base (4096 * n) (4096 * int k)"
  have sel: "io_offset ?iob = 4096 * int k" "io_resid ?iob = 4096 * n" "io_base ?iob = base" by (simp_all add: iobuf_init_def)
  have blk: "nat ((4096 * int k) div 4096 mod 2 ^ 32) = k" "(4096 * n div 4096) mod 2 ^ 32 = n" "(k + n) mod 2 ^ 32 = k + n"
    using k by simp_all
  show ?thesis
  proof (cases "k + n \<le> d_blocks d")
    case True
    obtain m' where m': "disk0_loop d write (4096 * n) k ?iob m = Some (skipped (4096 * n) ?iob, m')"
      "moved d (if write then blk_addr d k else base) (if write then base else blk_addr d k) (4096 * n) m m'"
      using disk0_loop_ok [OF d True sel(2), of "write" m] ap unfolding sel(3) by blast
    show ?thesis
    proof (cases "n = 0")
      case True
      then show ?thesis using blk sel \<open>k + n \<le> d_blocks d\<close> by (auto simp: disk0_io_def Let_def)
    next
      case False
      then have "disk0_io d write ?iob m = Some (0, skipped (4096 * n) ?iob, m')"
        using blk sel True m'(1) by (simp add: disk0_io_def Let_def)
      then show ?thesis using True m'(2) sel by (auto simp: moved_def)
    qed
  next
    case False
    then show ?thesis using blk sel by (simp add: disk0_io_def Let_def)
  qed
qed

lemma sample_disk_ok:
  "disk0_ok \<lparr>d_blocks = 8, d_buffer = 0, d_ide = \<lparr>valid = True, sectors = 64, iobase = 0x10000\<rparr>\<rparr>"
  by (simp add: disk0_ok_def apart_def)

theorem disk0_io_transfers_witness:
  "disk0_io \<lparr>d_blocks = 8, d_buffer = 0, d_ide = \<lparr>valid = True, sectors = 64, iobase = 0x10000\<rparr>\<rparr> True
     (iobuf_init 0x8000 4096 (4096 * int 8)) (\<lambda>_. 0) = Some (- E_INVAL, iobuf_init 0x8000 4096 (4096 * int 8), \<lambda>_. 0) \<and>
   (\<exists>iob' m'. disk0_io \<lparr>d_blocks = 8, d_buffer = 0, d_ide = \<lparr>valid = True, sectors = 64, iobase = 0x10000\<rparr>\<rparr> False
     (iobuf_init 0x8000 8192 (4096 * int 2)) (\<lambda>a. of_nat a) = Some (0, iob', m') \<and> m' 0x8003 = of_nat 0x12003)"
  using disk0_io_transfers [OF sample_disk_ok, of 8 1 "0x8000" True "\<lambda>_. 0"]
    disk0_io_transfers [OF sample_disk_ok, of 2 2 "0x8000" False "\<lambda>a. of_nat a"]
  by (fastforce simp: apart_def blk_addr_def in_buffer_def dest: spec [of _ "0x8003"])

end
