(* ===== verification/File_Table.thy ===== *)
theory File_Table
  imports Disk0
begin

unbundle bit_operations_syntax

section \<open>Open files: descriptors, inode counts, VFS open (fs/file.c, fs/fs.c, fs/vfs/inode.c, fs/vfs/vfsfile.c)\<close>

text \<open>
  Every process has a \<^verbatim>\<open>files_struct\<close>, an array of descriptor slots; a slot that is open holds a counted
  reference to an inode. The operations on an inode are function pointers in the code. Here the table \<^verbatim>\<open>in_ops\<close> of an
  inode is the set of the operations that are not NULL in it, and what the operations do is the record \<open>vops\<close>;
  they act on a world \<open>'w\<close> (the file system below). The calls of \<^verbatim>\<open>vop_close\<close> and \<^verbatim>\<open>vop_reclaim\<close>,
  whose results the code only prints, are logged in the state. The length of an array is
  \<^verbatim>\<open>FILES_STRUCT_NENTRY\<close>. \<open>tables_ok F s\<close> is the invariant for the live tables \<open>F\<close>; what the calls do to it is
  in the theory \<open>File_Calls\<close>.
\<close>

subsection \<open>Inodes\<close>

abbreviation (input) E_NOENT :: int where "E_NOENT \<equiv> 16"
abbreviation (input) E_BUSY :: int where "E_BUSY \<equiv> 15"
abbreviation (input) E_MAX_OPEN :: int where "E_MAX_OPEN \<equiv> 22"
abbreviation (input) E_EXISTS :: int where "E_EXISTS \<equiv> 23"
abbreviation (input) MAX_INODE_COUNT :: int where "MAX_INODE_COUNT \<equiv> 0x10000"

datatype vop_name = VOpen | VClose | VRead | VWrite | VFstat | VFsync | VNamefile | VGetdirentry | VReclaim | VGettype
  | VTryseek | VTruncate | VCreate | VLookup | VIoctl

record inode =
  ref_count :: int
  open_count :: int
  in_ops :: "vop_name set"

text \<open>The three operation tables of the repository: directories and files of the simple file system, and devices.\<close>

definition sfs_node_dirops :: "vop_name set" where
  "sfs_node_dirops = {VOpen, VClose, VFstat, VFsync, VNamefile, VGetdirentry, VReclaim, VGettype, VLookup}"

definition sfs_node_fileops :: "vop_name set" where
  "sfs_node_fileops = {VOpen, VClose, VRead, VWrite, VFstat, VFsync, VReclaim, VGettype, VTryseek, VTruncate}"

definition dev_node_ops :: "vop_name set" where
  "dev_node_ops = {VOpen, VClose, VRead, VWrite, VFstat, VIoctl, VGettype, VTryseek, VLookup}"

datatype vop_call = VopClose nat | VopReclaim nat

datatype file_status = FD_NONE | FD_INIT | FD_OPENED | FD_CLOSED

record file_struct =
  fstatus :: file_status
  readable :: bool
  writable :: bool
  fd :: int
  fpos :: int
  fnode :: "nat option"
  fopen_count :: int

record files_struct =
  pwd :: "nat option"
  fd_array :: "file_struct list"
  files_count :: int

record 'w files_state =
  inodes :: "nat \<Rightarrow> inode"
  filess :: "nat \<Rightarrow> files_struct"
  cur_files :: nat
  calls :: "vop_call list"
  world :: 'w

definition upd_inode :: "nat \<Rightarrow> (inode \<Rightarrow> inode) \<Rightarrow> 'w files_state \<Rightarrow> 'w files_state" where
  "upd_inode n f s = s\<lparr>inodes := (inodes s)(n := f (inodes s n))\<rparr>"

definition inode_check :: "nat \<Rightarrow> 'w files_state \<Rightarrow> unit option" where
  "inode_check n s = do {
     massert (open_count (inodes s n) \<le> ref_count (inodes s n) \<and> 0 \<le> open_count (inodes s n));
     massert (ref_count (inodes s n) < MAX_INODE_COUNT \<and> open_count (inodes s n) < MAX_INODE_COUNT)
   }"

text \<open>The macro \<^verbatim>\<open>__vop_op\<close>: the operation is not NULL and the inode passes its check.\<close>

definition vop_op :: "nat \<Rightarrow> vop_name \<Rightarrow> 'w files_state \<Rightarrow> unit option" where
  "vop_op n vn s = do { massert (vn \<in> in_ops (inodes s n)); inode_check n s }"

definition inode_ref_inc :: "nat \<Rightarrow> 'w files_state \<Rightarrow> 'w files_state" where
  "inode_ref_inc n s = upd_inode n (\<lambda>i. i\<lparr>ref_count := ref_count i + 1\<rparr>) s"

definition inode_open_inc :: "nat \<Rightarrow> 'w files_state \<Rightarrow> 'w files_state" where
  "inode_open_inc n s = upd_inode n (\<lambda>i. i\<lparr>open_count := open_count i + 1\<rparr>) s"

definition inode_ref_dec :: "nat \<Rightarrow> 'w files_state \<Rightarrow> 'w files_state option" where
  "inode_ref_dec n s = do {
     massert (ref_count (inodes s n) > 0);
     let s = upd_inode n (\<lambda>i. i\<lparr>ref_count := ref_count i - 1\<rparr>) s;
     if ref_count (inodes s n) = 0 then do { vop_op n VReclaim s; Some (s\<lparr>calls := calls s @ [VopReclaim n]\<rparr>) } else Some s
   }"

definition inode_open_dec :: "nat \<Rightarrow> 'w files_state \<Rightarrow> 'w files_state option" where
  "inode_open_dec n s = do {
     massert (open_count (inodes s n) > 0);
     let s = upd_inode n (\<lambda>i. i\<lparr>open_count := open_count i - 1\<rparr>) s;
     if open_count (inodes s n) = 0 then do { vop_op n VClose s; Some (s\<lparr>calls := calls s @ [VopClose n]\<rparr>) } else Some s
   }"

subsection \<open>Operations of an inode\<close>

record 'w vops =
  op_lookup :: "nat list \<Rightarrow> 'w \<Rightarrow> ((int + nat) \<times> 'w) option"
  op_lookup_parent :: "nat list \<Rightarrow> 'w \<Rightarrow> ((int + nat) \<times> 'w) option"
  op_create :: "nat \<Rightarrow> nat list \<Rightarrow> bool \<Rightarrow> 'w \<Rightarrow> ((int + nat) \<times> 'w) option"
  op_open :: "nat \<Rightarrow> 32 word \<Rightarrow> 'w \<Rightarrow> (int \<times> 'w) option"
  op_read :: "nat \<Rightarrow> iobuf \<Rightarrow> 'w \<Rightarrow> (int \<times> iobuf \<times> 'w) option"
  op_write :: "nat \<Rightarrow> iobuf \<Rightarrow> 'w \<Rightarrow> (int \<times> iobuf \<times> 'w) option"
  op_fstat :: "nat \<Rightarrow> 'w \<Rightarrow> (int \<times> nat \<times> 'w) option"
  op_fsync :: "nat \<Rightarrow> 'w \<Rightarrow> (int \<times> 'w) option"
  op_tryseek :: "nat \<Rightarrow> int \<Rightarrow> 'w \<Rightarrow> (int \<times> 'w) option"
  op_truncate :: "nat \<Rightarrow> int \<Rightarrow> 'w \<Rightarrow> (int \<times> 'w) option"

text \<open>A call of an operation: \<^verbatim>\<open>__vop_op\<close>, then the operation runs on the world.\<close>

definition vop :: "nat \<Rightarrow> vop_name \<Rightarrow> ('w \<Rightarrow> (int \<times> 'w) option) \<Rightarrow> 'w files_state \<Rightarrow> (int \<times> 'w files_state) option" where
  "vop n vn f s = do {
     vop_op n vn s;
     (ret, w) \<leftarrow> f (world s);
     Some (ret, s\<lparr>world := w\<rparr>)
   }"

definition vfs_close :: "nat \<Rightarrow> 'w files_state \<Rightarrow> 'w files_state option" where
  "vfs_close n s = do { s \<leftarrow> inode_open_dec n s; inode_ref_dec n s }"

subsection \<open>VFS open\<close>

abbreviation (input) O_WRONLY :: "32 word" where "O_WRONLY \<equiv> 1"
abbreviation (input) O_RDWR :: "32 word" where "O_RDWR \<equiv> 2"
abbreviation (input) O_CREAT :: "32 word" where "O_CREAT \<equiv> 4"
abbreviation (input) O_EXCL :: "32 word" where "O_EXCL \<equiv> 8"
abbreviation (input) O_TRUNC :: "32 word" where "O_TRUNC \<equiv> 16"
abbreviation (input) O_APPEND :: "32 word" where "O_APPEND \<equiv> 32"
abbreviation (input) O_ACCMODE :: "32 word" where "O_ACCMODE \<equiv> 3"

text \<open>A lookup hands back an inode with a reference of its own.\<close>

definition looked_up :: "((int + nat) \<times> 'w) option \<Rightarrow> 'w files_state \<Rightarrow> ((int + nat) \<times> 'w files_state) option" where
  "looked_up r s = do {
     (r, w) \<leftarrow> r;
     let s = s\<lparr>world := w\<rparr>;
     Some (r, case r of Inl ret \<Rightarrow> s | Inr n \<Rightarrow> inode_ref_inc n s)
   }"

definition vfs_open_node :: "'w vops \<Rightarrow> 32 word \<Rightarrow> nat \<Rightarrow> 'w files_state \<Rightarrow> ((int + nat) \<times> 'w files_state) option" where
  "vfs_open_node ops open_flags n s = do {
     (ret, s) \<leftarrow> vop n VOpen (op_open ops n open_flags) s;
     if ret \<noteq> 0 then do { s \<leftarrow> inode_ref_dec n s; Some (Inl ret, s) }
     else let s = inode_open_inc n s in
       if open_flags AND O_TRUNC \<noteq> 0 \<or> open_flags AND O_CREAT \<noteq> 0 then do {
         (ret, s) \<leftarrow> vop n VTruncate (op_truncate ops n 0) s;
         if ret \<noteq> 0 then do { s \<leftarrow> inode_open_dec n s; s \<leftarrow> inode_ref_dec n s; Some (Inl ret, s) } else Some (Inr n, s)
       }
       else Some (Inr n, s)
   }"

definition vfs_open :: "'w vops \<Rightarrow> nat list \<Rightarrow> 32 word \<Rightarrow> 'w files_state \<Rightarrow> ((int + nat) \<times> 'w files_state) option" where
  "vfs_open ops path open_flags s =
     (let acc = open_flags AND O_ACCMODE; can_write = (acc = O_WRONLY \<or> acc = O_RDWR);
          excl = (open_flags AND O_EXCL \<noteq> 0); create = (open_flags AND O_CREAT \<noteq> 0) in
      if acc = O_ACCMODE then Some (Inl (- E_INVAL), s)
      else if open_flags AND O_TRUNC \<noteq> 0 \<and> \<not> can_write then Some (Inl (- E_INVAL), s)
      else do {
        (r, s) \<leftarrow> looked_up (op_lookup ops path (world s)) s;
        case r of
          Inr n \<Rightarrow> if excl \<and> create then Some (Inl (- E_EXISTS), s) else vfs_open_node ops open_flags n s
        | Inl ret \<Rightarrow>
            if ret = - E_NOENT \<and> create then do {
              (r, s) \<leftarrow> looked_up (op_lookup_parent ops path (world s)) s;
              case r of
                Inl ret \<Rightarrow> Some (Inl ret, s)
              | Inr dir \<Rightarrow> do {
                  vop_op dir VCreate s;
                  (r, s) \<leftarrow> looked_up (op_create ops dir path excl (world s)) s;
                  case r of Inl ret \<Rightarrow> None | Inr n \<Rightarrow> vfs_open_node ops open_flags n s
                }
            }
            else Some (Inl ret, s)
      })"

subsection \<open>Descriptor slots\<close>

text \<open>A slot is named by its table and its index.\<close>

abbreviation (input) NO_FD :: int where "NO_FD \<equiv> - 0x9527"

definition slot :: "nat \<Rightarrow> nat \<Rightarrow> 'w files_state \<Rightarrow> file_struct" where
  "slot t i s = fd_array (filess s t) ! i"

definition upd_slot :: "nat \<Rightarrow> nat \<Rightarrow> (file_struct \<Rightarrow> file_struct) \<Rightarrow> 'w files_state \<Rightarrow> 'w files_state" where
  "upd_slot t i f s = s\<lparr>filess := (filess s)(t := (filess s t)\<lparr>fd_array := (fd_array (filess s t))[i := f (slot t i s)]\<rparr>)\<rparr>"

definition nentry :: "nat \<Rightarrow> 'w files_state \<Rightarrow> nat" where
  "nentry t s = length (fd_array (filess s t))"

definition testfd :: "int \<Rightarrow> 'w files_state \<Rightarrow> bool" where
  "testfd n s \<longleftrightarrow> 0 \<le> n \<and> n < int (nentry (cur_files s) s)"

definition get_fd_array :: "'w files_state \<Rightarrow> unit option" where
  "get_fd_array s = massert (files_count (filess s (cur_files s)) > 0)"

definition fd_array_init :: "nat \<Rightarrow> nat \<Rightarrow> 'w files_state \<Rightarrow> 'w files_state" where
  "fd_array_init t n s = fold (\<lambda>i. upd_slot t i (\<lambda>x. x\<lparr>fopen_count := 0, fstatus := FD_NONE, fd := int i\<rparr>)) [0..<n] s"

definition fd_found :: "nat \<Rightarrow> 'w files_state \<Rightarrow> ((int + nat) \<times> 'w files_state) option" where
  "fd_found i s = do {
     massert (fopen_count (slot (cur_files s) i s) = 0);
     Some (Inr i, upd_slot (cur_files s) i (\<lambda>x. x\<lparr>fstatus := FD_INIT, fnode := None\<rparr>) s)
   }"

definition fd_array_alloc :: "int \<Rightarrow> 'w files_state \<Rightarrow> ((int + nat) \<times> 'w files_state) option" where
  "fd_array_alloc n s = do {
     get_fd_array s;
     if n = NO_FD then
       case List.find (\<lambda>i. fstatus (slot (cur_files s) i s) = FD_NONE) [0..<nentry (cur_files s) s] of
         Some i \<Rightarrow> fd_found i s
       | None \<Rightarrow> Some (Inl (- E_MAX_OPEN), s)
     else if testfd n s then
       if fstatus (slot (cur_files s) (nat n) s) = FD_NONE then fd_found (nat n) s else Some (Inl (- E_BUSY), s)
     else Some (Inl (- E_INVAL), s)
   }"

definition fd_array_free :: "nat \<Rightarrow> nat \<Rightarrow> 'w files_state \<Rightarrow> 'w files_state option" where
  "fd_array_free t i s = do {
     massert (fstatus (slot t i s) = FD_INIT \<or> fstatus (slot t i s) = FD_CLOSED);
     massert (fopen_count (slot t i s) = 0);
     s \<leftarrow> (if fstatus (slot t i s) = FD_CLOSED then do { n \<leftarrow> fnode (slot t i s); vfs_close n s } else Some s);
     Some (upd_slot t i (\<lambda>x. x\<lparr>fstatus := FD_NONE\<rparr>) s)
   }"

definition fd_array_acquire :: "nat \<Rightarrow> nat \<Rightarrow> 'w files_state \<Rightarrow> 'w files_state option" where
  "fd_array_acquire t i s = do {
     massert (fstatus (slot t i s) = FD_OPENED);
     Some (upd_slot t i (\<lambda>x. x\<lparr>fopen_count := fopen_count x + 1\<rparr>) s)
   }"

definition fd_count_dec :: "nat \<Rightarrow> nat \<Rightarrow> 'w files_state \<Rightarrow> 'w files_state option" where
  "fd_count_dec t i s = (
     let s = upd_slot t i (\<lambda>x. x\<lparr>fopen_count := fopen_count x - 1\<rparr>) s
     in if fopen_count (slot t i s) = 0 then fd_array_free t i s else Some s)"

definition fd_array_release :: "nat \<Rightarrow> nat \<Rightarrow> 'w files_state \<Rightarrow> 'w files_state option" where
  "fd_array_release t i s = do {
     massert (fstatus (slot t i s) = FD_OPENED \<or> fstatus (slot t i s) = FD_CLOSED);
     massert (fopen_count (slot t i s) > 0);
     fd_count_dec t i s
   }"

definition fd_array_open :: "nat \<Rightarrow> nat \<Rightarrow> 'w files_state \<Rightarrow> 'w files_state option" where
  "fd_array_open t i s = do {
     massert (fstatus (slot t i s) = FD_INIT \<and> fnode (slot t i s) \<noteq> None);
     Some (upd_slot t i (\<lambda>x. x\<lparr>fstatus := FD_OPENED, fopen_count := fopen_count x + 1\<rparr>) s)
   }"

definition fd_array_close :: "nat \<Rightarrow> nat \<Rightarrow> 'w files_state \<Rightarrow> 'w files_state option" where
  "fd_array_close t i s = do {
     massert (fstatus (slot t i s) = FD_OPENED);
     massert (fopen_count (slot t i s) > 0);
     fd_count_dec t i (upd_slot t i (\<lambda>x. x\<lparr>fstatus := FD_CLOSED\<rparr>) s)
   }"

definition fd_array_dup :: "nat \<Rightarrow> nat \<Rightarrow> nat \<Rightarrow> nat \<Rightarrow> 'w files_state \<Rightarrow> 'w files_state option" where
  "fd_array_dup t i t' i' s = do {
     massert (fstatus (slot t i s) = FD_INIT \<and> fstatus (slot t' i' s) = FD_OPENED);
     let from = slot t' i' s;
     let s = upd_slot t i (\<lambda>x. x\<lparr>fpos := fpos from, readable := readable from, writable := writable from\<rparr>) s;
     n \<leftarrow> fnode from;
     let s = inode_open_inc n (inode_ref_inc n s);
     fd_array_open t i (upd_slot t i (\<lambda>x. x\<lparr>fnode := Some n\<rparr>) s)
   }"

definition fd2file :: "int \<Rightarrow> 'w files_state \<Rightarrow> (int + nat) option" where
  "fd2file n s =
     (if testfd n s then do {
        get_fd_array s;
        if fstatus (slot (cur_files s) (nat n) s) = FD_OPENED \<and> fd (slot (cur_files s) (nat n) s) = n
        then Some (Inr (nat n)) else Some (Inl (- E_INVAL))
      } else Some (Inl (- E_INVAL)))"

definition file_testfd :: "int \<Rightarrow> bool \<Rightarrow> bool \<Rightarrow> 'w files_state \<Rightarrow> bool option" where
  "file_testfd n rd wr s = do {
     r \<leftarrow> fd2file n s;
     case r of
       Inl _ \<Rightarrow> Some False
     | Inr i \<Rightarrow> let x = slot (cur_files s) i s in Some (\<not> (rd \<and> \<not> readable x) \<and> \<not> (wr \<and> \<not> writable x))
   }"

subsection \<open>File operations\<close>

definition file_opened :: "bool \<Rightarrow> bool \<Rightarrow> nat \<Rightarrow> nat \<Rightarrow> 'w files_state \<Rightarrow> (int \<times> 'w files_state) option" where
  "file_opened rd wr i n s = do {
     let s = upd_slot (cur_files s) i (\<lambda>x. x\<lparr>fnode := Some n, readable := rd, writable := wr\<rparr>) s;
     s \<leftarrow> fd_array_open (cur_files s) i s;
     Some (fd (slot (cur_files s) i s), s)
   }"

definition vop_fstat :: "'w vops \<Rightarrow> nat \<Rightarrow> 'w files_state \<Rightarrow> (int \<times> nat \<times> 'w files_state) option" where
  "vop_fstat ops n s = do {
     vop_op n VFstat s;
     (ret, st_size, w) \<leftarrow> op_fstat ops n (world s);
     Some (ret, st_size, s\<lparr>world := w\<rparr>)
   }"

definition file_open :: "'w vops \<Rightarrow> nat list \<Rightarrow> 32 word \<Rightarrow> 'w files_state \<Rightarrow> (int \<times> 'w files_state) option" where
  "file_open ops path open_flags s =
     (let acc = open_flags AND O_ACCMODE; rd = (acc = 0 \<or> acc = O_RDWR); wr = (acc = O_WRONLY \<or> acc = O_RDWR) in
      if \<not> rd \<and> \<not> wr then Some (- E_INVAL, s)
      else do {
        (r, s) \<leftarrow> fd_array_alloc NO_FD s;
        case r of
          Inl ret \<Rightarrow> Some (ret, s)
        | Inr i \<Rightarrow> do {
            (r, s) \<leftarrow> vfs_open ops path open_flags s;
            case r of
              Inl ret \<Rightarrow> do { s \<leftarrow> fd_array_free (cur_files s) i s; Some (ret, s) }
            | Inr n \<Rightarrow>
                let s = upd_slot (cur_files s) i (\<lambda>x. x\<lparr>fpos := 0\<rparr>) s in
                if open_flags AND O_APPEND \<noteq> 0 then do {
                  (ret, st_size, s) \<leftarrow> vop_fstat ops n s;
                  if ret \<noteq> 0 then do { s \<leftarrow> vfs_close n s; s \<leftarrow> fd_array_free (cur_files s) i s; Some (ret, s) }
                  else file_opened rd wr i n (upd_slot (cur_files s) i (\<lambda>x. x\<lparr>fpos := int st_size\<rparr>) s)
                }
                else file_opened rd wr i n s
          }
      })"

definition file_close :: "int \<Rightarrow> 'w files_state \<Rightarrow> (int \<times> 'w files_state) option" where
  "file_close n s = do {
     r \<leftarrow> fd2file n s;
     case r of
       Inl ret \<Rightarrow> Some (ret, s)
     | Inr i \<Rightarrow> do { s \<leftarrow> fd_array_close (cur_files s) i s; Some (0, s) }
   }"

definition iobuf_used :: "iobuf \<Rightarrow> nat" where
  "iobuf_used iob = unat (word_of_nat (io_len iob) - word_of_nat (io_resid iob) :: 64 word)"

text \<open>\<^verbatim>\<open>file_read\<close> and \<^verbatim>\<open>file_write\<close> are the same but for the permission and the operation.\<close>

definition file_rw :: "bool \<Rightarrow> vop_name \<Rightarrow> (nat \<Rightarrow> iobuf \<Rightarrow> 'w \<Rightarrow> (int \<times> iobuf \<times> 'w) option) \<Rightarrow> nat \<Rightarrow> nat \<Rightarrow> nat \<Rightarrow> 'w files_state \<Rightarrow>
    (int \<times> nat \<times> 'w files_state) option" where
  "file_rw allowed vn f i base len s =
     (if \<not> allowed then Some (- E_INVAL, 0, s)
      else do {
        s \<leftarrow> fd_array_acquire (cur_files s) i s;
        let iob = iobuf_init base len (fpos (slot (cur_files s) i s));
        n \<leftarrow> fnode (slot (cur_files s) i s);
        vop_op n vn s;
        (ret, iob, w) \<leftarrow> f n iob (world s);
        let s = s\<lparr>world := w\<rparr>;
        let copied = iobuf_used iob;
        let s = (if fstatus (slot (cur_files s) i s) = FD_OPENED
                 then upd_slot (cur_files s) i (\<lambda>x. x\<lparr>fpos := fpos x + int copied\<rparr>) s else s);
        s \<leftarrow> fd_array_release (cur_files s) i s;
        Some (ret, copied, s)
      })"

definition file_read :: "'w vops \<Rightarrow> int \<Rightarrow> nat \<Rightarrow> nat \<Rightarrow> 'w files_state \<Rightarrow> (int \<times> nat \<times> 'w files_state) option" where
  "file_read ops n base len s = do {
     r \<leftarrow> fd2file n s;
     case r of Inl ret \<Rightarrow> Some (ret, 0, s) | Inr i \<Rightarrow> file_rw (readable (slot (cur_files s) i s)) VRead (op_read ops) i base len s
   }"

definition file_write :: "'w vops \<Rightarrow> int \<Rightarrow> nat \<Rightarrow> nat \<Rightarrow> 'w files_state \<Rightarrow> (int \<times> nat \<times> 'w files_state) option" where
  "file_write ops n base len s = do {
     r \<leftarrow> fd2file n s;
     case r of Inl ret \<Rightarrow> Some (ret, 0, s) | Inr i \<Rightarrow> file_rw (writable (slot (cur_files s) i s)) VWrite (op_write ops) i base len s
   }"

definition file_seek :: "'w vops \<Rightarrow> int \<Rightarrow> int \<Rightarrow> nat \<Rightarrow> 'w files_state \<Rightarrow> (int \<times> 'w files_state) option" where
  "file_seek ops n pos whence s = do {
     r \<leftarrow> fd2file n s;
     case r of
       Inl ret \<Rightarrow> Some (ret, s)
     | Inr i \<Rightarrow> do {
         s \<leftarrow> fd_array_acquire (cur_files s) i s;
         node \<leftarrow> fnode (slot (cur_files s) i s);
         (ret, pos, s) \<leftarrow>
           (if whence = 0 then Some (0, pos, s)
            else if whence = 1 then Some (0, pos + fpos (slot (cur_files s) i s), s)
            else if whence = 2 then do {
              (ret, st_size, s) \<leftarrow> vop_fstat ops node s;
              Some (ret, if ret = 0 then pos + int st_size else pos, s)
            }
            else Some (- E_INVAL, pos, s));
         (ret, s) \<leftarrow>
           (if ret = 0 then do {
              (ret, s) \<leftarrow> vop node VTryseek (op_tryseek ops node pos) s;
              Some (ret, if ret = 0 then upd_slot (cur_files s) i (\<lambda>x. x\<lparr>fpos := pos\<rparr>) s else s)
            }
            else Some (ret, s));
         s \<leftarrow> fd_array_release (cur_files s) i s;
         Some (ret, s)
       }
   }"

definition file_fstat :: "'w vops \<Rightarrow> int \<Rightarrow> 'w files_state \<Rightarrow> (int \<times> nat \<times> 'w files_state) option" where
  "file_fstat ops n s = do {
     r \<leftarrow> fd2file n s;
     case r of
       Inl ret \<Rightarrow> Some (ret, 0, s)
     | Inr i \<Rightarrow> do {
         s \<leftarrow> fd_array_acquire (cur_files s) i s;
         node \<leftarrow> fnode (slot (cur_files s) i s);
         (ret, st_size, s) \<leftarrow> vop_fstat ops node s;
         s \<leftarrow> fd_array_release (cur_files s) i s;
         Some (ret, st_size, s)
       }
   }"

definition file_fsync :: "'w vops \<Rightarrow> int \<Rightarrow> 'w files_state \<Rightarrow> (int \<times> 'w files_state) option" where
  "file_fsync ops n s = do {
     r \<leftarrow> fd2file n s;
     case r of
       Inl ret \<Rightarrow> Some (ret, s)
     | Inr i \<Rightarrow> do {
         s \<leftarrow> fd_array_acquire (cur_files s) i s;
         node \<leftarrow> fnode (slot (cur_files s) i s);
         (ret, s) \<leftarrow> vop node VFsync (op_fsync ops node) s;
         s \<leftarrow> fd_array_release (cur_files s) i s;
         Some (ret, s)
       }
   }"

definition file_dup :: "int \<Rightarrow> int \<Rightarrow> 'w files_state \<Rightarrow> (int \<times> 'w files_state) option" where
  "file_dup fd1 fd2 s = do {
     r \<leftarrow> fd2file fd1 s;
     case r of
       Inl ret \<Rightarrow> Some (ret, s)
     | Inr i1 \<Rightarrow> do {
         (r, s) \<leftarrow> fd_array_alloc fd2 s;
         case r of
           Inl ret \<Rightarrow> Some (ret, s)
         | Inr i2 \<Rightarrow> do {
             s \<leftarrow> fd_array_dup (cur_files s) i2 (cur_files s) i1 s;
             Some (fd (slot (cur_files s) i2 s), s)
           }
       }
   }"

subsection \<open>Descriptor tables (fs/fs.c)\<close>

text \<open>The number of slots: what is left of a page after the 48 bytes of \<^verbatim>\<open>struct files_struct\<close>, in slots of 56 bytes (\<^verbatim>\<open>bool\<close> is a \<^verbatim>\<open>long long\<close> here).\<close>

definition FILES_STRUCT_NENTRY :: nat where
  "FILES_STRUCT_NENTRY = (4096 - 48) div 56"

definition files_count_inc :: "nat \<Rightarrow> 'w files_state \<Rightarrow> 'w files_state" where
  "files_count_inc t s = s\<lparr>filess := (filess s)(t := (filess s t)\<lparr>files_count := files_count (filess s t) + 1\<rparr>)\<rparr>"

definition files_count_dec :: "nat \<Rightarrow> 'w files_state \<Rightarrow> 'w files_state" where
  "files_count_dec t s = s\<lparr>filess := (filess s)(t := (filess s t)\<lparr>files_count := files_count (filess s t) - 1\<rparr>)\<rparr>"

definition files_create :: "nat \<Rightarrow> nat option \<Rightarrow> 'w files_state \<Rightarrow> nat option \<times> 'w files_state" where
  "files_create n kmalloc s =
     (case kmalloc of
        None \<Rightarrow> (None, s)
      | Some t \<Rightarrow>
          let s = s\<lparr>filess := (filess s)(t := (filess s t)\<lparr>pwd := None, files_count := 0\<rparr>)\<rparr>
          in (Some t, fd_array_init t n s))"

primrec close_slots :: "nat \<Rightarrow> bool \<Rightarrow> nat list \<Rightarrow> 'w files_state \<Rightarrow> 'w files_state option" where
  "close_slots t check [] s = Some s"
| "close_slots t check (i # is) s = do {
     s \<leftarrow> (if fstatus (slot t i s) = FD_OPENED then fd_array_close t i s else Some s);
     massert (check \<longrightarrow> fstatus (slot t i s) = FD_NONE);
     close_slots t check is s
   }"

definition files_destroy :: "nat \<Rightarrow> 'w files_state \<Rightarrow> 'w files_state option" where
  "files_destroy t s = do {
     massert (files_count (filess s t) = 0);
     s \<leftarrow> (case pwd (filess s t) of Some n \<Rightarrow> inode_ref_dec n s | None \<Rightarrow> Some s);
     close_slots t True [0..<nentry t s] s
   }"

definition files_closeall :: "nat \<Rightarrow> 'w files_state \<Rightarrow> 'w files_state option" where
  "files_closeall t s = do {
     massert (files_count (filess s t) > 0);
     close_slots t False [2..<nentry t s] s
   }"

primrec dup_slots :: "nat \<Rightarrow> nat \<Rightarrow> nat list \<Rightarrow> 'w files_state \<Rightarrow> 'w files_state option" where
  "dup_slots t t' [] s = Some s"
| "dup_slots t t' (i # is) s = do {
     s \<leftarrow> (if fstatus (slot t' i s) = FD_OPENED
           then fd_array_dup t i t' i (upd_slot t i (\<lambda>x. x\<lparr>fstatus := FD_INIT\<rparr>) s) else Some s);
     dup_slots t t' is s
   }"

definition dup_files :: "nat \<Rightarrow> nat \<Rightarrow> 'w files_state \<Rightarrow> 'w files_state option" where
  "dup_files t t' s = do {
     massert (files_count (filess s t) = 0 \<and> files_count (filess s t') > 0);
     let s = s\<lparr>filess := (filess s)(t := (filess s t)\<lparr>pwd := pwd (filess s t')\<rparr>)\<rparr>;
     let s = (case pwd (filess s t') of Some n \<Rightarrow> inode_ref_inc n s | None \<Rightarrow> s);
     dup_slots t t' [0..<nentry t' s] s
   }"

subsection \<open>Selectors\<close>

lemma upd_slot_sel [simp]:
  "inodes (upd_slot t i f s) = inodes s" "calls (upd_slot t i f s) = calls s" "world (upd_slot t i f s) = world s"
  "cur_files (upd_slot t i f s) = cur_files s" "nentry t' (upd_slot t i f s) = nentry t' s"
  "pwd (filess (upd_slot t i f s) t') = pwd (filess s t')" "files_count (filess (upd_slot t i f s) t') = files_count (filess s t')"
  by (auto simp: upd_slot_def nentry_def)

lemma slot_upd_slot:
  "i < nentry t s \<Longrightarrow> slot t' j (upd_slot t i f s) = (if t' = t \<and> j = i then f (slot t i s) else slot t' j s)"
  by (auto simp: slot_def upd_slot_def nentry_def)

lemma slot_upd_same [simp]: "i < nentry t s \<Longrightarrow> slot t i (upd_slot t i f s) = f (slot t i s)"
  by (simp add: slot_upd_slot)

lemma upd_slot_upd_slot [simp]: "i < nentry t s \<Longrightarrow> upd_slot t i g (upd_slot t i f s) = upd_slot t i (\<lambda>x. g (f x)) s"
  unfolding upd_slot_def slot_def nentry_def by (auto simp: fun_eq_iff intro!: files_state.equality)

lemma slot_cong [simp]:
  "slot t i (s\<lparr>inodes := x\<rparr>) = slot t i s" "slot t i (s\<lparr>calls := c\<rparr>) = slot t i s" "slot t i (s\<lparr>world := w\<rparr>) = slot t i s"
  "nentry t (s\<lparr>inodes := x\<rparr>) = nentry t s" "nentry t (s\<lparr>calls := c\<rparr>) = nentry t s" "nentry t (s\<lparr>world := w\<rparr>) = nentry t s"
  by (simp_all add: slot_def nentry_def)

lemma upd_inode_sel [simp]:
  "filess (upd_inode n f s) = filess s" "cur_files (upd_inode n f s) = cur_files s" "calls (upd_inode n f s) = calls s"
  "world (upd_inode n f s) = world s" "inodes (upd_inode n f s) m = (if m = n then f (inodes s n) else inodes s m)"
  by (simp_all add: upd_inode_def)

lemma slot_filess: "filess s' = filess s \<Longrightarrow> slot t i s' = slot t i s \<and> nentry t s' = nentry t s"
  by (simp add: slot_def nentry_def)

subsection \<open>Counts of inodes\<close>

text \<open>
  \<open>nodes_ok k s\<close>: every inode passes the check of its counts, and \<open>k\<close> more references still do; it can be closed, and one
  that cannot be reclaimed (a device) is referenced from elsewhere as well (\<open>pin\<close>: the list of devices).
  \<open>moved e r s s'\<close>: only the world, the log and the counts of inodes change; open counts by exactly \<open>e\<close>,
  reference counts by at least \<open>r\<close>.
\<close>

definition pin :: "inode \<Rightarrow> int" where
  "pin i = (if VReclaim \<in> in_ops i then 0 else 1)"

lemma pin_nonneg: "0 \<le> pin i"
  by (simp add: pin_def)

lemma pin_cong [simp]: "pin (i\<lparr>ref_count := r\<rparr>) = pin i" "pin (i\<lparr>open_count := r\<rparr>) = pin i"
  by (simp_all add: pin_def)

definition nodes_ok :: "int \<Rightarrow> 'w files_state \<Rightarrow> bool" where
  "nodes_ok k s \<longleftrightarrow> (\<forall>n. 0 \<le> open_count (inodes s n) \<and> open_count (inodes s n) + pin (inodes s n) \<le> ref_count (inodes s n) \<and>
     ref_count (inodes s n) + k < MAX_INODE_COUNT \<and> VClose \<in> in_ops (inodes s n))"

definition one :: "nat \<Rightarrow> nat \<Rightarrow> int" where
  "one n m = (if n = m then 1 else 0)"

definition moved :: "(nat \<Rightarrow> int) \<Rightarrow> (nat \<Rightarrow> int) \<Rightarrow> 'w files_state \<Rightarrow> 'w files_state \<Rightarrow> bool" where
  "moved e r s s' \<longleftrightarrow> filess s' = filess s \<and> cur_files s' = cur_files s \<and>
     (\<forall>n. open_count (inodes s' n) = open_count (inodes s n) + e n \<and> ref_count (inodes s n) + r n \<le> ref_count (inodes s' n) \<and>
       in_ops (inodes s' n) = in_ops (inodes s n))"

lemma moved_self: "moved (\<lambda>_. 0) (\<lambda>_. 0) s s"
  by (simp add: moved_def)

lemma movedI:
  "filess s' = filess s \<Longrightarrow> cur_files s' = cur_files s \<Longrightarrow>
   (\<And>n. open_count (inodes s' n) = open_count (inodes s n) + e n) \<Longrightarrow>
   (\<And>n. ref_count (inodes s n) + r n \<le> ref_count (inodes s' n)) \<Longrightarrow>
   (\<And>n. in_ops (inodes s' n) = in_ops (inodes s n)) \<Longrightarrow> moved e r s s'"
  by (simp add: moved_def)

lemma moved_open: "moved e r s s' \<Longrightarrow> open_count (inodes s' n) = open_count (inodes s n) + e n"
  by (simp add: moved_def)

lemma moved_ref: "moved e r s s' \<Longrightarrow> ref_count (inodes s n) + r n \<le> ref_count (inodes s' n)"
  by (simp add: moved_def)

lemma moved_ops: "moved e r s s' \<Longrightarrow> in_ops (inodes s' n) = in_ops (inodes s n)"
  by (simp add: moved_def)

lemma moved_trans:
  assumes a: "moved e r s s'" and b: "moved e' r' s' s''"
  shows "moved (\<lambda>n. e n + e' n) (\<lambda>n. r n + r' n) s s''"
proof (rule movedI)
  fix n
  show "open_count (inodes s'' n) = open_count (inodes s n) + (e n + e' n)"
    using moved_open [OF a, of n] moved_open [OF b, of n] by simp
  show "ref_count (inodes s n) + (r n + r' n) \<le> ref_count (inodes s'' n)"
    using moved_ref [OF a, of n] moved_ref [OF b, of n] by simp
qed (use a b in \<open>simp_all add: moved_def\<close>)

lemma moved_mono:
  assumes a: "moved e r s s'" and "\<And>n. e n = e' n" and "\<And>n. r' n \<le> r n"
  shows "moved e' r' s s'"
proof (rule movedI)
  fix n
  show "open_count (inodes s' n) = open_count (inodes s n) + e' n"
    using moved_open [OF a, of n] assms(2) [of n] by simp
  show "ref_count (inodes s n) + r' n \<le> ref_count (inodes s' n)"
    using moved_ref [OF a, of n] assms(3) [of n] by simp
qed (use a in \<open>simp_all add: moved_def\<close>)

lemma moved_slot: "moved e r s s' \<Longrightarrow> slot t i s' = slot t i s \<and> nentry t s' = nentry t s"
  by (rule slot_filess) (simp add: moved_def)

lemma nodes_okD:
  assumes "nodes_ok k s"
  shows "0 \<le> open_count (inodes s n)" "open_count (inodes s n) \<le> ref_count (inodes s n)" "ref_count (inodes s n) + k < MAX_INODE_COUNT"
    "open_count (inodes s n) + pin (inodes s n) \<le> ref_count (inodes s n)" "VClose \<in> in_ops (inodes s n)"
proof -
  have "0 \<le> open_count (inodes s n) \<and> open_count (inodes s n) + pin (inodes s n) \<le> ref_count (inodes s n) \<and>
    ref_count (inodes s n) + k < MAX_INODE_COUNT \<and> VClose \<in> in_ops (inodes s n)"
    using assms by (simp add: nodes_ok_def)
  then show "0 \<le> open_count (inodes s n)" "ref_count (inodes s n) + k < MAX_INODE_COUNT"
    "open_count (inodes s n) + pin (inodes s n) \<le> ref_count (inodes s n)" "VClose \<in> in_ops (inodes s n)"
    "open_count (inodes s n) \<le> ref_count (inodes s n)" using pin_nonneg [of "inodes s n"] by linarith+
qed

lemma nodes_ok_check:
  assumes "nodes_ok k s" and "0 \<le> k"
  shows "inode_check n s = Some ()"
proof -
  have "0 \<le> open_count (inodes s n)" "open_count (inodes s n) \<le> ref_count (inodes s n)"
    "ref_count (inodes s n) < MAX_INODE_COUNT" "open_count (inodes s n) < MAX_INODE_COUNT"
    using nodes_okD [OF assms(1), of n] assms(2) by linarith+
  then show ?thesis by (simp add: inode_check_def massert_def)
qed

lemma vop_op_eq:
  assumes "nodes_ok k s" and "0 \<le> k"
  shows "vop_op n vn s = massert (vn \<in> in_ops (inodes s n))"
  using nodes_ok_check [OF assms] by (simp add: vop_op_def massert_def)

lemma nodes_ok_mono:
  assumes "nodes_ok k s" and "j \<le> k"
  shows "nodes_ok j s"
  unfolding nodes_ok_def
proof
  fix n
  show "0 \<le> open_count (inodes s n) \<and> open_count (inodes s n) + pin (inodes s n) \<le> ref_count (inodes s n) \<and>
      ref_count (inodes s n) + j < MAX_INODE_COUNT \<and> VClose \<in> in_ops (inodes s n)"
    using nodes_okD [OF assms(1), of n] assms(2) by (intro conjI) linarith+
qed

lemma nodes_ok_world [simp]: "nodes_ok k (s\<lparr>world := w\<rparr>) = nodes_ok k s"
  by (simp add: nodes_ok_def)

lemma nodes_ok_upd_slot [simp]: "nodes_ok k (upd_slot t i f s) = nodes_ok k s"
  by (simp add: nodes_ok_def)

lemma nodes_ok_upd_inode:
  assumes "nodes_ok k s" and "0 \<le> open_count (f (inodes s n))"
    and "open_count (f (inodes s n)) + pin (inodes s n) \<le> ref_count (f (inodes s n))"
    and "ref_count (f (inodes s n)) + k < MAX_INODE_COUNT" and "in_ops (f (inodes s n)) = in_ops (inodes s n)"
  shows "nodes_ok k (upd_inode n f s)"
  using assms by (simp add: nodes_ok_def pin_def)

lemma ref_inc_ok:
  assumes "nodes_ok (k + 1) s" and "0 \<le> k"
  shows "nodes_ok k (inode_ref_inc n s)" "moved (\<lambda>_. 0) (one n) s (inode_ref_inc n s)"
proof -
  have "nodes_ok k s" by (rule nodes_ok_mono [OF assms(1)]) simp
  show "nodes_ok k (inode_ref_inc n s)" unfolding inode_ref_inc_def
    by (rule nodes_ok_upd_inode) (use \<open>nodes_ok k s\<close> nodes_okD [OF assms(1), of n] assms(2) in simp_all)
  show "moved (\<lambda>_. 0) (one n) s (inode_ref_inc n s)"
    by (simp add: moved_def inode_ref_inc_def one_def)
qed

lemma open_inc_ok:
  assumes "nodes_ok k s" and "open_count (inodes s n) + pin (inodes s n) < ref_count (inodes s n)"
  shows "nodes_ok k (inode_open_inc n s)" "moved (one n) (\<lambda>_. 0) s (inode_open_inc n s)"
proof -
  show "nodes_ok k (inode_open_inc n s)" unfolding inode_open_inc_def
    by (rule nodes_ok_upd_inode) (use assms nodes_okD [OF assms(1), of n] assms(2) in simp_all)
  show "moved (one n) (\<lambda>_. 0) s (inode_open_inc n s)"
    by (simp add: moved_def inode_open_inc_def one_def)
qed

lemma ref_dec_ok:
  assumes ok: "nodes_ok k s" and k: "0 \<le> k" and r: "open_count (inodes s n) + pin (inodes s n) < ref_count (inodes s n)"
  shows "\<exists>s'. inode_ref_dec n s = Some s' \<and> nodes_ok k s' \<and> moved (\<lambda>_. 0) (\<lambda>m. - one n m) s s' \<and> world s' = world s \<and>
    (\<forall>m. ref_count (inodes s' m) = ref_count (inodes s m) - one n m)"
proof -
  define s1 where "s1 = upd_inode n (\<lambda>i. i\<lparr>ref_count := ref_count i - 1\<rparr>) s"
  have ok1: "nodes_ok k s1" unfolding s1_def
    by (rule nodes_ok_upd_inode) (use ok nodes_okD [OF ok, of n] r in simp_all)
  have m1: "moved (\<lambda>_. 0) (\<lambda>m. - one n m) s s1" by (simp add: moved_def s1_def one_def)
  have e1: "\<forall>m. ref_count (inodes s1 m) = ref_count (inodes s m) - one n m" by (simp add: s1_def one_def)
  have pos: "ref_count (inodes s n) > 0" using nodes_okD [OF ok, of n] pin_nonneg [of "inodes s n"] r by linarith
  have rec: "VReclaim \<in> in_ops (inodes s1 n)" if "ref_count (inodes s1 n) = 0"
    using that nodes_okD(1) [OF ok, of n] r by (auto simp: s1_def pin_def split: if_splits)
  have eq: "inode_ref_dec n s = Some (if ref_count (inodes s1 n) = 0 then s1\<lparr>calls := calls s1 @ [VopReclaim n]\<rparr> else s1)"
    using pos rec vop_op_eq [OF ok1 k, of n] by (simp add: inode_ref_dec_def s1_def [symmetric] Let_def massert_def)
  have w: "world s1 = world s" by (simp add: s1_def)
  show ?thesis unfolding eq using ok1 m1 w e1 by (auto simp: nodes_ok_def moved_def)
qed

lemma open_dec_ok:
  assumes ok: "nodes_ok k s" and k: "0 \<le> k" and "0 < open_count (inodes s n)"
  shows "\<exists>s'. inode_open_dec n s = Some s' \<and> nodes_ok k s' \<and> moved (\<lambda>m. - one n m) (\<lambda>_. 0) s s' \<and> world s' = world s \<and>
    (\<forall>m. ref_count (inodes s' m) = ref_count (inodes s m))"
proof -
  define s1 where "s1 = upd_inode n (\<lambda>i. i\<lparr>open_count := open_count i - 1\<rparr>) s"
  have ok1: "nodes_ok k s1" unfolding s1_def
    by (rule nodes_ok_upd_inode) (use ok nodes_okD [OF ok, of n] assms(3) in simp_all)
  have m1: "moved (\<lambda>m. - one n m) (\<lambda>_. 0) s s1" by (simp add: moved_def s1_def one_def)
  have e1: "\<forall>m. ref_count (inodes s1 m) = ref_count (inodes s m)" by (simp add: s1_def)
  have eq: "inode_open_dec n s = Some (if open_count (inodes s1 n) = 0 then s1\<lparr>calls := calls s1 @ [VopClose n]\<rparr> else s1)"
    using assms(3) vop_op_eq [OF ok1 k, of n] nodes_okD(5) [OF ok1, of n]
    by (simp add: inode_open_dec_def s1_def [symmetric] Let_def massert_def)
  have w: "world s1 = world s" by (simp add: s1_def)
  show ?thesis unfolding eq using ok1 m1 w e1 by (auto simp: nodes_ok_def moved_def)
qed

lemma vfs_close_ok:
  assumes ok: "nodes_ok k s" and k: "0 \<le> k" and o: "0 < open_count (inodes s n)"
  shows "\<exists>s'. vfs_close n s = Some s' \<and> nodes_ok k s' \<and> moved (\<lambda>m. - one n m) (\<lambda>m. - one n m) s s' \<and> world s' = world s \<and>
    (\<forall>m. ref_count (inodes s' m) = ref_count (inodes s m) - one n m)"
proof -
  obtain s1 where 1: "inode_open_dec n s = Some s1" "nodes_ok k s1" "moved (\<lambda>m. - one n m) (\<lambda>_. 0) s s1" "world s1 = world s"
      "\<forall>m. ref_count (inodes s1 m) = ref_count (inodes s m)"
    using open_dec_ok [OF ok k o] by blast
  have "pin (inodes s1 n) = pin (inodes s n)" using moved_ops [OF 1(3), of n] by (simp add: pin_def)
  then have "open_count (inodes s1 n) + pin (inodes s1 n) < ref_count (inodes s1 n)"
    using moved_open [OF 1(3), of n] moved_ref [OF 1(3), of n] nodes_okD(4) [OF ok, of n] by (simp add: one_def)
  then obtain s2 where 2: "inode_ref_dec n s1 = Some s2" "nodes_ok k s2" "moved (\<lambda>_. 0) (\<lambda>m. - one n m) s1 s2" "world s2 = world s1"
      "\<forall>m. ref_count (inodes s2 m) = ref_count (inodes s1 m) - one n m"
    using ref_dec_ok [OF 1(2) k, of n] by blast
  have "moved (\<lambda>m. - one n m) (\<lambda>m. - one n m) s s2" using moved_trans [OF 1(3) 2(3)] by simp
  then show ?thesis using 1 2 by (simp add: vfs_close_def)
qed

text \<open>On a well-formed state an operation runs on the world, if the table of its node has it.\<close>

lemma vop_eq:
  assumes "nodes_ok k s" and "0 \<le> k"
  shows "vop n vn f s = (if vn \<in> in_ops (inodes s n) then map_option (\<lambda>(ret, w). (ret, s\<lparr>world := w\<rparr>)) (f (world s)) else None)"
  unfolding vop_def vop_op_eq [OF assms] by (auto simp: massert_def split: option.splits prod.splits bind_splits)

lemma moved_world: "moved (\<lambda>_. 0) (\<lambda>_. 0) s (s\<lparr>world := w\<rparr>)"
  by (simp add: moved_def)

subsection \<open>What opening does to the counts\<close>

text \<open>
  The operations of the file system that opening a path runs, without the counts: \<open>T n\<close> is the operation table of the
  node \<open>n\<close>. \<open>None\<close> is a panic: an operation that the table does not have, or one that panics itself. In the three tables
  of the repository no node can create a file.
\<close>

definition node_effect :: "'w vops \<Rightarrow> (nat \<Rightarrow> vop_name set) \<Rightarrow> 32 word \<Rightarrow> nat \<Rightarrow> 'w \<Rightarrow> (int \<times> 'w) option" where
  "node_effect ops T fl n w = do {
     massert (VOpen \<in> T n);
     (ret, w) \<leftarrow> op_open ops n fl w;
     if ret = 0 \<and> (fl AND O_TRUNC \<noteq> 0 \<or> fl AND O_CREAT \<noteq> 0)
     then do { massert (VTruncate \<in> T n); op_truncate ops n 0 w }
     else Some (ret, w)
   }"

definition opened_node :: "nat \<Rightarrow> (int \<times> 'w) option \<Rightarrow> ((int + nat) \<times> 'w) option" where
  "opened_node n r = map_option (\<lambda>(ret, w). (if ret = 0 then Inr n else Inl ret, w)) r"

definition path_effect :: "'w vops \<Rightarrow> (nat \<Rightarrow> vop_name set) \<Rightarrow> nat list \<Rightarrow> 32 word \<Rightarrow> 'w \<Rightarrow> ((int + nat) \<times> 'w) option" where
  "path_effect ops T path fl w =
     (if fl AND O_ACCMODE = O_ACCMODE \<or> fl AND O_TRUNC \<noteq> 0 \<and> fl AND O_ACCMODE \<noteq> O_WRONLY \<and> fl AND O_ACCMODE \<noteq> O_RDWR
      then Some (Inl (- E_INVAL), w)
      else do {
        (r, w) \<leftarrow> op_lookup ops path w;
        case r of
          Inr n \<Rightarrow> if fl AND O_EXCL \<noteq> 0 \<and> fl AND O_CREAT \<noteq> 0 then Some (Inl (- E_EXISTS), w)
                   else opened_node n (node_effect ops T fl n w)
        | Inl ret \<Rightarrow>
            if ret = - E_NOENT \<and> fl AND O_CREAT \<noteq> 0 then do {
              (r, w) \<leftarrow> op_lookup_parent ops path w;
              case r of Inl ret \<Rightarrow> Some (Inl ret, w) | Inr dir \<Rightarrow> None
            }
            else Some (Inl ret, w)
      })"

definition optab :: "'w files_state \<Rightarrow> nat \<Rightarrow> vop_name set" where
  "optab s n = in_ops (inodes s n)"

lemma moved_optab: "moved e r s s' \<Longrightarrow> optab s' = optab s"
  by (simp add: optab_def fun_eq_iff moved_ops)

lemma looked_up_ok:
  assumes ok: "nodes_ok (k + 1) s" and k: "0 \<le> k"
  shows "\<exists>s'. looked_up (Some (x, w)) s = Some (x, s') \<and> world s' = w \<and> nodes_ok k s' \<and>
    moved (\<lambda>_. 0) (case x of Inl _ \<Rightarrow> \<lambda>_. 0 | Inr n \<Rightarrow> one n) s s'"
proof -
  have ok1: "nodes_ok (k + 1) (s\<lparr>world := w\<rparr>)" using ok by simp
  show ?thesis
  proof (cases x)
    case (Inl ret)
    then show ?thesis using nodes_ok_mono [OF ok1, of k] moved_world [of s w] by (simp add: looked_up_def)
  next
    case (Inr n)
    have "moved (\<lambda>_. 0) (one n) s (inode_ref_inc n (s\<lparr>world := w\<rparr>))"
      using moved_trans [OF moved_world [of s w] ref_inc_ok(2) [OF ok1 k, of n]] by simp
    then show ?thesis using ref_inc_ok(1) [OF ok1 k, of n] by (simp add: looked_up_def Inr inode_ref_inc_def)
  qed
qed

lemma vfs_open_node_ok:
  assumes ok: "nodes_ok k s" and k: "0 \<le> k" and r: "open_count (inodes s n) + pin (inodes s n) < ref_count (inodes s n)"
  shows "case node_effect ops (optab s) fl n (world s) of
      None \<Rightarrow> vfs_open_node ops fl n s = None
    | Some (ret, w) \<Rightarrow> \<exists>s'. vfs_open_node ops fl n s = Some (if ret = 0 then Inr n else Inl ret, s') \<and> world s' = w \<and>
        nodes_ok k s' \<and> (if ret = 0 then moved (one n) (\<lambda>_. 0) s s' else moved (\<lambda>_. 0) (\<lambda>m. - one n m) s s')"
proof (cases "VOpen \<in> optab s n \<and> op_open ops n fl (world s) \<noteq> None")
  case False
  then have "vop n VOpen (op_open ops n fl) s = None" unfolding vop_eq [OF ok k] by (cases "op_open ops n fl (world s)") (auto simp: optab_def)
  moreover have "node_effect ops (optab s) fl n (world s) = None" using False by (cases "VOpen \<in> optab s n"; cases "op_open ops n fl (world s)") (auto simp: node_effect_def)
  ultimately show ?thesis by (simp add: vfs_open_node_def)
next
  case True
  then obtain ret w where op: "op_open ops n fl (world s) = Some (ret, w)" and T: "VOpen \<in> optab s n" by auto
  let ?s1 = "s\<lparr>world := w\<rparr>"
  have 1: "vop n VOpen (op_open ops n fl) s = Some (ret, ?s1)" using op T by (simp add: vop_eq [OF ok k] optab_def)
  have ok1: "nodes_ok k ?s1" and r1: "open_count (inodes ?s1 n) + pin (inodes ?s1 n) < ref_count (inodes ?s1 n)"
    using ok r by simp_all
  show ?thesis
  proof (cases "ret = 0")
    case False
    obtain s2 where 2: "inode_ref_dec n ?s1 = Some s2" "nodes_ok k s2" "moved (\<lambda>_. 0) (\<lambda>m. - one n m) ?s1 s2" "world s2 = w"
      using ref_dec_ok [OF ok1 k r1] by auto
    have "moved (\<lambda>_. 0) (\<lambda>m. - one n m) s s2" using moved_trans [OF moved_world [of s w] 2(3)] by simp
    then show ?thesis using False 1 2 op T by (simp add: vfs_open_node_def node_effect_def)
  next
    case ret: True
    let ?s2 = "inode_open_inc n ?s1"
    note 2 = open_inc_ok [OF ok1 r1]
    have m2: "moved (one n) (\<lambda>_. 0) s ?s2" using moved_trans [OF moved_world [of s w] 2(2)] by simp
    have w2: "world ?s2 = w" and t2: "optab ?s2 = optab s" using moved_optab [OF m2] by (simp_all add: inode_open_inc_def)
    show ?thesis
    proof (cases "fl AND O_TRUNC \<noteq> 0 \<or> fl AND O_CREAT \<noteq> 0")
      case False
      then show ?thesis using ret 1 2(1) m2 op T w2 by (simp add: vfs_open_node_def node_effect_def Let_def)
    next
      case trunc: True
      show ?thesis
      proof (cases "VTruncate \<in> optab s n \<and> op_truncate ops n 0 w \<noteq> None")
        case False
        then have "vop n VTruncate (op_truncate ops n 0) ?s2 = None"
          unfolding vop_eq [OF 2(1) k] w2 fun_cong [OF t2, of n, unfolded optab_def]
          by (cases "op_truncate ops n 0 w") (auto simp: optab_def)
        moreover have "node_effect ops (optab s) fl n (world s) = None" using False trunc op ret
          by (cases "op_truncate ops n 0 w") (auto simp: node_effect_def)
        ultimately show ?thesis using trunc ret 1 by (simp add: vfs_open_node_def Let_def)
      next
        case True
        then obtain ret' w' where tr: "op_truncate ops n 0 w = Some (ret', w')" by auto
        let ?s3 = "?s2\<lparr>world := w'\<rparr>"
        have 3: "vop n VTruncate (op_truncate ops n 0) ?s2 = Some (ret', ?s3)"
          using True tr by (simp add: vop_eq [OF 2(1) k] w2 fun_cong [OF t2, of n, unfolded optab_def] optab_def)
        have m3: "moved (one n) (\<lambda>_. 0) s ?s3" using moved_trans [OF m2 moved_world] by simp
        have ok3: "nodes_ok k ?s3" using 2(1) by simp
        have eff: "node_effect ops (optab s) fl n (world s) = Some (ret', w')" using trunc op ret T True tr by (simp add: node_effect_def)
        have eq: "vfs_open_node ops fl n s = (if ret' \<noteq> 0 then do { s \<leftarrow> vfs_close n ?s3; Some (Inl ret', s) } else Some (Inr n, ?s3))"
          using ret trunc 1 3 by (simp add: vfs_open_node_def vfs_close_def Let_def)
        show ?thesis
        proof (cases "ret' = 0")
          case True
          then show ?thesis using eq ok3 m3 eff by simp
        next
          case False
          have "0 < open_count (inodes ?s3 n)"
            using moved_open [OF m3, of n] nodes_okD(1) [OF ok, of n] by (simp add: one_def)
          then obtain s4 where 4: "vfs_close n ?s3 = Some s4" "nodes_ok k s4" "moved (\<lambda>m. - one n m) (\<lambda>m. - one n m) ?s3 s4" "world s4 = w'"
            using vfs_close_ok [OF ok3 k] by auto
          have "moved (\<lambda>_. 0) (\<lambda>m. - one n m) s s4" using moved_trans [OF m3 4(3)] by simp
          then show ?thesis using eq False 4 eff by simp
        qed
      qed
    qed
  qed
qed

text \<open>Opening a path returns exactly when the operations it runs do: on an error every open count is what it was, on
  success exactly the node handed back is open once more, and holds one more reference, so every inode still passes the
  check of its counts.\<close>

lemma vfs_open_counts:
  assumes c: "\<And>n. VCreate \<notin> optab s n" and ok: "nodes_ok (k + 3) s" and k: "0 \<le> k"
  shows "case path_effect ops (optab s) path fl (world s) of
      None \<Rightarrow> vfs_open ops path fl s = None
    | Some (x, w) \<Rightarrow> \<exists>s'. vfs_open ops path fl s = Some (x, s') \<and> world s' = w \<and> nodes_ok k s' \<and>
        (case x of Inl _ \<Rightarrow> moved (\<lambda>_. 0) (\<lambda>_. 0) s s' | Inr n \<Rightarrow> moved (one n) (one n) s s')"
proof -
  define fin where "fin = (\<lambda>(x :: int + nat) w s'. world s' = w \<and> nodes_ok k s' \<and>
    (case x of Inl _ \<Rightarrow> moved (\<lambda>_. 0) (\<lambda>_. 0) s s' | Inr n \<Rightarrow> moved (one n) (one n) s s'))"
  have k1: "0 \<le> k + 1" and k2: "0 \<le> k + 2" using k by simp_all
  have stay: "fin (Inl ret) (world s1) s1" if "nodes_ok j s1" "k \<le> j" "moved (\<lambda>_. 0) r s s1" "\<And>n. 0 \<le> r n" for ret s1 j r
    using nodes_ok_mono [OF that(1,2)] moved_mono [OF that(3), of "\<lambda>_. 0" "\<lambda>_. 0"] that(4) by (simp add: fin_def)
  have node: "case node_effect ops (optab s) fl n (world s1) of
      None \<Rightarrow> vfs_open_node ops fl n s1 = None
    | Some (ret, w) \<Rightarrow> \<exists>s'. vfs_open_node ops fl n s1 = Some (if ret = 0 then Inr n else Inl ret, s') \<and>
        fin (if ret = 0 then Inr n else Inl ret) w s'"
    if j: "nodes_ok (k + 2) s1" and m: "moved (\<lambda>_. 0) (one n) s s1" for n s1
  proof -
    have "pin (inodes s1 n) = pin (inodes s n)" using moved_ops [OF m, of n] by (simp add: pin_def)
    then have r: "open_count (inodes s1 n) + pin (inodes s1 n) < ref_count (inodes s1 n)"
      using moved_open [OF m, of n] moved_ref [OF m, of n] nodes_okD(4) [OF ok, of n] by (simp add: one_def)
    have j': "nodes_ok k s1" by (rule nodes_ok_mono [OF j]) simp
    have good: "fin (Inr n) (world s2) s2" if "nodes_ok k s2" "moved (one n) (\<lambda>_. 0) s1 s2" for s2
      using moved_trans [OF m that(2)] that(1) by (simp add: fin_def)
    have bad: "fin (Inl ret) (world s2) s2" if "nodes_ok k s2" "moved (\<lambda>_. 0) (\<lambda>m. - one n m) s1 s2" for ret s2
      using moved_trans [OF m that(2)] that(1) by (simp add: fin_def)
    show ?thesis using vfs_open_node_ok [OF j' k r, of ops fl] good bad
      unfolding moved_optab [OF m] by (auto split: option.splits if_splits)
  qed
  have "case path_effect ops (optab s) path fl (world s) of None \<Rightarrow> vfs_open ops path fl s = None
    | Some (x, w) \<Rightarrow> \<exists>s'. vfs_open ops path fl s = Some (x, s') \<and> fin x w s'"
  proof (cases "fl AND O_ACCMODE = O_ACCMODE \<or> fl AND O_TRUNC \<noteq> 0 \<and> fl AND O_ACCMODE \<noteq> O_WRONLY \<and> fl AND O_ACCMODE \<noteq> O_RDWR")
    case True
    then have "vfs_open ops path fl s = Some (Inl (- E_INVAL), s)" by (auto simp: vfs_open_def Let_def)
    moreover have "path_effect ops (optab s) path fl (world s) = Some (Inl (- E_INVAL), world s)"
      unfolding path_effect_def by (rule if_P [OF True])
    ultimately show ?thesis using stay [OF ok _ moved_self] by simp
  next
    case acc: False
    note eff = path_effect_def [of ops "optab s" path fl "world s", unfolded if_not_P [OF acc]]
    show ?thesis
    proof (cases "op_lookup ops path (world s)")
      case None
      then have "vfs_open ops path fl s = None" using acc by (auto simp: vfs_open_def Let_def looked_up_def)
      then show ?thesis using None by (simp add: eff)
    next
      case (Some xw)
      then obtain x1 w1 where lk: "op_lookup ops path (world s) = Some (x1, w1)" by (cases xw) simp
      obtain s1 where 1: "looked_up (Some (x1, w1)) s = Some (x1, s1)" "world s1 = w1" "nodes_ok (k + 2) s1"
          "moved (\<lambda>_. 0) (case x1 of Inl _ \<Rightarrow> \<lambda>_. 0 | Inr n \<Rightarrow> one n) s s1"
        using looked_up_ok [of "k + 2" s x1 w1] ok k2 by (auto simp: add.assoc)
      have eq: "vfs_open ops path fl s = (case x1 of
          Inr n \<Rightarrow> if fl AND O_EXCL \<noteq> 0 \<and> fl AND O_CREAT \<noteq> 0 then Some (Inl (- E_EXISTS), s1) else vfs_open_node ops fl n s1
        | Inl ret \<Rightarrow>
            if ret = - E_NOENT \<and> fl AND O_CREAT \<noteq> 0 then do {
              (r, s) \<leftarrow> looked_up (op_lookup_parent ops path (world s1)) s1;
              case r of
                Inl ret \<Rightarrow> Some (Inl ret, s)
              | Inr dir \<Rightarrow> do {
                  vop_op dir VCreate s;
                  (r, s) \<leftarrow> looked_up (op_create ops dir path (fl AND O_EXCL \<noteq> 0) (world s)) s;
                  case r of Inl ret \<Rightarrow> None | Inr n \<Rightarrow> vfs_open_node ops fl n s
                }
            }
            else Some (Inl ret, s1))"
        using acc 1(1) lk by (auto simp: vfs_open_def Let_def)
      show ?thesis
      proof (cases x1)
        case (Inr n)
        show ?thesis
        proof (cases "fl AND O_EXCL \<noteq> 0 \<and> fl AND O_CREAT \<noteq> 0")
          case True
          then show ?thesis using stay [OF 1(3) _ 1(4)] lk 1(2) by (simp add: eq eff Inr one_def)
        next
          case False
          have m: "moved (\<lambda>_. 0) (one n) s s1" using 1(4) by (simp add: Inr)
          have "vfs_open ops path fl s = vfs_open_node ops fl n s1" using False by (auto simp: eq Inr)
          moreover have "path_effect ops (optab s) path fl (world s) = opened_node n (node_effect ops (optab s) fl n (world s1))"
            using False lk 1(2) by (auto simp: eff Inr)
          ultimately show ?thesis using node [OF 1(3) m] by (auto simp: opened_node_def split: option.splits)
        qed
      next
        case (Inl ret)
        show ?thesis
        proof (cases "ret = - E_NOENT \<and> fl AND O_CREAT \<noteq> 0")
          case False
          then have "vfs_open ops path fl s = Some (Inl ret, s1)" by (auto simp: eq Inl)
          moreover have "path_effect ops (optab s) path fl (world s) = Some (Inl ret, w1)" using False lk by (auto simp: eff Inl)
          ultimately show ?thesis using stay [OF 1(3) _ 1(4)] 1(2) by (simp add: Inl)
        next
          case True
          show ?thesis
          proof (cases "op_lookup_parent ops path w1")
            case None
            then show ?thesis using lk True 1(2) by (simp add: eq eff Inl looked_up_def)
          next
            case (Some yw)
            then obtain x2 w2 where lp: "op_lookup_parent ops path w1 = Some (x2, w2)" by (cases yw) simp
            obtain s2 where 2: "looked_up (Some (x2, w2)) s1 = Some (x2, s2)" "world s2 = w2" "nodes_ok (k + 1) s2"
                "moved (\<lambda>_. 0) (case x2 of Inl _ \<Rightarrow> \<lambda>_. 0 | Inr n \<Rightarrow> one n) s1 s2"
              using looked_up_ok [of "k + 1" s1 x2 w2] 1(3) k1 by (auto simp: add.assoc)
            have m2: "moved (\<lambda>_. 0) (case x2 of Inl _ \<Rightarrow> \<lambda>_. 0 | Inr n \<Rightarrow> one n) s s2"
              using moved_trans [OF 1(4) 2(4)] by (simp add: Inl)
            show ?thesis
            proof (cases x2)
              case (Inl ret')
              have "vfs_open ops path fl s = Some (Inl ret', s2)" using True 2(1) lp 1(2) by (simp add: eq \<open>x1 = Inl ret\<close> Inl)
              moreover have "path_effect ops (optab s) path fl (world s) = Some (Inl ret', w2)"
                using True lk lp by (simp add: eff \<open>x1 = Inl ret\<close> Inl)
              ultimately show ?thesis using stay [OF 2(3) _ m2] 2(2) by (simp add: Inl)
            next
              case (Inr dir)
              have "VCreate \<notin> in_ops (inodes s2 dir)" using c [of dir] moved_ops [OF m2, of dir] by (simp add: optab_def)
              then have "vop_op dir VCreate s2 = None" using vop_op_eq [OF 2(3) k1] by simp
              then have "vfs_open ops path fl s = None" using True 2(1) lp 1(2) by (simp add: eq \<open>x1 = Inl ret\<close> Inr)
              then show ?thesis using True lk lp by (simp add: eff \<open>x1 = Inl ret\<close> Inr)
            qed
          qed
        qed
      qed
    qed
  qed
  then show ?thesis by (auto simp: fin_def split: option.splits)
qed

subsection \<open>The tables and the counts agree\<close>

definition holds :: "nat \<Rightarrow> file_struct \<Rightarrow> int" where
  "holds n x = (if fstatus x = FD_OPENED \<and> fnode x = Some n then 1 else 0)"

definition slots_of :: "nat set \<Rightarrow> 'w files_state \<Rightarrow> (nat \<times> nat) set" where
  "slots_of F s = (SIGMA t : F. {..<nentry t s})"

definition opens :: "nat set \<Rightarrow> 'w files_state \<Rightarrow> nat \<Rightarrow> int" where
  "opens F s n = (\<Sum>p\<in>slots_of F s. holds n (slot (fst p) (snd p) s))"

definition pwds :: "nat set \<Rightarrow> 'w files_state \<Rightarrow> nat \<Rightarrow> int" where
  "pwds F s n = (\<Sum>t\<in>F. if pwd (filess s t) = Some n then 1 else 0)"

definition slot_ok :: "nat \<Rightarrow> file_struct \<Rightarrow> bool" where
  "slot_ok i x \<longleftrightarrow> fd x = int i \<and>
     (fstatus x = FD_NONE \<and> fopen_count x = 0 \<or> fstatus x = FD_OPENED \<and> fopen_count x = 1 \<and> fnode x \<noteq> None)"

definition known_ops :: "vop_name set \<Rightarrow> bool" where
  "known_ops T \<longleftrightarrow> T = sfs_node_dirops \<or> T = sfs_node_fileops \<or> T = dev_node_ops"

lemma known_opsD:
  "known_ops T \<Longrightarrow> VOpen \<in> T \<and> VClose \<in> T \<and> VFstat \<in> T \<and> VCreate \<notin> T"
  by (auto simp: known_ops_def sfs_node_dirops_def sfs_node_fileops_def dev_node_ops_def)

definition tables_inv :: "nat set \<Rightarrow> nat set \<Rightarrow> 'w files_state \<Rightarrow> bool" where
  "tables_inv F G s \<longleftrightarrow> finite F \<and> (\<forall>t\<in>F. \<forall>i<nentry t s. slot_ok i (slot t i s)) \<and>
     (\<forall>n. open_count (inodes s n) = opens F s n \<and> opens F s n + pwds G s n + pin (inodes s n) \<le> ref_count (inodes s n) \<and>
       known_ops (in_ops (inodes s n)))"

definition tables_ok :: "nat set \<Rightarrow> 'w files_state \<Rightarrow> bool" where
  "tables_ok F s \<longleftrightarrow> tables_inv F F s"

lemma tables_okD:
  assumes "tables_inv F G s"
  shows "finite F" "t \<in> F \<Longrightarrow> i < nentry t s \<Longrightarrow> slot_ok i (slot t i s)"
    "open_count (inodes s n) = opens F s n" "opens F s n + pwds G s n + pin (inodes s n) \<le> ref_count (inodes s n)"
    "known_ops (in_ops (inodes s n))" "opens F s n + pwds G s n \<le> ref_count (inodes s n)"
proof -
  show k: "opens F s n + pwds G s n + pin (inodes s n) \<le> ref_count (inodes s n)" using assms by (simp add: tables_inv_def)
  then show "opens F s n + pwds G s n \<le> ref_count (inodes s n)" using pin_nonneg [of "inodes s n"] by linarith
qed (use assms in \<open>simp_all add: tables_inv_def\<close>)

lemma filess_eq:
  assumes "filess s' = filess s"
  shows "opens F s' n = opens F s n" "pwds F s' n = pwds F s n" "slot t i s' = slot t i s" "nentry t s' = nentry t s"
    "filess (upd_slot t i f s') = filess (upd_slot t i f s)"
  using assms by (simp_all add: opens_def pwds_def slots_of_def slot_def nentry_def upd_slot_def)

lemma opens_upd_slot:
  assumes "finite F" and t: "t \<in> F" and i: "i < nentry t s"
  shows "opens F (upd_slot t i f s) n = opens F s n + holds n (f (slot t i s)) - holds n (slot t i s)"
proof -
  have fin: "finite (slots_of F s)" using assms(1) by (simp add: slots_of_def)
  have m: "(t, i) \<in> slots_of F s" using t i by (simp add: slots_of_def)
  have same: "slots_of F (upd_slot t i f s) = slots_of F s" by (simp add: slots_of_def)
  have rest: "(\<Sum>p\<in>slots_of F s - {(t, i)}. holds n (slot (fst p) (snd p) (upd_slot t i f s))) =
      (\<Sum>p\<in>slots_of F s - {(t, i)}. holds n (slot (fst p) (snd p) s))"
    by (rule sum.cong) (auto simp: slot_upd_slot [OF i])
  show ?thesis
    unfolding opens_def same sum.remove [OF fin m] using rest i by simp
qed

lemma pwds_upd_slot [simp]: "pwds F (upd_slot t i f s) n = pwds F s n"
  by (simp add: pwds_def)

lemma opens_nonneg: "0 \<le> opens F s n"
  by (simp add: opens_def holds_def sum_nonneg)

lemma pwds_nonneg: "0 \<le> pwds F s n"
  by (simp add: pwds_def sum_nonneg)

lemma opens_pos:
  assumes "finite F" and "t \<in> F" and "i < nentry t s" and "holds n (slot t i s) = 1"
  shows "1 \<le> opens F s n"
proof -
  have "finite (slots_of F s)" "(t, i) \<in> slots_of F s" using assms by (simp_all add: slots_of_def)
  then show ?thesis using member_le_sum [of "(t, i)" "slots_of F s" "\<lambda>p. holds n (slot (fst p) (snd p) s)"] assms(4)
    by (simp add: opens_def holds_def)
qed

lemma tables_nodes_ok:
  assumes "tables_inv F G s" and "\<And>n. ref_count (inodes s n) + k < MAX_INODE_COUNT"
  shows "nodes_ok k s"
  unfolding nodes_ok_def
proof
  fix n
  show "0 \<le> open_count (inodes s n) \<and> open_count (inodes s n) + pin (inodes s n) \<le> ref_count (inodes s n) \<and>
      ref_count (inodes s n) + k < MAX_INODE_COUNT \<and> VClose \<in> in_ops (inodes s n)"
    using tables_okD(3,4) [OF assms(1), of n] opens_nonneg [of F s n] pwds_nonneg [of G s n] assms(2) [of n]
      known_opsD [OF tables_okD(5) [OF assms(1), of n]] by (intro conjI) (linarith | simp)+
qed

text \<open>One step: a slot changes, and the counts change by what the slot holds.\<close>

lemma tables_ok_step:
  assumes ok: "tables_inv F G s" and t: "t \<in> F" and i: "i < nentry t s"
    and fs: "filess s' = filess (upd_slot t i f s)"
    and sl: "slot_ok i (f (slot t i s))"
    and e: "\<And>n. open_count (inodes s' n) = open_count (inodes s n) + holds n (f (slot t i s)) - holds n (slot t i s)"
    and r: "\<And>n. ref_count (inodes s n) + holds n (f (slot t i s)) - holds n (slot t i s) \<le> ref_count (inodes s' n)"
    and p: "\<And>n. in_ops (inodes s' n) = in_ops (inodes s n)"
  shows "tables_inv F G s'"
  unfolding tables_inv_def
proof (intro conjI allI ballI impI)
  note eqs = filess_eq [OF fs]
  show "finite F" by (rule tables_okD(1) [OF ok])
  show "slot_ok j (slot t' j s')" if "t' \<in> F" "j < nentry t' s'" for t' j
    using tables_okD(2) [OF ok, of t' j] that sl by (simp add: eqs slot_upd_slot [OF i])
  fix n
  note o = opens_upd_slot [OF tables_okD(1) [OF ok] t i, of f n]
  show "open_count (inodes s' n) = opens F s' n" using e [of n] tables_okD(3) [OF ok, of n] by (simp add: eqs o)
  show "opens F s' n + pwds G s' n + pin (inodes s' n) \<le> ref_count (inodes s' n)"
    using r [of n] tables_okD(4) [OF ok, of n] p [of n] by (simp add: eqs o pin_def)
  show "known_ops (in_ops (inodes s' n))" using tables_okD(5) [OF ok] p by simp
qed

end
