(* ===== verification/File_Calls.thy ===== *)
theory File_Calls
  imports File_Table
begin

unbundle bit_operations_syntax

section \<open>Calls on open files keep tables and counts in step\<close>

text \<open>
  The proofs over the definitions of \<open>File_Table\<close>: each call of fs/file.c on a well-formed state returns exactly when the
  operations of the file system that it runs do (\<open>fs_effect\<close>), and leaves a well-formed state; the table of a new process
  is a copy of its parent's (\<^verbatim>\<open>dup_files\<close>), and the end of a table gives every reference back (\<^verbatim>\<open>files_destroy\<close>).
\<close>

subsection \<open>The calls and what they ask of the file system\<close>








subsection \<open>Slots in use\<close>

text \<open>\<open>keeps F s s'\<close>: the invariant holds after the call, and the process and its table stay.\<close>

definition keeps :: "nat set \<Rightarrow> 'w files_state \<Rightarrow> 'w files_state \<Rightarrow> bool" where
  "keeps F s s' \<longleftrightarrow> tables_ok F s' \<and> cur_files s' = cur_files s \<and> (\<forall>t. files_count (filess s' t) = files_count (filess s t)) \<and>
     (\<forall>t. nentry t s' = nentry t s)"





text \<open>\<open>runs F s e r\<close>: the result \<open>r\<close> of a call is a state with the world \<open>e\<close> that keeps the invariant, or a panic when \<open>e\<close> is.\<close>

definition runs :: "nat set \<Rightarrow> 'w files_state \<Rightarrow> 'w option \<Rightarrow> 'w files_state option \<Rightarrow> bool" where
  "runs F s e r \<longleftrightarrow> (case e of None \<Rightarrow> r = None | Some w \<Rightarrow> \<exists>s'. r = Some s' \<and> keeps F s s' \<and> world s' = w)"

lemma runs_None [simp]: "runs F s None r \<longleftrightarrow> r = None"
  by (simp add: runs_def)








lemma open_init_ok:
  assumes "fstatus (slot t i s) = FD_INIT" and "fnode (slot t i s) \<noteq> None"
  shows "fd_array_open t i s = Some (upd_slot t i (\<lambda>x. x\<lparr>fstatus := FD_OPENED, fopen_count := fopen_count x + 1\<rparr>) s)"
  using assms by (simp add: fd_array_open_def)

text \<open>Closing the last use of a slot hands its reference back.\<close>

lemma fd_array_close_ok:
  assumes ok: "nodes_ok k s" and k: "0 \<le> k" and i: "i < nentry t s"
    and x: "fstatus (slot t i s) = FD_OPENED" "fopen_count (slot t i s) = 1" "fnode (slot t i s) = Some n"
    and o: "0 < open_count (inodes s n)"
  shows "\<exists>s1. fd_array_close t i s = Some s1 \<and> nodes_ok k s1 \<and> cur_files s1 = cur_files s \<and> world s1 = world s \<and>
    filess s1 = filess (upd_slot t i (\<lambda>x. x\<lparr>fopen_count := fopen_count x - 1, fstatus := FD_NONE\<rparr>) s) \<and>
    (\<forall>m. open_count (inodes s1 m) = open_count (inodes s m) - one n m \<and> ref_count (inodes s1 m) = ref_count (inodes s m) - one n m \<and>
      in_ops (inodes s1 m) = in_ops (inodes s m))"
proof -
  let ?s0 = "upd_slot t i (\<lambda>x. x\<lparr>fstatus := FD_CLOSED, fopen_count := fopen_count x - 1\<rparr>) s"
  obtain s1 where 1: "vfs_close n ?s0 = Some s1" "nodes_ok k s1" "moved (\<lambda>m. - one n m) (\<lambda>m. - one n m) ?s0 s1" "world s1 = world s"
      "\<forall>m. ref_count (inodes s1 m) = ref_count (inodes ?s0 m) - one n m"
    using vfs_close_ok [of k ?s0 n] ok k o by auto
  have fs: "filess s1 = filess ?s0" and fp: "cur_files s1 = cur_files s" using 1(3) by (simp_all add: moved_def)
  have eq: "fd_array_close t i s = Some (upd_slot t i (\<lambda>x. x\<lparr>fstatus := FD_NONE\<rparr>) s1)"
    using i x 1(1) by (simp add: fd_array_close_def fd_count_dec_def fd_array_free_def Let_def)
  have "filess (upd_slot t i (\<lambda>x. x\<lparr>fstatus := FD_NONE\<rparr>) s1) =
      filess (upd_slot t i (\<lambda>x. x\<lparr>fopen_count := fopen_count x - 1, fstatus := FD_NONE\<rparr>) s)"
    unfolding filess_eq(5) [OF fs] by (simp add: i)
  moreover have "open_count (inodes s1 m) = open_count (inodes s m) - one n m"
    "ref_count (inodes s1 m) = ref_count (inodes s m) - one n m" "in_ops (inodes s1 m) = in_ops (inodes s m)" for m
    using moved_open [OF 1(3), of m] 1(5) moved_ops [OF 1(3), of m] by simp_all
  ultimately show ?thesis using eq 1(2,4) fp by simp
qed

subsection \<open>Every file operation keeps the invariant\<close>


lemma moved_counts:
  assumes "moved e r s s'"
  shows "filess s' = filess s" "cur_files s' = cur_files s" "open_count (inodes s' n) = open_count (inodes s n) + e n"
    "ref_count (inodes s n) + r n \<le> ref_count (inodes s' n)" "in_ops (inodes s' n) = in_ops (inodes s n)"
  using assms by (simp_all add: moved_def)











lemma dup_slot_ok:
  assumes ok: "tables_inv F G s" and t: "t \<in> F" and j: "j < nentry t s" and x: "fstatus (slot t j s) = FD_NONE"
    and src: "fstatus (slot t' i s) = FD_OPENED" "fnode (slot t' i s) = Some node"
    and f0: "\<And>x. fstatus (f0 x) = FD_INIT" "\<And>x. fopen_count (f0 x) = fopen_count x" "\<And>x. fd (f0 x) = fd x"
  defines "f \<equiv> \<lambda>x. (f0 x)\<lparr>fpos := fpos (slot t' i s), readable := readable (slot t' i s), writable := writable (slot t' i s),
        fnode := Some node, fstatus := FD_OPENED, fopen_count := fopen_count (f0 x) + 1\<rparr>"
  shows "\<exists>s3. fd_array_dup t j t' i (upd_slot t j f0 s) = Some s3 \<and> tables_inv F G s3 \<and> cur_files s3 = cur_files s \<and>
    filess s3 = filess (upd_slot t j f s) \<and> world s3 = world s"
proof -
  let ?x = "slot t' i s"
  have sl: "fopen_count (slot t j s) = 0" "fd (slot t j s) = int j" using tables_okD(2) [OF ok t j] x by (simp_all add: slot_ok_def)
  have ne: "\<not> (t' = t \<and> i = j)" using x src by auto
  let ?a = "upd_slot t j (\<lambda>x. (f0 x)\<lparr>fpos := fpos ?x, readable := readable ?x, writable := writable ?x\<rparr>) s"
  let ?b = "inode_open_inc node (inode_ref_inc node ?a)"
  let ?s3 = "upd_slot t j (\<lambda>x. x\<lparr>fnode := Some node, fstatus := FD_OPENED, fopen_count := fopen_count x + 1\<rparr>) ?b"
  have fb: "filess ?b = filess ?a" by (simp add: inode_open_inc_def inode_ref_inc_def)
  note eqs = filess_eq [OF fb]
  have jb: "j < nentry t ?b" using j by (simp only: eqs(4) upd_slot_sel)
  have same: "slot t' i (upd_slot t j f0 s) = ?x" using j ne by (auto simp: slot_upd_slot)
  have dup: "fd_array_dup t j t' i (upd_slot t j f0 s) = Some ?s3"
    using src j jb f0 by (simp add: fd_array_dup_def same Let_def open_init_ok eqs)
  have fs: "filess ?s3 = filess (upd_slot t j f s)" unfolding eqs(5) f_def using j by simp
  have fp: "cur_files ?s3 = cur_files s" by (simp add: inode_open_inc_def inode_ref_inc_def)
  have ino: "inodes ?s3 = inodes (inode_open_inc node (inode_ref_inc node s))"
    by (simp add: inode_open_inc_def inode_ref_inc_def upd_inode_def)
  have "tables_inv F G ?s3"
    by (rule tables_ok_step [OF ok t j fs])
      (use x sl f0 in \<open>simp_all add: f_def slot_ok_def holds_def ino inode_open_inc_def inode_ref_inc_def\<close>)
  moreover have "world ?s3 = world s" by (simp add: inode_open_inc_def inode_ref_inc_def)
  ultimately show ?thesis using dup fs fp by blast
qed



subsection \<open>Tables of new and of ending processes\<close>

text \<open>\<open>only t s s'\<close>: of the tables, only the slots of \<open>t\<close> change, and those that are free stay free.\<close>

definition only :: "nat \<Rightarrow> 'w files_state \<Rightarrow> 'w files_state \<Rightarrow> bool" where
  "only t s s' \<longleftrightarrow> cur_files s' = cur_files s \<and> (\<forall>t'. t' \<noteq> t \<longrightarrow> filess s' t' = filess s t') \<and> nentry t s' = nentry t s \<and>
     pwd (filess s' t) = pwd (filess s t) \<and> files_count (filess s' t) = files_count (filess s t)"

lemma only_self: "only t s s"
  by (simp add: only_def)

lemma only_trans: "only t s s' \<Longrightarrow> only t s' s'' \<Longrightarrow> only t s s''"
  by (simp add: only_def)

lemma only_upd_slot: "filess s' = filess (upd_slot t i f s) \<Longrightarrow> cur_files s' = cur_files s \<Longrightarrow> only t s s'"
  by (simp add: only_def upd_slot_def nentry_def)

lemma onlyD:
  assumes "only t s s'"
  shows "nentry t' s' = nentry t' s" "t' \<noteq> t \<Longrightarrow> slot t' i s' = slot t' i s" "pwd (filess s' t') = pwd (filess s t')"
  using assms by (cases "t' = t"; simp add: only_def nentry_def slot_def)+

text \<open>Closing takes one open and one reference at a time.\<close>

definition same_surplus :: "'w files_state \<Rightarrow> 'w files_state \<Rightarrow> bool" where
  "same_surplus s s' \<longleftrightarrow> (\<forall>n. ref_count (inodes s' n) - open_count (inodes s' n) = ref_count (inodes s n) - open_count (inodes s n))"

lemma close_slots_ok:
  assumes "tables_inv F G s" and "nodes_ok 0 s" and "t \<in> F" and "\<forall>i\<in>set is. i < nentry t s"
  shows "\<exists>s'. close_slots t check is s = Some s' \<and> tables_inv F G s' \<and> nodes_ok 0 s' \<and> only t s s' \<and>
    (\<forall>i\<in>set is. fstatus (slot t i s') = FD_NONE) \<and>
    (\<forall>i. fstatus (slot t i s) = FD_NONE \<longrightarrow> fstatus (slot t i s') = FD_NONE) \<and>
    (\<forall>i. i \<notin> set is \<longrightarrow> slot t i s' = slot t i s) \<and> same_surplus s s'"
  using assms
proof (induction "is" arbitrary: s)
  case Nil
  then show ?case by (simp add: only_self same_surplus_def)
next
  case (Cons i "is")
  note T = Cons.prems(1) and tF = Cons.prems(3)
  have i: "i < nentry t s" using Cons.prems(4) by simp
  note so = tables_okD(2) [OF T tF i]
  have "\<exists>s1. (if fstatus (slot t i s) = FD_OPENED then fd_array_close t i s else Some s) = Some s1 \<and>
      tables_inv F G s1 \<and> nodes_ok 0 s1 \<and> only t s s1 \<and> fstatus (slot t i s1) = FD_NONE \<and>
      (\<forall>j. j \<noteq> i \<longrightarrow> slot t j s1 = slot t j s) \<and> same_surplus s s1"
  proof (cases "fstatus (slot t i s) = FD_OPENED")
    case False
    then show ?thesis using T Cons.prems(2) so by (auto simp: slot_ok_def only_self same_surplus_def)
  next
    case True
    let ?f = "\<lambda>x. x\<lparr>fopen_count := fopen_count x - 1, fstatus := FD_NONE\<rparr>"
    obtain node where node: "fnode (slot t i s) = Some node" and c: "fopen_count (slot t i s) = 1" and fd: "fd (slot t i s) = int i"
      using so True by (auto simp: slot_ok_def)
    have h: "holds m (slot t i s) = one node m" for m using True node by (simp add: holds_def one_def)
    have "1 \<le> opens F s node" using opens_pos [OF tables_okD(1) [OF T] tF i, of node] h by (simp add: one_def)
    then have o: "0 < open_count (inodes s node)" using tables_okD(3) [OF T] by simp
    obtain s1 where 1: "fd_array_close t i s = Some s1" "nodes_ok 0 s1" "cur_files s1 = cur_files s" "filess s1 = filess (upd_slot t i ?f s)"
        "\<forall>m. open_count (inodes s1 m) = open_count (inodes s m) - one node m \<and> ref_count (inodes s1 m) = ref_count (inodes s m) - one node m \<and>
          in_ops (inodes s1 m) = in_ops (inodes s m)"
      using fd_array_close_ok [OF Cons.prems(2) _ i True c node o] by auto
    have "tables_inv F G s1"
      by (rule tables_ok_step [OF T tF i 1(4)]) (use 1(5) c fd in \<open>simp_all add: slot_ok_def h\<close>, simp_all add: holds_def)
    moreover have "same_surplus s s1" using 1(5) by (simp add: same_surplus_def)
    ultimately show ?thesis using 1 True only_upd_slot [OF 1(4,3)] filess_eq(3) [OF 1(4)] i by (auto simp: slot_upd_slot)
  qed
  then obtain s1 where 1: "(if fstatus (slot t i s) = FD_OPENED then fd_array_close t i s else Some s) = Some s1"
      "tables_inv F G s1" "nodes_ok 0 s1" "only t s s1" "fstatus (slot t i s1) = FD_NONE"
      "\<forall>j. j \<noteq> i \<longrightarrow> slot t j s1 = slot t j s" "same_surplus s s1" by blast
  have "\<forall>j\<in>set is. j < nentry t s1" using Cons.prems(4) onlyD(1) [OF 1(4)] by simp
  from Cons.IH [OF 1(2,3) tF this] obtain s2 where 2: "close_slots t check is s1 = Some s2" "tables_inv F G s2" "nodes_ok 0 s2"
      "only t s1 s2" "\<forall>i\<in>set is. fstatus (slot t i s2) = FD_NONE"
      "\<forall>i. fstatus (slot t i s1) = FD_NONE \<longrightarrow> fstatus (slot t i s2) = FD_NONE" "\<forall>i. i \<notin> set is \<longrightarrow> slot t i s2 = slot t i s1"
      "same_surplus s1 s2"
    by blast
  have "close_slots t check (i # is) s = Some s2" using 1(1,5) 2(1) by (simp del: if_split split del: if_split)
  moreover have "fstatus (slot t j s2) = FD_NONE" if "fstatus (slot t j s) = FD_NONE" for j
    using that 1(5,6) 2(6) by (cases "j = i") auto
  moreover have "same_surplus s s2" using 1(7) 2(8) by (simp add: same_surplus_def)
  ultimately show ?case using 1 2 only_trans [OF 1(4) 2(4)] by auto
qed

lemma opens_drop:
  assumes "finite F" and "\<forall>i<nentry t s. fstatus (slot t i s) = FD_NONE"
  shows "opens (F - {t}) s n = opens F s n"
  unfolding opens_def
proof (rule sum.mono_neutral_left)
  show "finite (slots_of F s)" using assms(1) by (simp add: slots_of_def)
  show "slots_of (F - {t}) s \<subseteq> slots_of F s" by (auto simp: slots_of_def)
  show "\<forall>p\<in>slots_of F s - slots_of (F - {t}) s. holds n (slot (fst p) (snd p) s) = 0"
    using assms(2) by (auto simp: slots_of_def holds_def)
qed

lemma tables_inv_drop:
  assumes "tables_inv F G s" and "\<forall>i<nentry t s. fstatus (slot t i s) = FD_NONE"
  shows "tables_inv (F - {t}) G s"
  using assms opens_drop [OF tables_okD(1) [OF assms(1)] assms(2)] by (simp add: tables_inv_def)

lemma opens_split:
  assumes "finite F" and "t \<in> F"
  shows "opens F s n = opens {t} s n + opens (F - {t}) s n"
proof -
  have "slots_of F s = slots_of {t} s \<union> slots_of (F - {t}) s" using assms(2) by (auto simp: slots_of_def)
  moreover have "finite (slots_of {t} s)" "finite (slots_of (F - {t}) s)" "slots_of {t} s \<inter> slots_of (F - {t}) s = {}"
    using assms(1) by (auto simp: slots_of_def)
  ultimately show ?thesis unfolding opens_def by (simp add: sum.union_disjoint)
qed

lemma opens_only:
  assumes "only t s s'" and "t \<notin> F"
  shows "opens F s' n = opens F s n"
proof -
  have "slot (fst p) (snd p) s' = slot (fst p) (snd p) s" if "p \<in> slots_of F s" for p
  proof -
    have "fst p \<noteq> t" using assms(2) that by (auto simp: slots_of_def)
    then show ?thesis by (rule onlyD(2) [OF assms(1)])
  qed
  moreover have "slots_of F s' = slots_of F s" using onlyD(1) [OF assms(1)] by (simp add: slots_of_def)
  ultimately show ?thesis unfolding opens_def by (intro sum.cong) simp_all
qed

text \<open>What the end of a table takes: one open and one reference for every slot that is open, and the reference of the
  working directory.\<close>

definition given_back :: "nat \<Rightarrow> 'w files_state \<Rightarrow> 'w files_state \<Rightarrow> bool" where
  "given_back t s s' \<longleftrightarrow> (\<forall>n. open_count (inodes s' n) = open_count (inodes s n) - opens {t} s n \<and>
     ref_count (inodes s' n) = ref_count (inodes s n) - opens {t} s n - (if pwd (filess s t) = Some n then 1 else 0))"

lemma files_destroy_ok:
  assumes ok: "tables_ok F s" and refs: "\<And>n. ref_count (inodes s n) < MAX_INODE_COUNT" and t: "t \<in> F"
    and unused: "files_count (filess s t) = 0"
  shows "\<exists>s'. files_destroy t s = Some s' \<and> tables_ok (F - {t}) s' \<and> (\<forall>i<nentry t s'. fstatus (slot t i s') = FD_NONE) \<and>
    only t s s' \<and> given_back t s s'"
proof -
  have T: "tables_inv F F s" using ok by (simp add: tables_ok_def)
  note fin = tables_okD(1) [OF T]
  have n0: "nodes_ok 0 s" by (rule tables_nodes_ok [OF T]) (simp add: refs)
  have split: "pwds F s n = (if pwd (filess s t) = Some n then 1 else 0) + pwds (F - {t}) s n" for n
    using sum.remove [OF fin t, of "\<lambda>t. if pwd (filess s t) = Some n then 1 else 0 :: int"] by (simp add: pwds_def)
  have "\<exists>s1. (case pwd (filess s t) of Some n \<Rightarrow> inode_ref_dec n s | None \<Rightarrow> Some s) = Some s1 \<and> tables_inv F (F - {t}) s1 \<and>
      nodes_ok 0 s1 \<and> filess s1 = filess s \<and> cur_files s1 = cur_files s \<and> (\<forall>n. open_count (inodes s1 n) = open_count (inodes s n) \<and>
        ref_count (inodes s1 n) = ref_count (inodes s n) - (if pwd (filess s t) = Some n then 1 else 0))"
  proof (cases "pwd (filess s t)")
    case None
    then have "pwds F s n = pwds (F - {t}) s n" for n using split by simp
    then show ?thesis using None T n0 by (simp add: tables_inv_def)
  next
    case (Some d)
    have "open_count (inodes s d) + pin (inodes s d) < ref_count (inodes s d)"
      using tables_okD(3,4) [OF T, of d] split [of d] pwds_nonneg [of "F - {t}" s d] Some by simp
    then obtain s1 where 1: "inode_ref_dec d s = Some s1" "nodes_ok 0 s1" "moved (\<lambda>_. 0) (\<lambda>m. - one d m) s s1"
        "\<forall>m. ref_count (inodes s1 m) = ref_count (inodes s m) - one d m"
      using ref_dec_ok [OF n0] by auto
    note mc = moved_counts [OF 1(3)] and eqs = filess_eq [OF moved_counts(1) [OF 1(3)]]
    have "opens F s n + pwds (F - {t}) s n + pin (inodes s1 n) \<le> ref_count (inodes s1 n)" for n
      using tables_okD(4) [OF T, of n] split [of n] 1(4) mc(5) [of n] Some by (auto simp: one_def pin_def split: if_splits)
    then have "tables_inv F (F - {t}) s1" using T mc(3,5) by (simp add: tables_inv_def eqs)
    then show ?thesis using Some 1 mc by (simp add: one_def)
  qed
  then obtain s1 where 1: "(case pwd (filess s t) of Some n \<Rightarrow> inode_ref_dec n s | None \<Rightarrow> Some s) = Some s1"
      "tables_inv F (F - {t}) s1" "nodes_ok 0 s1" "filess s1 = filess s" "cur_files s1 = cur_files s"
      "\<forall>n. open_count (inodes s1 n) = open_count (inodes s n) \<and>
        ref_count (inodes s1 n) = ref_count (inodes s n) - (if pwd (filess s t) = Some n then 1 else 0)" by blast
  obtain s2 where 2: "close_slots t True [0..<nentry t s1] s1 = Some s2" "tables_inv F (F - {t}) s2" "only t s1 s2"
      "\<forall>i\<in>set [0..<nentry t s1]. fstatus (slot t i s2) = FD_NONE" "same_surplus s1 s2"
    using close_slots_ok [OF 1(2,3) t, of "[0..<nentry t s1]" True] by auto
  have none: "\<forall>i<nentry t s2. fstatus (slot t i s2) = FD_NONE" using 2(4) onlyD(1) [OF 2(3), of t] by simp
  have on: "only t s s2" using 2(3) 1(4,5) by (simp add: only_def nentry_def)
  have o2: "open_count (inodes s2 n) = open_count (inodes s n) - opens {t} s n" for n
    using tables_okD(3) [OF 2(2), of n] opens_drop [OF fin none, of n] opens_only [OF on, of "F - {t}" n]
      tables_okD(3) [OF T, of n] opens_split [OF fin t, of s n] by simp
  have "given_back t s s2" unfolding given_back_def
  proof (intro allI conjI)
    fix n
    show "open_count (inodes s2 n) = open_count (inodes s n) - opens {t} s n" by (rule o2)
    have "ref_count (inodes s2 n) - open_count (inodes s2 n) = ref_count (inodes s1 n) - open_count (inodes s1 n)"
      using 2(5) by (simp add: same_surplus_def)
    then show "ref_count (inodes s2 n) = ref_count (inodes s n) - opens {t} s n - (if pwd (filess s t) = Some n then 1 else 0)"
      using o2 [of n] 1(6) by simp
  qed
  moreover have "files_destroy t s = Some s2" using unused 1(1) 2(1) by (simp add: files_destroy_def)
  moreover have "tables_ok (F - {t}) s2" using tables_inv_drop [OF 2(2) none] by (simp add: tables_ok_def)
  ultimately show ?thesis using none on by blast
qed

text \<open>C24: the end of a process's file table (\<^verbatim>\<open>files_destroy\<close>): no assertion fails, every slot is closed, and every
  reference is given back: each inode has exactly as many opens fewer as the table had slots open on it, and as many references
  fewer, one more when it was the working directory. The invariant holds for the tables that remain, which are unchanged.\<close>
theorem files_destroy_correct:
  assumes ok: "tables_ok F s" and refs: "\<And>n. ref_count (inodes s n) < MAX_INODE_COUNT" and t: "t \<in> F"
    and unused: "files_count (filess s t) = 0"
  shows "\<exists>s'. files_destroy t s = Some s' \<and> tables_ok (F - {t}) s' \<and> (\<forall>i<nentry t s'. fstatus (slot t i s') = FD_NONE) \<and>
    only t s s' \<and> (\<forall>n. open_count (inodes s' n) = open_count (inodes s n) - opens {t} s n \<and>
      ref_count (inodes s' n) = ref_count (inodes s n) - opens {t} s n - (if pwd (filess s t) = Some n then 1 else 0))"
  using files_destroy_ok [OF assms] unfolding given_back_def .

lemma files_closeall_ok:
  assumes ok: "tables_ok F s" and refs: "\<And>n. ref_count (inodes s n) < MAX_INODE_COUNT" and t: "t \<in> F"
    and used: "files_count (filess s t) > 0"
  shows "\<exists>s'. files_closeall t s = Some s' \<and> tables_ok F s' \<and> only t s s' \<and>
    (\<forall>i. 2 \<le> i \<and> i < nentry t s \<longrightarrow> fstatus (slot t i s') = FD_NONE) \<and> (\<forall>i<2. slot t i s' = slot t i s)"
proof -
  have T: "tables_inv F F s" using ok by (simp add: tables_ok_def)
  have n0: "nodes_ok 0 s" by (rule tables_nodes_ok [OF T]) (simp add: refs)
  obtain s' where "close_slots t False [2..<nentry t s] s = Some s'" "tables_inv F F s'" "only t s s'"
      "\<forall>i\<in>set [2..<nentry t s]. fstatus (slot t i s') = FD_NONE" "\<forall>i. i \<notin> set [2..<nentry t s] \<longrightarrow> slot t i s' = slot t i s"
    using close_slots_ok [OF T n0 t, of "[2..<nentry t s]" False] by auto
  then show ?thesis using used by (simp add: files_closeall_def tables_ok_def)
qed

text \<open>\<open>slot_copied s t' x i\<close>: the slot \<open>x\<close> is the copy of slot \<open>i\<close> of the table \<open>t'\<close>.\<close>

definition slot_copied :: "'w files_state \<Rightarrow> nat \<Rightarrow> file_struct \<Rightarrow> nat \<Rightarrow> bool" where
  "slot_copied s t' x i \<longleftrightarrow> fstatus x = fstatus (slot t' i s) \<and> (fstatus x = FD_OPENED \<longrightarrow> fnode x = fnode (slot t' i s) \<and>
     fpos x = fpos (slot t' i s) \<and> readable x = readable (slot t' i s) \<and> writable x = writable (slot t' i s))"

lemma dup_slots_ok:
  assumes "tables_inv F G s" and "t \<in> F" and "t' \<in> F" and "t' \<noteq> t" and "distinct is"
    and "\<forall>i\<in>set is. i < nentry t s \<and> i < nentry t' s \<and> fstatus (slot t i s) = FD_NONE"
  shows "\<exists>s'. dup_slots t t' is s = Some s' \<and> tables_inv F G s' \<and> only t s s' \<and>
    (\<forall>i\<in>set is. slot_copied s t' (slot t i s') i) \<and> (\<forall>i. i \<notin> set is \<longrightarrow> slot t i s' = slot t i s)"
  using assms
proof (induction "is" arbitrary: s)
  case Nil
  then show ?case by (simp add: only_self)
next
  case (Cons i "is")
  note T = Cons.prems(1) and tF = Cons.prems(2) and t'F = Cons.prems(3) and ne = Cons.prems(4)
  have i: "i < nentry t s" "i < nentry t' s" "fstatus (slot t i s) = FD_NONE" using Cons.prems(6) by simp_all
  note so = tables_okD(2) [OF T t'F i(2)]
  have "\<exists>s1. (if fstatus (slot t' i s) = FD_OPENED
           then fd_array_dup t i t' i (upd_slot t i (\<lambda>x. x\<lparr>fstatus := FD_INIT\<rparr>) s) else Some s) = Some s1 \<and>
      tables_inv F G s1 \<and> only t s s1 \<and> slot_copied s t' (slot t i s1) i \<and> (\<forall>j. j \<noteq> i \<longrightarrow> slot t j s1 = slot t j s)"
  proof (cases "fstatus (slot t' i s) = FD_OPENED")
    case False
    then have "fstatus (slot t' i s) = FD_NONE" using so by (auto simp: slot_ok_def)
    then show ?thesis using T i(3) by (simp add: slot_copied_def only_self)
  next
    case True
    obtain node where node: "fnode (slot t' i s) = Some node" using so True by (auto simp: slot_ok_def)
    let ?f = "\<lambda>x. x\<lparr>fstatus := FD_INIT, fpos := fpos (slot t' i s), readable := readable (slot t' i s),
      writable := writable (slot t' i s), fnode := Some node, fstatus := FD_OPENED, fopen_count := fopen_count x + 1\<rparr>"
    obtain s1 where 1: "fd_array_dup t i t' i (upd_slot t i (\<lambda>x. x\<lparr>fstatus := FD_INIT\<rparr>) s) = Some s1" "tables_inv F G s1"
        "cur_files s1 = cur_files s" "filess s1 = filess (upd_slot t i ?f s)"
      using dup_slot_ok [OF T tF i(1,3) True node, of "\<lambda>x. x\<lparr>fstatus := FD_INIT\<rparr>"] by auto
    have "slot t i s1 = ?f (slot t i s)" "\<forall>j. j \<noteq> i \<longrightarrow> slot t j s1 = slot t j s"
      using filess_eq(3) [OF 1(4)] i(1) by (simp_all add: slot_upd_slot)
    then show ?thesis using 1 True node only_upd_slot [OF 1(4,3)] by (simp add: slot_copied_def)
  qed
  then obtain s1 where 1: "(if fstatus (slot t' i s) = FD_OPENED
           then fd_array_dup t i t' i (upd_slot t i (\<lambda>x. x\<lparr>fstatus := FD_INIT\<rparr>) s) else Some s) = Some s1"
      "tables_inv F G s1" "only t s s1" "slot_copied s t' (slot t i s1) i" "\<forall>j. j \<noteq> i \<longrightarrow> slot t j s1 = slot t j s" by blast
  have pre: "\<forall>j\<in>set is. j < nentry t s1 \<and> j < nentry t' s1 \<and> fstatus (slot t j s1) = FD_NONE"
    using Cons.prems(5,6) onlyD(1) [OF 1(3)] 1(5) by fastforce
  have dist: "distinct is" and inotin: "i \<notin> set is" using Cons.prems(5) by simp_all
  obtain s2 where 2: "dup_slots t t' is s1 = Some s2" "tables_inv F G s2" "only t s1 s2"
      "\<forall>i\<in>set is. slot_copied s1 t' (slot t i s2) i" "\<forall>i. i \<notin> set is \<longrightarrow> slot t i s2 = slot t i s1"
    using Cons.IH [OF 1(2) tF t'F ne dist pre] by blast
  have "slot_copied s1 t' x j = slot_copied s t' x j" for x j using onlyD(2) [OF 1(3) ne] by (simp add: slot_copied_def)
  then have "\<forall>j\<in>set (i # is). slot_copied s t' (slot t j s2) j" using 1(4) 2(4,5) inotin by simp
  moreover have "dup_slots t t' (i # is) s = Some s2" using 1(1) 2(1) by (simp del: if_split split del: if_split)
  ultimately show ?case using 1(5) 2(2,5) only_trans [OF 1(3) 2(3)] by auto
qed

lemma dup_files_ok:
  assumes ok: "tables_ok F s" and t': "t' \<in> F" and t: "t \<notin> F" and counts: "files_count (filess s t) = 0" "files_count (filess s t') > 0"
    and fresh: "\<forall>i<nentry t s. slot t i s = (slot t i s)\<lparr>fstatus := FD_NONE, fopen_count := 0, fd := int i\<rparr>"
    and len: "nentry t s = nentry t' s"
  shows "\<exists>s'. dup_files t t' s = Some s' \<and> tables_ok (insert t F) s' \<and> filess s' t' = filess s t' \<and>
    pwd (filess s' t) = pwd (filess s t') \<and> nentry t s' = nentry t s \<and> (\<forall>i<nentry t s. slot_copied s t' (slot t i s') i) \<and>
    files_count (filess s' t) = 0 \<and> (\<forall>u. u \<noteq> t \<longrightarrow> filess s' u = filess s u)"
proof -
  have T: "tables_inv F F s" and ne: "t' \<noteq> t" using ok t t' by (auto simp: tables_ok_def)
  have none: "fstatus (slot t i s) = FD_NONE \<and> slot_ok i (slot t i s)" if "i < nentry t s" for i
  proof -
    have "slot t i s = (slot t i s)\<lparr>fstatus := FD_NONE, fopen_count := 0, fd := int i\<rparr>" using fresh that by blast
    then have "fstatus (slot t i s) = FD_NONE" "fopen_count (slot t i s) = 0" "fd (slot t i s) = int i"
      by (metis file_struct.ext_inject file_struct.surjective file_struct.update_convs)+
    then show ?thesis by (simp add: slot_ok_def)
  qed
  let ?s1 = "s\<lparr>filess := (filess s)(t := (filess s t)\<lparr>pwd := pwd (filess s t')\<rparr>)\<rparr>"
  let ?s2 = "case pwd (filess s t') of Some n \<Rightarrow> inode_ref_inc n ?s1 | None \<Rightarrow> ?s1"
  have fs2: "filess ?s2 = filess ?s1" and fp2: "cur_files ?s2 = cur_files s"
    by (simp_all add: inode_ref_inc_def split: option.splits)
  note eqs = filess_eq [OF fs2]
  have sl: "slot u i ?s1 = slot u i s" "nentry u ?s1 = nentry u s" for u i by (simp_all add: slot_def nentry_def)
  have op: "opens (insert t F) ?s1 n = opens F s n" for n
  proof -
    have "opens (insert t F - {t}) s n = opens (insert t F) s n"
      using tables_okD(1) [OF T] none by (intro opens_drop) simp_all
    then show ?thesis using t by (simp add: opens_def slots_of_def sl)
  qed
  have pw: "pwds (insert t F) ?s1 n = (if pwd (filess s t') = Some n then 1 else 0) + pwds F s n" for n
  proof -
    have "(\<Sum>u\<in>F. if pwd (filess ?s1 u) = Some n then 1 else 0 :: int) = (\<Sum>u\<in>F. if pwd (filess s u) = Some n then 1 else 0)"
      using t by (intro sum.cong) auto
    then show ?thesis using tables_okD(1) [OF T] t by (simp add: pwds_def)
  qed
  have T2: "tables_inv (insert t F) (insert t F) ?s2"
    unfolding tables_inv_def
  proof (intro conjI ballI allI impI)
    show "finite (insert t F)" using tables_okD(1) [OF T] by simp
    show "slot_ok i (slot u i ?s2)" if "u \<in> insert t F" "i < nentry u ?s2" for u i
      using that none tables_okD(2) [OF T] by (auto simp: eqs sl)
    fix n
    show "open_count (inodes ?s2 n) = opens (insert t F) ?s2 n"
      using tables_okD(3) [OF T, of n] by (simp add: eqs op inode_ref_inc_def split: option.split)
    show "opens (insert t F) ?s2 n + pwds (insert t F) ?s2 n + pin (inodes ?s2 n) \<le> ref_count (inodes ?s2 n)"
      using tables_okD(4) [OF T, of n] by (simp add: eqs op pw inode_ref_inc_def split: option.split)
    show "known_ops (in_ops (inodes ?s2 n))"
      using tables_okD(5) [OF T, of n] by (simp add: inode_ref_inc_def split: option.split)
  qed
  have pre: "\<forall>i\<in>set [0..<nentry t' ?s2]. i < nentry t ?s2 \<and> i < nentry t' ?s2 \<and> fstatus (slot t i ?s2) = FD_NONE"
    using len none by (simp add: eqs sl)
  obtain s3 where 3: "dup_slots t t' [0..<nentry t' ?s2] ?s2 = Some s3" "tables_inv (insert t F) (insert t F) s3" "only t ?s2 s3"
      "\<forall>i\<in>set [0..<nentry t' ?s2]. slot_copied ?s2 t' (slot t i s3) i"
    using dup_slots_ok [OF T2 _ _ ne _ pre] t' by auto
  have dup: "dup_files t t' s = Some s3"
    unfolding dup_files_def Let_def using counts ne 3(1) by simp
  have cp: "slot_copied ?s2 t' x j = slot_copied s t' x j" for x j by (simp add: slot_copied_def eqs sl)
  have "pwd (filess s3 t) = pwd (filess s t')" "filess s3 t' = filess s t'" "nentry t s3 = nentry t s"
    "files_count (filess s3 t) = 0" "\<forall>u. u \<noteq> t \<longrightarrow> filess s3 u = filess s u"
    using 3(3) ne counts(1) by (simp_all add: only_def fs2 eqs sl)
  then show ?thesis using dup 3(2,4) len by (simp add: tables_ok_def eqs sl cp)
qed

text \<open>C23: a child's file table (\<^verbatim>\<open>dup_files\<close> on a table just created): no assertion fails, every open slot of the parent
  has a copy with the same node, position and permissions, the parent's table is unchanged, and the counts of the
  inodes account for both tables.\<close>

theorem dup_files_correct:
  assumes ok: "tables_ok F s" and t': "t' \<in> F" and t: "t \<notin> F" and counts: "files_count (filess s t) = 0" "files_count (filess s t') > 0"
    and fresh: "\<forall>i<nentry t s. slot t i s = (slot t i s)\<lparr>fstatus := FD_NONE, fopen_count := 0, fd := int i\<rparr>"
    and len: "nentry t s = nentry t' s"
  shows "\<exists>s'. dup_files t t' s = Some s' \<and> tables_ok (insert t F) s' \<and> filess s' t' = filess s t' \<and>
    pwd (filess s' t) = pwd (filess s t') \<and> nentry t s' = nentry t s \<and> (\<forall>i<nentry t s. slot_copied s t' (slot t i s') i)"
  using dup_files_ok [OF assms] by blast

lemma fd_array_init_slots:
  "n \<le> nentry t s \<Longrightarrow> nentry t' (fd_array_init t n s) = nentry t' s \<and> slot t i (fd_array_init t n s) =
     (if i < n then (slot t i s)\<lparr>fopen_count := 0, fstatus := FD_NONE, fd := int i\<rparr> else slot t i s)"
proof (induction n arbitrary: i t')
  case 0
  then show ?case by (simp add: fd_array_init_def)
next
  case (Suc n)
  have step: "fd_array_init t (Suc n) s = upd_slot t n (\<lambda>x. x\<lparr>fopen_count := 0, fstatus := FD_NONE, fd := int n\<rparr>) (fd_array_init t n s)"
    by (simp add: fd_array_init_def)
  have IH: "nentry t' (fd_array_init t n s) = nentry t' s" for t'
  proof -
    have "nentry t' (fold (\<lambda>i. upd_slot t i (\<lambda>x. x\<lparr>fopen_count := 0, fstatus := FD_NONE, fd := int i\<rparr>)) xs s) = nentry t' s" for xs
      by (induction xs arbitrary: s) simp_all
    then show ?thesis by (simp add: fd_array_init_def)
  qed
  have n: "n < nentry t (fd_array_init t n s)" using Suc.prems by (simp add: IH)
  have sl: "slot t n (fd_array_init t n s) = slot t n s" using Suc by simp
  show ?case unfolding step using Suc n sl by (auto simp: IH slot_upd_slot less_Suc_eq)
qed

text \<open>A table just created is what \<^verbatim>\<open>dup_files\<close> asks for.\<close>

lemma files_create_fresh:
  assumes "nentry t s = n" and "files_create n (Some t) s = (Some t, s')"
  shows "files_count (filess s' t) = 0 \<and> pwd (filess s' t) = None \<and> nentry t s' = n \<and>
    (\<forall>i<nentry t s'. slot t i s' = (slot t i s')\<lparr>fstatus := FD_NONE, fopen_count := 0, fd := int i\<rparr>)"
proof -
  let ?s1 = "s\<lparr>filess := (filess s)(t := (filess s t)\<lparr>pwd := None, files_count := 0\<rparr>)\<rparr>"
  have s': "s' = fd_array_init t n ?s1" using assms(2) by (simp add: files_create_def Let_def)
  have n: "n \<le> nentry t ?s1" using assms(1) by (simp add: nentry_def)
  have "pwd (filess (fd_array_init t n u) t) = pwd (filess u t) \<and> files_count (filess (fd_array_init t n u) t) = files_count (filess u t)"
    for u :: "'a files_state"
  proof -
    have "pwd (filess (fold (\<lambda>i. upd_slot t i (f i)) xs u) t) = pwd (filess u t) \<and>
        files_count (filess (fold (\<lambda>i. upd_slot t i (f i)) xs u) t) = files_count (filess u t)" for f xs
      by (induction xs arbitrary: u) simp_all
    then show ?thesis by (simp add: fd_array_init_def)
  qed
  then show ?thesis using fd_array_init_slots [OF n] assms(1) by (simp add: s' nentry_def)
qed

text \<open>What the tables of processes under construction leave alone.\<close>

lemma tables_ok_outside:
  assumes "\<forall>t\<in>F. pwd (filess s' t) = pwd (filess s t) \<and> fd_array (filess s' t) = fd_array (filess s t)" and "inodes s' = inodes s"
  shows "tables_ok F s' = tables_ok F s"
proof -
  have sl: "slot t i s' = slot t i s" "nentry t s' = nentry t s" if "t \<in> F" for t i
    using assms(1) that by (simp_all add: slot_def nentry_def)
  have "slots_of F s' = slots_of F s" using sl(2) by (auto simp: slots_of_def)
  moreover have "slot (fst p) (snd p) s' = slot (fst p) (snd p) s" if "p \<in> slots_of F s" for p
    using that sl(1) [of "fst p" "snd p"] by (auto simp: slots_of_def)
  ultimately have "opens F s' n = opens F s n" for n unfolding opens_def by (intro sum.cong) simp_all
  moreover have "pwds F s' n = pwds F s n" for n unfolding pwds_def by (rule sum.cong) (use assms(1) in simp_all)
  moreover have "(\<forall>t\<in>F. \<forall>i<nentry t s'. slot_ok i (slot t i s')) = (\<forall>t\<in>F. \<forall>i<nentry t s. slot_ok i (slot t i s))"
    by (rule ball_cong) (simp_all add: sl)
  ultimately show ?thesis by (simp add: tables_ok_def tables_inv_def assms(2))
qed

lemma count_sel [simp]:
  "filess (files_count_inc t s) u = (if u = t then (filess s t)\<lparr>files_count := files_count (filess s t) + 1\<rparr> else filess s u)"
  "filess (files_count_dec t s) u = (if u = t then (filess s t)\<lparr>files_count := files_count (filess s t) - 1\<rparr> else filess s u)"
  "inodes (files_count_inc t s) = inodes s" "inodes (files_count_dec t s) = inodes s"
  "nentry u (files_count_inc t s) = nentry u s" "nentry u (files_count_dec t s) = nentry u s"
  "slot u i (files_count_inc t s) = slot u i s" "slot u i (files_count_dec t s) = slot u i s"
  "tables_ok F (files_count_inc t s) = tables_ok F s" "tables_ok F (files_count_dec t s) = tables_ok F s"
proof -
  show "tables_ok F (files_count_inc t s) = tables_ok F s" "tables_ok F (files_count_dec t s) = tables_ok F s"
    by (rule tables_ok_outside; simp add: files_count_inc_def files_count_dec_def)+
qed (simp_all add: files_count_inc_def files_count_dec_def nentry_def slot_def)

lemma fd_array_init_sel:
  "t' \<noteq> t \<Longrightarrow> filess (fd_array_init t n s) t' = filess s t'" "inodes (fd_array_init t n s) = inodes s"
proof -
  have "(t' \<noteq> t \<longrightarrow> filess (fold (\<lambda>i. upd_slot t i (f i)) xs s) t' = filess s t') \<and>
      inodes (fold (\<lambda>i. upd_slot t i (f i)) xs s) = inodes s" for f xs
    by (induction xs arbitrary: s) (simp_all add: upd_slot_def)
  then show "t' \<noteq> t \<Longrightarrow> filess (fd_array_init t n s) t' = filess s t'" "inodes (fd_array_init t n s) = inodes s"
    by (simp_all add: fd_array_init_def)
qed

text \<open>A table just created, filled by \<^verbatim>\<open>dup_files\<close> from the live table \<open>old\<close>.\<close>

lemma create_dup_ok:
  assumes ok: "tables_ok F s" and old: "old \<in> F" "files_count (filess s old) > 0" and f: "f \<notin> F"
    and n: "nentry f s = n" "nentry old s = n"
  obtains s1 s2 where "files_create n (Some f) s = (Some f, s1)" "dup_files f old s1 = Some s2"
    "tables_ok (insert f F) s2" "files_count (filess s2 f) = 0" "pwd (filess s2 f) = pwd (filess s old)"
    "\<forall>u. u \<noteq> f \<longrightarrow> filess s2 u = filess s u" "nentry f s2 = n" "\<forall>i<n. slot_copied s old (slot f i s2) i"
proof -
  have ne: "old \<noteq> f" using old(1) f by blast
  obtain s1 where c: "files_create n (Some f) s = (Some f, s1)" by (simp add: files_create_def Let_def)
  have other: "\<forall>u. u \<noteq> f \<longrightarrow> filess s1 u = filess s u" and ino: "inodes s1 = inodes s"
    using c by (auto simp: files_create_def Let_def fd_array_init_sel)
  note fresh = files_create_fresh [OF n(1) c]
  have ok1: "tables_ok F s1" using tables_ok_outside [of F s1 s] other ino f ok by (metis (no_types, lifting))
  have o1: "filess s1 old = filess s old" using other ne by blast
  then have no: "nentry old s1 = n" "slot_copied s1 old x i = slot_copied s old x i" for x i
    using n(2) by (simp_all add: nentry_def slot_copied_def slot_def)
  obtain s2 where 2: "dup_files f old s1 = Some s2" "tables_ok (insert f F) s2" "pwd (filess s2 f) = pwd (filess s1 old)"
      "nentry f s2 = nentry f s1" "\<forall>i<nentry f s1. slot_copied s1 old (slot f i s2) i" "files_count (filess s2 f) = 0"
      "\<forall>u. u \<noteq> f \<longrightarrow> filess s2 u = filess s1 u"
    using dup_files_ok [OF ok1 old(1) f] fresh old(2) no(1) o1 by auto
  show ?thesis by (rule that [OF c 2(1,2,6)]) (use 2 fresh other o1 no in auto)
qed



subsection \<open>A concrete state\<close>


definition demo_slot :: "nat \<Rightarrow> file_struct" where
  "demo_slot i = \<lparr>fstatus = FD_NONE, readable = False, writable = False, fd = int i, fpos = 0, fnode = None, fopen_count = 0\<rparr>"

text \<open>Process 0 has descriptor 0 open on the file 7 and descriptor 2 on the directory 5, which is its working directory.\<close>

definition demo_state :: "nat files_state" where
  "demo_state = \<lparr>inodes = \<lambda>n. if n = 7 then \<lparr>ref_count = 1, open_count = 1, in_ops = sfs_node_fileops\<rparr>
       else if n = 5 then \<lparr>ref_count = 2, open_count = 1, in_ops = sfs_node_dirops\<rparr>
       else \<lparr>ref_count = 0, open_count = 0, in_ops = sfs_node_dirops\<rparr>,
     filess = \<lambda>t. if t = 0 then \<lparr>pwd = Some 5, fd_array = [(demo_slot 0)\<lparr>fstatus := FD_OPENED, fnode := Some 7, fopen_count := 1\<rparr>,
        demo_slot 1, (demo_slot 2)\<lparr>fstatus := FD_OPENED, readable := True, fnode := Some 5, fopen_count := 1\<rparr>],
        files_count = 1\<rparr> else \<lparr>pwd = None, fd_array = [demo_slot 0, demo_slot 1, demo_slot 2], files_count = 0\<rparr>,
     cur_files = 0, calls = [], world = 0\<rparr>"

lemma all_less_3: "(\<forall>i<3. P i) \<longleftrightarrow> P 0 \<and> P (Suc 0) \<and> P 2"
  by (auto simp: less_Suc_eq numeral_3_eq_3 numeral_2_eq_2)

lemma demo_nentry: "nentry t demo_state = 3"
  by (simp add: nentry_def demo_state_def)

lemma demo_opens: "opens {0} demo_state n = (if n = 7 \<or> n = 5 then 1 else 0)"
proof -
  have "slots_of {0} demo_state = {(0, 0), (0, Suc 0), (0, 2)}"
    by (auto simp: slots_of_def demo_nentry less_Suc_eq numeral_3_eq_3 numeral_2_eq_2)
  then show ?thesis by (simp add: opens_def slot_def demo_state_def demo_slot_def holds_def)
qed

lemma demo_ok: "tables_ok {0} demo_state" "ref_count (inodes demo_state n) + 3 < MAX_INODE_COUNT"
proof -
  have "known_ops (in_ops (inodes demo_state n)) \<and> VReclaim \<in> in_ops (inodes demo_state n)" for n
    by (simp add: demo_state_def known_ops_def sfs_node_dirops_def sfs_node_fileops_def)
  then show "tables_ok {0} demo_state"
    by (simp add: tables_ok_def tables_inv_def demo_nentry all_less_3 demo_opens pin_def)
      (simp add: pwds_def slot_ok_def slot_def demo_state_def demo_slot_def)
qed (simp_all add: demo_state_def)


text \<open>The demo table without its user.\<close>

definition demo_unused :: "nat files_state" where
  "demo_unused = demo_state\<lparr>filess := (filess demo_state)(0 := (filess demo_state 0)\<lparr>files_count := 0\<rparr>)\<rparr>"

lemma demo_unused_same:
  "nentry t demo_unused = nentry t demo_state" "slot t i demo_unused = slot t i demo_state"
  "pwd (filess demo_unused t) = pwd (filess demo_state t)" "inodes demo_unused = inodes demo_state"
  "opens {0} demo_unused n = opens {0} demo_state n" "pwds {0} demo_unused n = pwds {0} demo_state n"
proof -
  show same: "nentry t demo_unused = nentry t demo_state" "slot t i demo_unused = slot t i demo_state"
    "pwd (filess demo_unused t) = pwd (filess demo_state t)" "inodes demo_unused = inodes demo_state" for t i
    by (simp_all add: nentry_def slot_def demo_unused_def)
  show "opens {0} demo_unused n = opens {0} demo_state n" "pwds {0} demo_unused n = pwds {0} demo_state n"
    unfolding opens_def slots_of_def pwds_def same by simp_all
qed

lemma demo_unused_ok: "tables_ok {0} demo_unused"
  using demo_ok(1) by (simp add: tables_ok_def tables_inv_def demo_unused_same)

theorem files_destroy_correct_witness:
  "\<exists>s'. files_destroy 0 demo_unused = Some s' \<and> tables_ok {} s' \<and> ref_count (inodes s' 5) = 0 \<and> ref_count (inodes s' 7) = 0"
proof -
  have refs: "ref_count (inodes demo_unused n) < MAX_INODE_COUNT" for n
    unfolding demo_unused_same by (simp add: demo_state_def)
  have unused: "files_count (filess demo_unused 0) = 0" by (simp add: demo_unused_def)
  obtain s' where "files_destroy 0 demo_unused = Some s'" "tables_ok ({0} - {0}) s'" and n: "\<forall>n. ref_count (inodes s' n) =
      ref_count (inodes demo_unused n) - opens {0} demo_unused n - (if pwd (filess demo_unused 0) = Some n then 1 else 0)"
    using files_destroy_correct [OF demo_unused_ok refs _ unused] by blast
  moreover have "ref_count (inodes s' 5) = 0" "ref_count (inodes s' 7) = 0"
    using n by (simp_all add: demo_unused_same demo_opens) (simp_all add: demo_state_def)
  ultimately show ?thesis by auto
qed

theorem dup_files_correct_witness:
  "\<exists>s'. dup_files 1 0 demo_state = Some s' \<and> tables_ok (insert 1 {0}) s' \<and> filess s' 0 = filess demo_state 0 \<and>
    pwd (filess s' 1) = pwd (filess demo_state 0) \<and> nentry 1 s' = nentry 1 demo_state \<and> (\<forall>i<nentry 1 demo_state. slot_copied demo_state 0 (slot 1 i s') i)"
  by (rule dup_files_correct [OF demo_ok(1)]) (simp_all add: demo_nentry all_less_3, simp_all add: demo_state_def slot_def demo_slot_def)


end
