(* ===== verification/Lifecycle.thy ===== *)
theory Lifecycle
  imports Process File_Calls
begin

unbundle bit_operations_syntax

section \<open>Birth and death of processes (process/proc.c)\<close>

text \<open>
  \<^verbatim>\<open>do_fork\<close>, \<^verbatim>\<open>do_exit\<close>, \<^verbatim>\<open>do_wait\<close>, \<^verbatim>\<open>do_kill\<close> and what they call, over the process table of theory
  \<open>Process\<close> and any scheduling class. The objects a process holds appear as resources: \<open>held\<close> is the set of
  objects that are allocated and not yet freed, \<open>mm_count\<close> are the reference counts of the address spaces. The file
  tables and inodes are those of theory \<open>File_Table\<close> (\<open>ftab\<close>); of them only the descriptor of the running process
  \<open>cur_files\<close>, which is \<^verbatim>\<open>current->filesp\<close> during a call on files, is not used here. What the allocators answer (an address or NULL, the error
  of \<^verbatim>\<open>dup_mmap\<close>) is the argument \<open>env\<close>; the contents of the objects, the trap frame and the register
  context are not modelled here, nor are the locks \<^verbatim>\<open>lock_mm\<close> and \<^verbatim>\<open>unlock_mm\<close> around \<^verbatim>\<open>dup_mmap\<close>.
  \<^verbatim>\<open>do_exit\<close> does not return to its caller: its result is the state in which the next process runs.
  \<^verbatim>\<open>do_wait\<close> is split at its call of \<^verbatim>\<open>schedule\<close>.
\<close>

subsection \<open>Operations\<close>

abbreviation E_BAD_PROC :: int where "E_BAD_PROC \<equiv> 2"
abbreviation E_NO_FREE_PROC :: int where "E_NO_FREE_PROC \<equiv> 5"
abbreviation E_KILLED :: int where "E_KILLED \<equiv> 9"
abbreviation CLONE_VM :: "32 word" where "CLONE_VM \<equiv> 0x100"
abbreviation CLONE_FS :: "32 word" where "CLONE_FS \<equiv> 0x800"

datatype resource = ProcMem nat | KStack nat | MmMem nat | PgDir nat | Mapping nat | FilesMem nat

record 'w os =
  kern :: kernel
  boot_pgdir_pa :: nat
  mm_count :: "nat \<Rightarrow> int"
  mm_pgdir :: "nat \<Rightarrow> nat"
  ftab :: "'w files_state"
  held :: "resource set"

record fork_env =
  e_proc :: "nat option"
  e_kstack :: "nat option"
  e_mm :: "nat option"
  e_pgdir :: "nat option"
  e_dup_mmap :: int
  e_files :: "nat option"

definition on_kern :: "(kernel \<Rightarrow> kernel) \<Rightarrow> 'w os \<Rightarrow> 'w os" where
  "on_kern f s = s\<lparr>kern := f (kern s)\<rparr>"

definition acquire :: "resource \<Rightarrow> 'w os \<Rightarrow> 'w os" where
  "acquire r s = s\<lparr>held := insert r (held s)\<rparr>"

definition release :: "resource \<Rightarrow> 'w os \<Rightarrow> 'w os" where
  "release r s = s\<lparr>held := held s - {r}\<rparr>"

definition init_pool :: "nat \<Rightarrow> nat skew_heap_entry \<Rightarrow> nat skew_heap_entry" where
  "init_pool p h = h\<lparr>sleft := (sleft h)(p := None), sright := (sright h)(p := None), sparent := (sparent h)(p := None)\<rparr>"

definition blank_proc :: "nat \<Rightarrow> proc_struct" where
  "blank_proc dir = \<lparr>state = PROC_UNINIT, pid = -1, runs = 0, kstack = 0, need_resched = False,
     parent = None, mm = None, pgdir = dir, pflags = 0, pname = [], exit_code = 0, wait_state = 0,
     cptr = None, yptr = None, optr = None, rq = False, time_slice = 0, lab6_stride = 0,
     lab6_priority = 0, filesp = None\<rparr>"

definition alloc_proc :: "nat option \<Rightarrow> 'w os \<Rightarrow> nat option \<times> 'w os" where
  "alloc_proc kmalloc s =
     (case kmalloc of
        None \<Rightarrow> (None, s)
      | Some p \<Rightarrow> (
          let s = acquire (ProcMem p) s;
              s = on_kern (upd_proc p (\<lambda>_. blank_proc (boot_pgdir_pa s))) s;
              s = on_kern (upd_klinks (list_init (ListLink p))) s;
              s = on_kern (upd_klinks (list_init (HashLink p))) s;
              s = on_kern (upd_klinks (list_init (RunLink p))) s;
              s = on_kern (\<lambda>k. k\<lparr>pool := init_pool p (pool k)\<rparr>) s
          in (Some p, s)))"

definition setup_kstack :: "nat option \<Rightarrow> nat \<Rightarrow> 'w os \<Rightarrow> int \<times> 'w os" where
  "setup_kstack pages p s =
     (case pages of
        Some va \<Rightarrow> (0, acquire (KStack va) (on_kern (upd_proc p (\<lambda>x. x\<lparr>kstack := va\<rparr>)) s))
      | None \<Rightarrow> (- E_NO_MEM, s))"

definition put_kstack :: "nat \<Rightarrow> 'w os \<Rightarrow> 'w os" where
  "put_kstack p s = release (KStack (kstack (procs (kern s) p))) s"

definition setup_pgdir :: "nat option \<Rightarrow> nat \<Rightarrow> 'w os \<Rightarrow> int \<times> 'w os" where
  "setup_pgdir page m s =
     (case page of
        None \<Rightarrow> (- E_NO_MEM, s)
      | Some dir \<Rightarrow> (0, (acquire (PgDir dir) s)\<lparr>mm_pgdir := (mm_pgdir s)(m := dir)\<rparr>))"

definition put_pgdir :: "nat \<Rightarrow> 'w os \<Rightarrow> 'w os" where
  "put_pgdir m s = release (PgDir (mm_pgdir s m)) s"

definition mm_count_inc :: "nat \<Rightarrow> 'w os \<Rightarrow> 'w os" where
  "mm_count_inc m s = s\<lparr>mm_count := (mm_count s)(m := mm_count s m + 1)\<rparr>"

definition mm_destroy :: "nat \<Rightarrow> 'w os \<Rightarrow> 'w os option" where
  "mm_destroy m s = do { massert (mm_count s m = 0); Some (release (MmMem m) s) }"

text \<open>The drop of one reference to an address space, as in \<^verbatim>\<open>do_exit\<close> and on the error path of \<^verbatim>\<open>do_fork\<close>.\<close>

definition put_mm :: "nat \<Rightarrow> 'w os \<Rightarrow> 'w os option" where
  "put_mm m s = (
     let s = s\<lparr>mm_count := (mm_count s)(m := mm_count s m - 1)\<rparr>
     in if mm_count s m = 0 then mm_destroy m (put_pgdir m (release (Mapping m) s)) else Some s)"

definition copy_mm :: "fork_env \<Rightarrow> 32 word \<Rightarrow> nat \<Rightarrow> 'w os \<Rightarrow> (int \<times> 'w os) option" where
  "copy_mm env clone_flags p s =
     (let good_mm = \<lambda>m s.
        (0, on_kern (upd_proc p (\<lambda>x. x\<lparr>mm := Some m, pgdir := mm_pgdir s m\<rparr>)) (mm_count_inc m s))
      in case mm (procs (kern s) (current (kern s))) of
        None \<Rightarrow> Some (0, s)
      | Some oldmm \<Rightarrow>
          if clone_flags AND CLONE_VM \<noteq> 0 then Some (good_mm oldmm s)
          else case e_mm env of
            None \<Rightarrow> Some (- E_NO_MEM, s)
          | Some m \<Rightarrow> (
              let s = (acquire (MmMem m) s)\<lparr>mm_count := (mm_count s)(m := 0)\<rparr>;
                  (r, s) = setup_pgdir (e_pgdir env) m s
              in if r \<noteq> 0 then do { s \<leftarrow> mm_destroy m s; Some (- E_NO_MEM, s) }
                 else let s = acquire (Mapping m) s in
                   if e_dup_mmap env \<noteq> 0 then do {
                     let s = release (Mapping m) s;
                     let s = put_pgdir m s;
                     s \<leftarrow> mm_destroy m s;
                     Some (e_dup_mmap env, s)
                   } else Some (good_mm m s)))"

text \<open>\<^verbatim>\<open>dup_files\<close> always returns 0, so the label \<^verbatim>\<open>bad_dup_cleanup_fs\<close> is never reached.\<close>

definition copy_files :: "fork_env \<Rightarrow> 32 word \<Rightarrow> nat \<Rightarrow> 'w os \<Rightarrow> (int \<times> 'w os) option" where
  "copy_files env clone_flags p s = do {
     old \<leftarrow> filesp (procs (kern s) (current (kern s)));
     let good = (\<lambda>f s. (0 :: int, on_kern (upd_proc p (\<lambda>x. x\<lparr>filesp := Some f\<rparr>)) (s\<lparr>ftab := files_count_inc f (ftab s)\<rparr>)));
     if clone_flags AND CLONE_FS \<noteq> 0 then Some (good old s)
     else case files_create FILES_STRUCT_NENTRY (e_files env) (ftab s) of
       (None, ft) \<Rightarrow> Some (- E_NO_MEM, s\<lparr>ftab := ft\<rparr>)
     | (Some f, ft) \<Rightarrow> do {
         ft \<leftarrow> dup_files f old ft;
         Some (good f ((acquire (FilesMem f) s)\<lparr>ftab := ft\<rparr>))
       }
   }"

definition put_files :: "nat \<Rightarrow> 'w os \<Rightarrow> 'w os option" where
  "put_files p s =
     (case filesp (procs (kern s) p) of
        None \<Rightarrow> Some s
      | Some f \<Rightarrow> (
          let ft = files_count_dec f (ftab s)
          in if files_count (filess ft f) = 0
             then do { ft \<leftarrow> files_destroy f ft; Some (release (FilesMem f) (s\<lparr>ftab := ft\<rparr>)) }
             else Some (s\<lparr>ftab := ft\<rparr>)))"

definition undo_mm :: "nat \<Rightarrow> 'w os \<Rightarrow> 'w os option" where
  "undo_mm p s =
     (case mm (procs (kern s) p) of
        None \<Rightarrow> Some s
      | Some m \<Rightarrow> put_mm m (on_kern (upd_proc p (\<lambda>x. x\<lparr>mm := None\<rparr>)) s))"

text \<open>\<^verbatim>\<open>do_fork\<close> in three stages: up to the kernel stack, the address space, files and table.\<close>

definition fork_files :: "sched_class \<Rightarrow> fork_env \<Rightarrow> 32 word \<Rightarrow> nat \<Rightarrow> 'w os \<Rightarrow> (int \<times> 'w os) option" where
  "fork_files sc env clone_flags p s = do {
     (ret, s) \<leftarrow> copy_files env clone_flags p s;
     if ret \<noteq> 0 then do {
       s \<leftarrow> put_files p s;
       s \<leftarrow> undo_mm p s;
       Some (ret, release (ProcMem p) (put_kstack p s))
     } else do {
       k \<leftarrow> enter_table p (kern s);
       k \<leftarrow> wakeup_proc sc p k;
       Some (pid (procs k p), s\<lparr>kern := k\<rparr>)
     }
   }"

definition fork_mm :: "sched_class \<Rightarrow> fork_env \<Rightarrow> 32 word \<Rightarrow> nat \<Rightarrow> 'w os \<Rightarrow> (int \<times> 'w os) option" where
  "fork_mm sc env clone_flags p s = do {
     (ret, s) \<leftarrow> copy_mm env clone_flags p s;
     if ret \<noteq> 0 then Some (ret, release (ProcMem p) (put_kstack p s))
     else fork_files sc env clone_flags p s
   }"

definition do_fork :: "sched_class \<Rightarrow> fork_env \<Rightarrow> 32 word \<Rightarrow> 'w os \<Rightarrow> (int \<times> 'w os) option" where
  "do_fork sc env clone_flags s =
     (if MAX_PROCESS \<le> nr_process (kern s) then Some (- E_NO_FREE_PROC, s)
      else case alloc_proc (e_proc env) s of
        (None, s) \<Rightarrow> Some (- E_NO_MEM, s)
      | (Some p, s) \<Rightarrow> (
          let s = on_kern (upd_proc p (\<lambda>x. x\<lparr>parent := Some (current (kern s))\<rparr>)) s;
              s = on_kern (upd_proc (current (kern s)) (\<lambda>x. x\<lparr>wait_state := 0\<rparr>)) s;
              (ret, s) = setup_kstack (e_kstack env) p s
          in if ret \<noteq> 0 then Some (ret, release (ProcMem p) s)
             else fork_mm sc env clone_flags p s))"

text \<open>The loop of \<^verbatim>\<open>do_exit\<close> that hands the children of the dying process to \<^verbatim>\<open>initproc\<close>.\<close>

definition set_younger :: "nat option \<Rightarrow> nat \<Rightarrow> kernel \<Rightarrow> kernel" where
  "set_younger c p k = (case c of Some q \<Rightarrow> upd_proc q (\<lambda>x. x\<lparr>yptr := Some p\<rparr>) k | None \<Rightarrow> k)"

definition adopt_child :: "nat \<Rightarrow> kernel \<Rightarrow> kernel" where
  "adopt_child p k = (
     let k = upd_proc (current k) (\<lambda>x. x\<lparr>cptr := optr (procs k p)\<rparr>) k;
         k = upd_proc p (\<lambda>x. x\<lparr>yptr := None\<rparr>) k;
         k = upd_proc p (\<lambda>x. x\<lparr>optr := cptr (procs k (initproc k))\<rparr>) k;
         k = set_younger (cptr (procs k (initproc k))) p k;
         k = upd_proc p (\<lambda>x. x\<lparr>parent := Some (initproc k)\<rparr>) k
     in upd_proc (initproc k) (\<lambda>x. x\<lparr>cptr := Some p\<rparr>) k)"

partial_function (option) reparent_loop :: "sched_class \<Rightarrow> kernel \<Rightarrow> kernel option" where
  "reparent_loop sc k =
     (case cptr (procs k (current k)) of
        None \<Rightarrow> Some k
      | Some p \<Rightarrow> do {
          let k = adopt_child p k;
          k \<leftarrow> (if state (procs k p) = PROC_ZOMBIE \<and> wait_state (procs k (initproc k)) = WT_CHILD
                then wakeup_proc sc (initproc k) k else Some k);
          reparent_loop sc k
        })"

declare reparent_loop.simps [code]

definition exit_mm :: "'w os \<Rightarrow> 'w os option" where
  "exit_mm s =
     (case mm (procs (kern s) (current (kern s))) of
        None \<Rightarrow> Some s
      | Some m \<Rightarrow> do {
          let s = on_kern (\<lambda>k. k\<lparr>satp := boot_pgdir_pa s\<rparr>) s;
          s \<leftarrow> put_mm m s;
          let s = on_kern (upd_proc (current (kern s)) (\<lambda>x. x\<lparr>mm := None\<rparr>)) s;
          put_files (current (kern s)) s
        })"

definition do_exit :: "sched_class \<Rightarrow> int \<Rightarrow> 'w os \<Rightarrow> 'w os option" where
  "do_exit sc error_code s = do {
     massert (current (kern s) \<noteq> idleproc (kern s));
     massert (current (kern s) \<noteq> initproc (kern s));
     s \<leftarrow> exit_mm s;
     let k = upd_proc (current (kern s)) (\<lambda>x. x\<lparr>state := PROC_ZOMBIE, exit_code := error_code\<rparr>) (kern s);
     par \<leftarrow> parent (procs k (current k));
     k \<leftarrow> (if wait_state (procs k par) = WT_CHILD then wakeup_proc sc par k else Some k);
     k \<leftarrow> reparent_loop sc k;
     k \<leftarrow> schedule sc k;
     Some (s\<lparr>kern := k\<rparr>)
   }"

definition do_yield :: "'w os \<Rightarrow> int \<times> 'w os" where
  "do_yield s = (0, on_kern (upd_proc (current (kern s)) (\<lambda>x. x\<lparr>need_resched := True\<rparr>)) s)"

text \<open>The search of \<^verbatim>\<open>do_wait\<close>: whether there is a child to wait for, and a zombie among them.\<close>

partial_function (option) zombie_loop :: "nat option \<Rightarrow> bool \<Rightarrow> kernel \<Rightarrow> (bool \<times> nat option) option" where
  "zombie_loop c haskid k =
     (case c of
        None \<Rightarrow> Some (haskid, None)
      | Some p \<Rightarrow> if state (procs k p) = PROC_ZOMBIE then Some (True, Some p)
                  else zombie_loop (optr (procs k p)) True k)"

declare zombie_loop.simps [code]

definition wait_search :: "int \<Rightarrow> kernel \<Rightarrow> (bool \<times> nat option) option" where
  "wait_search n k =
     (if n \<noteq> 0 then do {
        r \<leftarrow> find_proc n k;
        case r of
          None \<Rightarrow> Some (False, None)
        | Some p \<Rightarrow>
            if parent (procs k p) = Some (current k)
            then Some (True, if state (procs k p) = PROC_ZOMBIE then Some p else None)
            else Some (False, None)
      } else zombie_loop (cptr (procs k (current k))) False k)"

text \<open>One round of \<^verbatim>\<open>do_wait\<close>, up to the call of \<^verbatim>\<open>schedule\<close> (\<open>Asleep\<close>) or a return. \<open>mem_ok\<close> is the
  answer of \<^verbatim>\<open>user_mem_check\<close> (true when \<^verbatim>\<open>code_store\<close> is NULL); a return carries the exit code that
  is stored.\<close>

datatype wait_result = Returned int "int option" | Asleep

definition do_wait :: "sched_class \<Rightarrow> bool \<Rightarrow> int \<Rightarrow> 'w os \<Rightarrow> (wait_result \<times> 'w os) option" where
  "do_wait sc mem_ok n s =
     (if \<not> mem_ok then Some (Returned (- E_INVAL) None, s)
      else do {
        (haskid, z) \<leftarrow> wait_search n (kern s);
        case z of
          Some p \<Rightarrow> do {
            massert (p \<noteq> idleproc (kern s) \<and> p \<noteq> initproc (kern s));
            let code = exit_code (procs (kern s) p);
            k \<leftarrow> leave_table p (kern s);
            let s = put_kstack p (s\<lparr>kern := k\<rparr>);
            Some (Returned 0 (Some code), release (ProcMem p) s)
          }
        | None \<Rightarrow>
            if haskid then do {
              let k = upd_proc (current (kern s)) (\<lambda>x. x\<lparr>state := PROC_SLEEPING, wait_state := WT_CHILD\<rparr>) (kern s);
              k \<leftarrow> schedule sc k;
              Some (Asleep, s\<lparr>kern := k\<rparr>)
            } else Some (Returned (- E_BAD_PROC) None, s)
      })"

text \<open>What \<^verbatim>\<open>do_wait\<close> does when \<^verbatim>\<open>schedule\<close> returns to it.\<close>

definition do_wait_resume :: "sched_class \<Rightarrow> int \<Rightarrow> 'w os \<Rightarrow> (wait_result \<times> 'w os) option" where
  "do_wait_resume sc n s =
     (if pflags (procs (kern s) (current (kern s))) AND PF_EXITING \<noteq> 0
      then do { s \<leftarrow> do_exit sc (- E_KILLED) s; Some (Asleep, s) }
      else do_wait sc True n s)"

definition do_kill :: "sched_class \<Rightarrow> int \<Rightarrow> 'w os \<Rightarrow> (int \<times> 'w os) option" where
  "do_kill sc n s = do {
     r \<leftarrow> find_proc n (kern s);
     case r of
       None \<Rightarrow> Some (- E_INVAL, s)
     | Some p \<Rightarrow>
         if pflags (procs (kern s) p) AND PF_EXITING = 0 then do {
           let k = upd_proc p (\<lambda>x. x\<lparr>pflags := pflags x OR PF_EXITING\<rparr>) (kern s);
           k \<leftarrow> (if wait_state (procs k p) AND WT_INTERRUPTED \<noteq> 0 then wakeup_proc sc p k else Some k);
           Some (0, s\<lparr>kern := k\<rparr>)
         } else Some (- E_KILLED, s)
   }"

definition lab6_set_priority :: "32 word \<Rightarrow> 'w os \<Rightarrow> 'w os" where
  "lab6_set_priority priority s =
     on_kern (upd_proc (current (kern s)) (\<lambda>x. x\<lparr>lab6_priority := if priority = 0 then 1 else priority\<rparr>)) s"

definition set_proc_name :: "nat \<Rightarrow> string \<Rightarrow> 'w os \<Rightarrow> 'w os" where
  "set_proc_name p name s = on_kern (upd_proc p (\<lambda>x. x\<lparr>pname := take 15 name\<rparr>)) s"

definition kernel_thread :: "sched_class \<Rightarrow> fork_env \<Rightarrow> 32 word \<Rightarrow> 'w os \<Rightarrow> (int \<times> 'w os) option" where
  "kernel_thread sc env clone_flags s = do_fork sc env (clone_flags OR CLONE_VM) s"

definition init_hash_list :: "kernel \<Rightarrow> kernel" where
  "init_hash_list k = fold (\<lambda>i. upd_klinks (list_init (HashList i))) [0..<1024] k"

definition proc_init :: "sched_class \<Rightarrow> nat option \<Rightarrow> nat \<Rightarrow> nat option \<Rightarrow> fork_env \<Rightarrow> 'w os \<Rightarrow> 'w os option" where
  "proc_init sc idle_mem bootstack idle_files env s = do {
     let s = on_kern (upd_klinks (list_init ProcList)) s;
     let s = on_kern init_hash_list s;
     let (r, s) = alloc_proc idle_mem s;
     p \<leftarrow> r;
     let s = on_kern (\<lambda>k. k\<lparr>idleproc := p\<rparr>) s;
     let s = on_kern (upd_proc p (\<lambda>x. x\<lparr>pid := 0, state := PROC_RUNNABLE, kstack := bootstack, need_resched := True\<rparr>)) s;
     let (r, ft) = files_create FILES_STRUCT_NENTRY idle_files (ftab s);
     f \<leftarrow> r;
     let s = (acquire (FilesMem f) s)\<lparr>ftab := ft\<rparr>;
     let s = on_kern (upd_proc p (\<lambda>x. x\<lparr>filesp := Some f\<rparr>)) s;
     let s = s\<lparr>ftab := files_count_inc f (ftab s)\<rparr>;
     let s = set_proc_name p ''idle'' s;
     let s = on_kern (\<lambda>k. k\<lparr>nr_process := nr_process k + 1, current := p\<rparr>) s;
     (n, s) \<leftarrow> kernel_thread sc env 0 s;
     massert (0 < n);
     r \<leftarrow> find_proc n (kern s);
     q \<leftarrow> r;
     let s = on_kern (\<lambda>k. k\<lparr>initproc := q\<rparr>) s;
     let s = set_proc_name q ''init'' s;
     massert (pid (procs (kern s) p) = 0);
     massert (pid (procs (kern s) q) = 1);
     Some s
   }"

subsection \<open>Setting up a new process\<close>

text \<open>\<open>quiet p k k'\<close>: nothing has changed but the process \<open>p\<close> that is being built and is on no list yet (its record, its
  list entries, its entry of the run pool), and perhaps the \<^verbatim>\<open>wait_state\<close> of the running process, which is 0.\<close>

definition quiet :: "nat \<Rightarrow> kernel \<Rightarrow> kernel \<Rightarrow> bool" where
  "quiet p k k' \<longleftrightarrow>
     (\<forall>x. x \<noteq> p \<longrightarrow> procs k' x = procs k x \<or> x = current k \<and> procs k' x = (procs k x)\<lparr>wait_state := 0\<rparr>) \<and>
     same_on (- {ListLink p, HashLink p}) (links k) (links k') \<and>
     (\<forall>x. x \<noteq> p \<longrightarrow> sleft (pool k') x = sleft (pool k) x \<and> sright (pool k') x = sright (pool k) x \<and>
        sparent (pool k') x = sparent (pool k) x) \<and>
     proc_num k' = proc_num k \<and> max_time_slice k' = max_time_slice k \<and> lab6_run_pool k' = lab6_run_pool k \<and>
     timers k' = timers k \<and> waits k' = waits k \<and> sem_value k' = sem_value k \<and> current k' = current k \<and>
     idleproc k' = idleproc k \<and> initproc k' = initproc k \<and> satp k' = satp k \<and>
     nr_process k' = nr_process k \<and> last_pid k' = last_pid k \<and> next_safe k' = next_safe k"

lemma quiet_refl [simp]: "quiet p k k"
  by (simp add: quiet_def)

lemma quiet_proc:
  assumes "quiet p k k'" "x \<noteq> p"
  shows "procs k' x = procs k x \<or> x = current k \<and> procs k' x = (procs k x)\<lparr>wait_state := 0\<rparr>"
  using assms by (simp add: quiet_def)

lemma quietD:
  assumes "quiet p k k'"
  shows "\<forall>x. x \<noteq> p \<longrightarrow> same_family k k' x \<and> pid (procs k' x) = pid (procs k x) \<and>
        state (procs k' x) = state (procs k x) \<and> rq (procs k' x) = rq (procs k x) \<and>
        mm (procs k' x) = mm (procs k x) \<and> filesp (procs k' x) = filesp (procs k x)"
    "same_on (- {ListLink p, HashLink p}) (links k) (links k')"
    "proc_num k' = proc_num k" "max_time_slice k' = max_time_slice k"
    "nr_process k' = nr_process k" "last_pid k' = last_pid k" "next_safe k' = next_safe k"
    "current k' = current k" "idleproc k' = idleproc k" "initproc k' = initproc k"
proof -
  show "\<forall>x. x \<noteq> p \<longrightarrow> same_family k k' x \<and> pid (procs k' x) = pid (procs k x) \<and>
        state (procs k' x) = state (procs k x) \<and> rq (procs k' x) = rq (procs k x) \<and>
        mm (procs k' x) = mm (procs k x) \<and> filesp (procs k' x) = filesp (procs k x)"
  proof (intro allI impI)
    fix x assume "x \<noteq> p"
    from quiet_proc [OF assms this] show "same_family k k' x \<and> pid (procs k' x) = pid (procs k x) \<and>
        state (procs k' x) = state (procs k x) \<and> rq (procs k' x) = rq (procs k x) \<and>
        mm (procs k' x) = mm (procs k x) \<and> filesp (procs k' x) = filesp (procs k x)"
      by (auto simp: same_family_def)
  qed
qed (use assms in \<open>simp_all add: quiet_def\<close>)

lemma quiet_trans:
  assumes "quiet p k k'" "quiet p k' k''"
  shows "quiet p k k''"
proof -
  have "procs k'' x = procs k x \<or> x = current k \<and> procs k'' x = (procs k x)\<lparr>wait_state := 0\<rparr>" if "x \<noteq> p" for x
    using quiet_proc [OF assms(1) that] quiet_proc [OF assms(2) that] quietD(8) [OF assms(1)] by auto
  then show ?thesis using assms same_on_trans unfolding quiet_def by auto
qed

lemma quiet_upd [simp]: "quiet p k (upd_proc p f k') = quiet p k k'"
  by (auto simp: quiet_def)

lemma quiet_wait: "quiet p k (upd_proc (current k) (\<lambda>x. x\<lparr>wait_state := 0\<rparr>) k)"
  by (simp add: quiet_def)

lemma quiet_table:
  assumes "quiet p k k'" "proc_table k ps" "p \<notin> set (idleproc k # ps)"
  shows "proc_table k' ps"
proof (rule proc_table_local [OF assms(2)])
  note q = quietD [OF assms(1)]
  show "same_on (table_nodes ps) (links k) (links k')"
    using q(2) assms(3) by (auto simp: table_nodes_def elim!: same_on_mono [of "- {ListLink p, HashLink p}"])
  show "same_family k k' x \<and> pid (procs k' x) = pid (procs k x)" if "x \<in> set (idleproc k # ps)" for x
    using q(1) assms(3) that by auto
qed (simp_all add: quietD [OF assms(1)])

lemma quiet_ready:
  assumes "quiet p k k'" "RR_ready k A" "p \<notin> A"
  shows "RR_ready k' A"
proof -
  note qd = quietD [OF assms(1)]
  obtain q where q: "rr_queue k q" "set q = A" using assms(2) by (auto simp: RR_ready_def)
  have "dll (links k) RunList (map RunLink q)" using q(1) by (simp add: rr_queue_def)
  then have "dll (links k') RunList (map RunLink q)" by (rule dll_keep [OF _ qd(2)]) auto
  moreover have "detached (links k') (RunLink x) = detached (links k) (RunLink x)" for x
    by (rule detached_same_on [OF qd(2)]) simp
  moreover have "\<forall>x\<in>set q. rq (procs k' x)" using q assms(3) qd(1) by (auto simp: rr_queue_def)
  ultimately have "rr_queue k' q" using q(1) qd by (simp add: rr_queue_def)
  then show ?thesis using q(2) by (auto simp: RR_ready_def)
qed

lemma quiet_sched:
  assumes "quiet p k k'" "sched_inv RR_ready k" "state (procs k p) \<noteq> PROC_RUNNABLE" "state (procs k' p) \<noteq> PROC_RUNNABLE"
  shows "sched_inv RR_ready k'"
proof -
  note qd = quietD [OF assms(1)]
  have "(state (procs k' x) = PROC_RUNNABLE) = (state (procs k x) = PROC_RUNNABLE)" for x
    using assms(3,4) qd(1) by (cases "x = p") auto
  then have "waiting_to_run k' = waiting_to_run k" using qd by (auto simp: waiting_to_run_def)
  moreover have "p \<notin> waiting_to_run k" using assms(3) by (simp add: waiting_to_run_def)
  ultimately show ?thesis using quiet_ready [OF assms(1)] assms(2) by (simp add: sched_inv_def)
qed

definition newborn :: "kernel \<Rightarrow> nat \<Rightarrow> bool" where
  "newborn k p \<longleftrightarrow> state (procs k p) = PROC_UNINIT \<and> cptr (procs k p) = None \<and> parent (procs k p) = Some (current k) \<and>
     p \<noteq> current k"

lemma list_init_detached: "detached h x \<Longrightarrow> list_init x h = h"
  by (cases h) (auto simp: detached_def list_init_def set_next_def set_prev_def fun_upd_idem)

lemma on_kern_sel [simp]:
  "kern (on_kern f s) = f (kern s)" "held (on_kern f s) = held s" "mm_count (on_kern f s) = mm_count s"
  "mm_pgdir (on_kern f s) = mm_pgdir s" "ftab (on_kern f s) = ftab s"
  "boot_pgdir_pa (on_kern f s) = boot_pgdir_pa s"
  by (simp_all add: on_kern_def)

lemma acquire_sel [simp]:
  "kern (acquire r s) = kern s" "held (acquire r s) = insert r (held s)" "mm_count (acquire r s) = mm_count s"
  "mm_pgdir (acquire r s) = mm_pgdir s" "ftab (acquire r s) = ftab s"
  "boot_pgdir_pa (acquire r s) = boot_pgdir_pa s"
  by (simp_all add: acquire_def)

lemma release_sel [simp]:
  "kern (release r s) = kern s" "held (release r s) = held s - {r}" "mm_count (release r s) = mm_count s"
  "mm_pgdir (release r s) = mm_pgdir s" "ftab (release r s) = ftab s"
  "boot_pgdir_pa (release r s) = boot_pgdir_pa s"
  by (simp_all add: release_def)

lemma alloc_proc_ok:
  assumes "sched_inv RR_ready (kern s)" "state (procs (kern s) p) \<noteq> PROC_RUNNABLE"
  shows "\<exists>s'. alloc_proc (Some p) s = (Some p, s') \<and> quiet p (kern s) (kern s') \<and>
    procs (kern s') p = blank_proc (boot_pgdir_pa s) \<and> held s' = insert (ProcMem p) (held s) \<and>
    mm_count s' = mm_count s \<and> mm_pgdir s' = mm_pgdir s \<and> ftab s' = ftab s"
proof -
  let ?L = "list_init (HashLink p) (list_init (ListLink p) (links (kern s)))"
  have "p \<notin> waiting_to_run (kern s)" using assms(2) by (simp add: waiting_to_run_def)
  then have "detached (links (kern s)) (RunLink p)"
    using assms(1) by (auto simp: sched_inv_def RR_ready_def rr_queue_def)
  then have "detached ?L (RunLink p)" by (simp add: detached_def list_init_def)
  then have L: "list_init (RunLink p) ?L = ?L" by (rule list_init_detached)
  have "same_on (- {ListLink p, HashLink p}) (links (kern s)) ?L" by (auto simp: same_on_def list_init_def)
  then show ?thesis by (simp add: alloc_proc_def quiet_def L init_pool_def)
qed

text \<open>The objects, their counts and the file tables are as before.\<close>

definition same_counts :: "'w os \<Rightarrow> 'w os \<Rightarrow> bool" where
  "same_counts s s' \<longleftrightarrow> held s' = held s \<and>
     (\<forall>m. MmMem m \<in> held s \<longrightarrow> mm_count s' m = mm_count s m \<and> mm_pgdir s' m = mm_pgdir s m) \<and> ftab s' = ftab s"

lemma same_counts_refl [simp]: "same_counts s s"
  by (simp add: same_counts_def)

definition live_tables :: "'w os \<Rightarrow> nat set" where
  "live_tables s = {f. FilesMem f \<in> held s}"

text \<open>The address space \<open>x\<close> of the child: none, the parent's with one more reference, or a new one with one reference.\<close>

definition child_mm :: "fork_env \<Rightarrow> 32 word \<Rightarrow> 'w os \<Rightarrow> nat option \<Rightarrow> 'w os \<Rightarrow> bool" where
  "child_mm env fl s x s' \<longleftrightarrow>
     (case mm (procs (kern s) (current (kern s))) of
        None \<Rightarrow> x = None \<and> mm_count s' = mm_count s
      | Some m \<Rightarrow>
          if fl AND CLONE_VM \<noteq> 0 then x = Some m \<and> mm_count s' = (mm_count s)(m := mm_count s m + 1)
          else x = e_mm env \<and> (\<exists>m'. e_mm env = Some m' \<and> mm_count s' = (mm_count s)(m' := 1)))"

text \<open>What \<^verbatim>\<open>copy_mm\<close> leaves: on an error everything is as before, otherwise \<open>undo_mm\<close> (the code at the
  label \<^verbatim>\<open>bad_fork_cleanup_fs\<close>) can take it back.\<close>

definition copied :: "fork_env \<Rightarrow> 32 word \<Rightarrow> nat \<Rightarrow> 'w os \<Rightarrow> int \<Rightarrow> 'w os \<Rightarrow> bool" where
  "copied env fl p s r s' \<longleftrightarrow> quiet p (kern s) (kern s') \<and> newborn (kern s') p \<and>
     kstack (procs (kern s') p) = kstack (procs (kern s) p) \<and> filesp (procs (kern s') p) = filesp (procs (kern s) p) \<and>
     ftab s' = ftab s \<and>
     (if r = 0 then held s \<subseteq> held s' \<and> live_tables s' = live_tables s \<and> child_mm env fl s (mm (procs (kern s') p)) s' \<and>
        (\<exists>s''. undo_mm p s' = Some s'' \<and> same_counts s s'' \<and>
          quiet p (kern s) (kern s'') \<and> newborn (kern s'') p \<and> kstack (procs (kern s'') p) = kstack (procs (kern s) p))
      else r < 0 \<and> same_counts s s')"

lemma copy_mm_ok:
  assumes nb: "newborn (kern s) p" "mm (procs (kern s) p) = None"
    and cur: "\<And>m. mm (procs (kern s) (current (kern s))) = Some m \<Longrightarrow> MmMem m \<in> held s \<and> 0 < mm_count s m"
    and fresh: "\<And>m. e_mm env = Some m \<Longrightarrow> MmMem m \<notin> held s \<and> Mapping m \<notin> held s"
      "\<And>d. e_pgdir env = Some d \<Longrightarrow> PgDir d \<notin> held s" "e_dup_mmap env \<le> 0"
  shows "\<exists>r s'. copy_mm env fl p s = Some (r, s') \<and> copied env fl p s r s'"
proof (cases "mm (procs (kern s) (current (kern s)))")
  case None
  then show ?thesis using nb by (simp add: copy_mm_def copied_def undo_mm_def child_mm_def)
next
  case (Some old)
  note c = cur [OF Some]
  let ?good = "\<lambda>m s. on_kern (upd_proc p (\<lambda>x. x\<lparr>mm := Some m, pgdir := mm_pgdir s m\<rparr>)) (mm_count_inc m s)"
  show ?thesis
  proof (cases "fl AND CLONE_VM \<noteq> 0")
    case True
    then have "copy_mm env fl p s = Some (0, ?good old s)" using Some by (simp add: copy_mm_def)
    moreover have "copied env fl p s 0 (?good old s)"
      using nb c Some True by (simp add: copied_def undo_mm_def put_mm_def mm_count_inc_def newborn_def same_counts_def
          live_tables_def child_mm_def Let_def)
    ultimately show ?thesis by blast
  next
    case False
    show ?thesis
    proof (cases "e_mm env")
      case None
      then have "copy_mm env fl p s = Some (- E_NO_MEM, s)" using Some False by (simp add: copy_mm_def)
      then show ?thesis using nb by (fastforce simp: copied_def)
    next
      case m: (Some m)
      note fm = fresh(1) [OF m]
      show ?thesis
      proof (cases "e_pgdir env")
        case None
        let ?s = "release (MmMem m) ((acquire (MmMem m) s)\<lparr>mm_count := (mm_count s)(m := 0)\<rparr>)"
        have "copy_mm env fl p s = Some (- E_NO_MEM, ?s)"
          using Some False m None by (simp add: copy_mm_def setup_pgdir_def mm_destroy_def)
        moreover have "copied env fl p s (- E_NO_MEM) ?s"
          using nb fm by (auto simp: copied_def same_counts_def)
        ultimately show ?thesis by blast
      next
        case d: (Some d)
        note fd = fresh(2) [OF d]
        let ?s = "acquire (Mapping m) ((acquire (PgDir d) ((acquire (MmMem m) s)\<lparr>mm_count := (mm_count s)(m := 0)\<rparr>))
          \<lparr>mm_pgdir := (mm_pgdir s)(m := d)\<rparr>)"
        show ?thesis
        proof (cases "e_dup_mmap env = 0")
          case True
          then have "copy_mm env fl p s = Some (0, ?good m ?s)"
            using Some False m d by (simp add: copy_mm_def setup_pgdir_def)
          moreover have "copied env fl p s 0 (?good m ?s)"
            using nb fm fd Some False m by (auto simp: copied_def undo_mm_def put_mm_def mm_count_inc_def newborn_def same_counts_def
                live_tables_def child_mm_def Let_def mm_destroy_def put_pgdir_def)
          ultimately show ?thesis by blast
        next
          case err: False
          let ?r = "release (MmMem m) (put_pgdir m (release (Mapping m) ?s))"
          have "copy_mm env fl p s = Some (e_dup_mmap env, ?r)"
            using Some False m d err by (simp add: copy_mm_def setup_pgdir_def mm_destroy_def put_pgdir_def)
          moreover have "copied env fl p s (e_dup_mmap env) ?r"
            using nb fm fd err fresh(3) by (auto simp: copied_def same_counts_def put_pgdir_def)
          ultimately show ?thesis by blast
        qed
      qed
    qed
  qed
qed

text \<open>What \<^verbatim>\<open>do_fork\<close> relies on: the allocators return memory that is not in use.\<close>

definition env_fresh :: "fork_env \<Rightarrow> 'w os \<Rightarrow> nat list \<Rightarrow> bool" where
  "env_fresh env s ps \<longleftrightarrow>
     (\<forall>p. e_proc env = Some p \<longrightarrow> ProcMem p \<notin> held s \<and> p \<notin> set (idleproc (kern s) # ps) \<and>
        state (procs (kern s) p) \<noteq> PROC_RUNNABLE) \<and>
     (\<forall>v. e_kstack env = Some v \<longrightarrow> KStack v \<notin> held s) \<and>
     (\<forall>m. e_mm env = Some m \<longrightarrow> MmMem m \<notin> held s \<and> Mapping m \<notin> held s) \<and>
     (\<forall>d. e_pgdir env = Some d \<longrightarrow> PgDir d \<notin> held s) \<and>
     (\<forall>f. e_files env = Some f \<longrightarrow> FilesMem f \<notin> held s) \<and> e_dup_mmap env \<le> 0"

text \<open>The live file tables and the inode counts agree (\<open>tables_ok\<close>), and the memory of a table has room for all slots.\<close>

definition files_ok :: "'w os \<Rightarrow> bool" where
  "files_ok s \<longleftrightarrow> tables_ok (live_tables s) (ftab s) \<and> (\<forall>t. nentry t (ftab s) = FILES_STRUCT_NENTRY)"

lemma files_ok_cong: "ftab s' = ftab s \<Longrightarrow> live_tables s' = live_tables s \<Longrightarrow> files_ok s' = files_ok s"
  by (simp add: files_ok_def)

lemma files_ok_kern [simp]: "files_ok (s\<lparr>kern := k\<rparr>) = files_ok s" "files_ok (on_kern f s) = files_ok s"
  by (simp_all add: files_ok_def live_tables_def on_kern_def)

definition os_inv :: "'w os \<Rightarrow> nat list \<Rightarrow> bool" where
  "os_inv s ps \<longleftrightarrow> proc_table (kern s) ps \<and> sched_inv RR_ready (kern s) \<and>
     current (kern s) \<in> set (idleproc (kern s) # ps) \<and> files_ok s"

text \<open>The running process has its files and its address space.\<close>

definition current_ok :: "'w os \<Rightarrow> bool" where
  "current_ok s \<longleftrightarrow>
     (let c = procs (kern s) (current (kern s)) in
      (\<exists>f. filesp c = Some f \<and> FilesMem f \<in> held s \<and> 0 < files_count (filess (ftab s) f)) \<and>
      (\<forall>m. mm c = Some m \<longrightarrow> MmMem m \<in> held s \<and> 0 < mm_count s m))"

text \<open>The file table \<open>g\<close> of the child: the parent's table \<open>old\<close> with one more reference, or a new table with one reference
  that is a copy of it.\<close>

definition child_files :: "fork_env \<Rightarrow> 32 word \<Rightarrow> 'w os \<Rightarrow> nat \<Rightarrow> nat \<Rightarrow> 'w os \<Rightarrow> bool" where
  "child_files env fl s old g s' \<longleftrightarrow>
     (if fl AND CLONE_FS \<noteq> 0 then g = old \<and> ftab s' = files_count_inc old (ftab s)
      else e_files env = Some g \<and> files_count (filess (ftab s') g) = 1 \<and>
        pwd (filess (ftab s') g) = pwd (filess (ftab s) old) \<and>
        (\<forall>i<FILES_STRUCT_NENTRY. slot_copied (ftab s) old (slot g i (ftab s')) i) \<and>
        (\<forall>u. u \<noteq> g \<longrightarrow> filess (ftab s') u = filess (ftab s) u))"

lemma copy_files_ok:
  assumes old: "filesp (procs (kern s) (current (kern s))) = Some old" "0 < files_count (filess (ftab s) old)" "FilesMem old \<in> held s"
    and nb: "newborn (kern s) p" and ok: "files_ok s" and fresh: "\<And>f. e_files env = Some f \<Longrightarrow> FilesMem f \<notin> held s"
  shows "copy_files env fl p s = Some (- E_NO_MEM, s) \<or>
    (\<exists>s' g. copy_files env fl p s = Some (0, s') \<and> kern s' = upd_proc p (\<lambda>x. x\<lparr>filesp := Some g\<rparr>) (kern s) \<and>
      child_files env fl s old g s' \<and> files_ok s' \<and> held s \<subseteq> held s' \<and> mm_count s' = mm_count s)"
proof (cases "fl AND CLONE_FS = 0")
  case False
  then show ?thesis using old ok by (simp add: copy_files_def child_files_def files_ok_def live_tables_def)
next
  case True
  show ?thesis
  proof (cases "e_files env")
    case None
    then show ?thesis using True old by (simp add: copy_files_def files_create_def)
  next
    case (Some f)
    have live: "old \<in> live_tables s" "f \<notin> live_tables s" using old(3) fresh [OF Some] by (simp_all add: live_tables_def)
    have ok': "tables_ok (live_tables s) (ftab s)" "nentry f (ftab s) = FILES_STRUCT_NENTRY" "nentry old (ftab s) = FILES_STRUCT_NENTRY"
      using ok by (simp_all add: files_ok_def)
    obtain s1 s2 where c: "files_create FILES_STRUCT_NENTRY (Some f) (ftab s) = (Some f, s1)" "dup_files f old s1 = Some s2"
      "tables_ok (insert f (live_tables s)) s2" "files_count (filess s2 f) = 0" "pwd (filess s2 f) = pwd (filess (ftab s) old)"
      "\<forall>u. u \<noteq> f \<longrightarrow> filess s2 u = filess (ftab s) u" "nentry f s2 = FILES_STRUCT_NENTRY"
      "\<forall>i<FILES_STRUCT_NENTRY. slot_copied (ftab s) old (slot f i s2) i"
      by (rule create_dup_ok [OF ok'(1) live(1) old(2) live(2) ok'(2,3)])
    let ?s' = "on_kern (upd_proc p (\<lambda>x. x\<lparr>filesp := Some f\<rparr>)) ((acquire (FilesMem f) s)\<lparr>ftab := files_count_inc f s2\<rparr>)"
    have cf: "copy_files env fl p s = Some (0, ?s')"
      using True Some old(1) c(1,2) by (simp add: copy_files_def acquire_def)
    have "nentry t s2 = FILES_STRUCT_NENTRY" for t
      using c(6,7) ok by (cases "t = f") (simp_all add: files_ok_def nentry_def)
    moreover have "live_tables ?s' = insert f (live_tables s)" by (auto simp: live_tables_def acquire_def on_kern_def)
    ultimately have "files_ok ?s'" using c(3) by (simp add: files_ok_def)
    moreover have "child_files env fl s old f ?s'" using True Some c by (simp add: child_files_def)
    ultimately show ?thesis using cf by auto
  qed
qed

lemma fork_enter:
  assumes "proc_table k ps" "sched_inv RR_ready k" "current k \<in> set (idleproc k # ps)" "nr_process k < MAX_PROCESS"
    and "p \<notin> set (idleproc k # ps)" "newborn k p"
  shows "\<exists>k1 k'. enter_table p k = Some k1 \<and> wakeup_proc default_sched_class p k1 = Some k' \<and>
    proc_table k' (p # ps) \<and> sched_inv RR_ready k' \<and> state (procs k' p) = PROC_RUNNABLE \<and>
    parent (procs k' p) = Some (current k) \<and> current k' = current k \<and> idleproc k' = idleproc k \<and>
    mm (procs k' p) = mm (procs k p) \<and> filesp (procs k' p) = filesp (procs k p) \<and> kstack (procs k' p) = kstack (procs k p)"
proof -
  obtain k1 where k1: "enter_table p k = Some k1" "proc_table k1 (p # ps)" "table_frame k k1"
    "\<forall>x. parent (procs k1 x) = parent (procs k x)"
    using enter_table_ok [OF assms(1) _ assms(5) _ assms(3)] assms(4,6) by (auto simp: newborn_def)
  note fr = k1(3) [unfolded table_frame_def]
  have "waiting_to_run k1 = waiting_to_run k" using fr by (simp add: waiting_to_run_def)
  then have "sched_inv RR_ready k1" using RR.ready_unseen [of k] fr assms(2) by (simp add: sched_inv_def)
  moreover have "state (procs k1 p) \<noteq> PROC_ZOMBIE" using fr assms(6) by (simp add: newborn_def)
  ultimately obtain k' where k': "wakeup_proc default_sched_class p k1 = Some k'" "sched_inv RR_ready k'"
    "state (procs k' p) = PROC_RUNNABLE" "wakeup_frame p k1 k'" using RR.wakeup_ok [of k1 p] by auto
  note wf = k'(4) [unfolded wakeup_frame_def]
  have "proc_table k' (p # ps)" using proc_table_cong [OF k1(2)] wf by blast
  moreover have "parent (procs k' p) = Some (current k)" "mm (procs k' p) = mm (procs k p)"
    "filesp (procs k' p) = filesp (procs k p)" "kstack (procs k' p) = kstack (procs k p)"
    using wf k1(4) fr assms(6) by (simp_all add: same_table_def newborn_def)
  ultimately show ?thesis using k1(1) k' wf fr by auto
qed

definition forked :: "'w os \<Rightarrow> nat list \<Rightarrow> fork_env \<Rightarrow> 32 word \<Rightarrow> int \<Rightarrow> 'w os \<Rightarrow> bool" where
  "forked s ps env fl r s' \<longleftrightarrow>
     (if r < 0
      then os_inv s' ps \<and> same_counts s s' \<and>
        (case e_proc env of None \<Rightarrow> kern s' = kern s | Some p \<Rightarrow> quiet p (kern s) (kern s'))
      else \<exists>p old g. e_proc env = Some p \<and> 0 < r \<and> os_inv s' (p # ps) \<and> find_proc r (kern s') = Some (Some p) \<and>
        state (procs (kern s') p) = PROC_RUNNABLE \<and> parent (procs (kern s') p) = Some (current (kern s)) \<and>
        e_kstack env = Some (kstack (procs (kern s') p)) \<and> child_mm env fl s (mm (procs (kern s') p)) s' \<and>
        filesp (procs (kern s) (current (kern s))) = Some old \<and> filesp (procs (kern s') p) = Some g \<and>
        child_files env fl s old g s') \<and>
     current (kern s') = current (kern s)"

lemma forked_fail:
  assumes "os_inv s ps" "p \<notin> set (idleproc (kern s) # ps)" "state (procs (kern s) p) \<noteq> PROC_RUNNABLE" "e_proc env = Some p"
    and "quiet p (kern s) (kern s')" "newborn (kern s') p" "same_counts s s'" "r < 0"
  shows "forked s ps env fl r s'"
proof -
  have "files_ok s' = files_ok s" by (rule files_ok_cong) (use assms(7) in \<open>simp_all add: same_counts_def live_tables_def\<close>)
  then show ?thesis
    using assms quiet_table [OF assms(5)] quiet_sched [OF assms(5)] quietD [OF assms(5)]
    by (auto simp: forked_def os_inv_def newborn_def)
qed

lemma forked_ok:
  assumes "os_inv s ps" "p \<notin> set (idleproc (kern s) # ps)" "state (procs (kern s) p) \<noteq> PROC_RUNNABLE"
    and q: "quiet p (kern s) (kern u)" and "newborn (kern u) p" "nr_process (kern s) < MAX_PROCESS" "e_proc env = Some p"
    and res: "files_ok u" "e_kstack env = Some (kstack (procs (kern u) p))" "child_mm env fl s (mm (procs (kern u) p)) u"
      "filesp (procs (kern s) (current (kern s))) = Some old" "filesp (procs (kern u) p) = Some g" "child_files env fl s old g u"
  shows "\<exists>k1 k'. enter_table p (kern u) = Some k1 \<and> wakeup_proc default_sched_class p k1 = Some k' \<and>
    forked s ps env fl (pid (procs k' p)) (u\<lparr>kern := k'\<rparr>)"
proof -
  note qd = quietD [OF q]
  obtain k1 k' where k': "enter_table p (kern u) = Some k1" "wakeup_proc default_sched_class p k1 = Some k'"
    "proc_table k' (p # ps)" "sched_inv RR_ready k'" "state (procs k' p) = PROC_RUNNABLE"
    "parent (procs k' p) = Some (current (kern u))" "current k' = current (kern u)" "idleproc k' = idleproc (kern u)"
    "mm (procs k' p) = mm (procs (kern u) p)" "filesp (procs k' p) = filesp (procs (kern u) p)"
    "kstack (procs k' p) = kstack (procs (kern u) p)"
    using fork_enter [of "kern u" ps p] quiet_table [OF q] quiet_sched [OF q] assms(1-7) qd
    by (auto simp: os_inv_def newborn_def)
  have "0 < pid (procs k' p)" using k'(3) by (simp add: proc_table_def)
  moreover have "child_mm env fl s x (u\<lparr>kern := k'\<rparr>) = child_mm env fl s x u" for x by (simp add: child_mm_def split: option.split)
  moreover have "child_files env fl s old g (u\<lparr>kern := k'\<rparr>) = child_files env fl s old g u" by (simp add: child_files_def)
  moreover have "find_proc (pid (procs k' p)) k' = Some (Some p)" using find_proc_iff [OF k'(3), of p] by simp
  moreover have "os_inv (u\<lparr>kern := k'\<rparr>) (p # ps)" using k' assms(1) qd res(1) by (auto simp: os_inv_def)
  ultimately have "forked s ps env fl (pid (procs k' p)) (u\<lparr>kern := k'\<rparr>)"
    using k'(5-11) assms(7) res qd(8) by (simp add: forked_def)
  then show ?thesis using k'(1,2) by blast
qed

text \<open>A process under construction: what has been allocated for it on top of the state \<open>s\<close>.\<close>

definition building :: "'w os \<Rightarrow> nat list \<Rightarrow> fork_env \<Rightarrow> nat \<Rightarrow> nat \<Rightarrow> 'w os \<Rightarrow> bool" where
  "building s ps env p v t \<longleftrightarrow> os_inv s ps \<and> env_fresh env s ps \<and> e_proc env = Some p \<and> e_kstack env = Some v \<and>
     nr_process (kern s) < MAX_PROCESS \<and> quiet p (kern s) (kern t) \<and> newborn (kern t) p \<and>
     held t = insert (KStack v) (insert (ProcMem p) (held s)) \<and> mm_count t = mm_count s \<and> mm_pgdir t = mm_pgdir s \<and>
     ftab t = ftab s \<and> kstack (procs (kern t) p) = v \<and> mm (procs (kern t) p) = None \<and>
     filesp (procs (kern t) p) = None"

lemma building_fail:
  assumes "building s ps env p v t" "same_counts t t'" "kstack (procs (kern t') p) = v"
    and "quiet p (kern t) (kern t')" "newborn (kern t') p" "r < 0"
  shows "forked s ps env fl r (release (ProcMem p) (put_kstack p t'))"
proof -
  note b = assms(1) [unfolded building_def env_fresh_def]
  have "same_counts s (release (ProcMem p) (put_kstack p t'))"
    using b assms(2,3) by (auto simp: same_counts_def put_kstack_def)
  moreover have "quiet p (kern s) (kern t')" using b quiet_trans [OF _ assms(4)] by blast
  ultimately show ?thesis
    using forked_fail [of s ps p env "release (ProcMem p) (put_kstack p t')" r fl] b assms(5,6)
    by (auto simp: put_kstack_def)
qed

lemma building_current:
  assumes "building s ps env p v t"
  shows "current (kern t) = current (kern s)" "current (kern s) \<noteq> p" "p \<notin> set (idleproc (kern s) # ps)"
    "state (procs (kern s) p) \<noteq> PROC_RUNNABLE" "live_tables t = live_tables s"
    "mm (procs (kern t) (current (kern s))) = mm (procs (kern s) (current (kern s)))"
    "filesp (procs (kern t) (current (kern s))) = filesp (procs (kern s) (current (kern s)))"
proof -
  note b = assms [unfolded building_def env_fresh_def os_inv_def]
  have q: "quiet p (kern s) (kern t)" using b by blast
  show p: "p \<notin> set (idleproc (kern s) # ps)" "state (procs (kern s) p) \<noteq> PROC_RUNNABLE" using b by auto
  show c: "current (kern t) = current (kern s)" "current (kern s) \<noteq> p" using p b quietD(8) [OF q] by auto
  show "live_tables t = live_tables s" using b by (auto simp: live_tables_def)
  show "mm (procs (kern t) (current (kern s))) = mm (procs (kern s) (current (kern s)))"
    "filesp (procs (kern t) (current (kern s))) = filesp (procs (kern s) (current (kern s)))"
    using quietD(1) [OF q] c(2) by auto
qed

lemma fork_files_ok:
  assumes b: "building s ps env p v t" and c: "current_ok s" and cp: "copied env fl p t 0 t'"
  shows "\<exists>r s'. fork_files default_sched_class env fl p t' = Some (r, s') \<and> forked s ps env fl r s'"
proof -
  note bd = b [unfolded building_def] and cd = cp [unfolded copied_def] and bc = building_current [OF b]
  have qt: "quiet p (kern t) (kern t')" and q: "quiet p (kern s) (kern t')" using bd cd quiet_trans by blast+
  have cur: "current (kern t') = current (kern s)" using quietD(8) [OF q] .
  obtain f where f: "filesp (procs (kern s) (current (kern s))) = Some f" "FilesMem f \<in> held s" "0 < files_count (filess (ftab s) f)"
    using c by (auto simp: current_ok_def Let_def)
  have ft: "ftab t' = ftab s" "live_tables t' = live_tables s" "held s \<subseteq> held t'" using bd cd bc(5) by auto
  have fp: "filesp (procs (kern t') (current (kern t'))) = Some f" using quietD(1) [OF q] bc(2) f(1) cur by auto
  have okt: "files_ok t'" using files_ok_cong [OF ft(1,2)] bd by (simp add: os_inv_def)
  have fr: "FilesMem g \<notin> held t'" if "e_files env = Some g" for g
    using bd ft(2) that by (auto simp: env_fresh_def live_tables_def)
  have "copy_files env fl p t' = Some (- E_NO_MEM, t') \<or>
    (\<exists>u g. copy_files env fl p t' = Some (0, u) \<and> kern u = upd_proc p (\<lambda>x. x\<lparr>filesp := Some g\<rparr>) (kern t') \<and>
      child_files env fl t' f g u \<and> files_ok u \<and> held t' \<subseteq> held u \<and> mm_count u = mm_count t')"
    by (rule copy_files_ok [OF fp _ _ _ okt fr]) (use f ft cd in auto)
  then show ?thesis
  proof
    assume cf: "copy_files env fl p t' = Some (- E_NO_MEM, t')"
    obtain u where u: "undo_mm p t' = Some u" "same_counts t u" "quiet p (kern t) (kern u)" "newborn (kern u) p"
      "kstack (procs (kern u) p) = v" using cd bd by auto
    have "put_files p t' = Some t'" using cd bd by (simp add: put_files_def)
    then have "fork_files default_sched_class env fl p t' = Some (- E_NO_MEM, release (ProcMem p) (put_kstack p u))"
      using cf u(1) by (simp add: fork_files_def)
    then show ?thesis using building_fail [OF b u(2,5,3,4), of "- E_NO_MEM"] by auto
  next
    assume "\<exists>u g. copy_files env fl p t' = Some (0, u) \<and> kern u = upd_proc p (\<lambda>x. x\<lparr>filesp := Some g\<rparr>) (kern t') \<and>
      child_files env fl t' f g u \<and> files_ok u \<and> held t' \<subseteq> held u \<and> mm_count u = mm_count t'"
    then obtain u g where u: "copy_files env fl p t' = Some (0, u)" "kern u = upd_proc p (\<lambda>x. x\<lparr>filesp := Some g\<rparr>) (kern t')"
      "child_files env fl t' f g u" "files_ok u" "mm_count u = mm_count t'" by blast
    have qu: "quiet p (kern s) (kern u)" using q by (simp add: u(2))
    have nb: "newborn (kern u) p" using cd by (simp add: u(2) newborn_def)
    have cm: "child_mm env fl s (mm (procs (kern u) p)) u"
    proof -
      have "child_mm env fl t (mm (procs (kern t') p)) t'" "mm_count t = mm_count s" using cd bd by auto
      then show ?thesis using u(5) by (auto simp: child_mm_def bc(1,6) u(2) split: option.splits if_splits)
    qed
    have cf: "child_files env fl s f g u"
      using u(3) unfolding child_files_def ft(1) .
    have s: "os_inv s ps" "nr_process (kern s) < MAX_PROCESS" "e_proc env = Some p" "e_kstack env = Some (kstack (procs (kern u) p))"
      using bd cd by (auto simp: u(2))
    have "filesp (procs (kern u) p) = Some g" by (simp add: u(2))
    from forked_ok [OF s(1) bc(3,4) qu nb s(2,3) u(4) s(4) cm f(1) this cf] obtain k1 k' where
      k': "enter_table p (kern u) = Some k1" "wakeup_proc default_sched_class p k1 = Some k'"
      "forked s ps env fl (pid (procs k' p)) (u\<lparr>kern := k'\<rparr>)" by blast
    then have "fork_files default_sched_class env fl p t' = Some (pid (procs k' p), u\<lparr>kern := k'\<rparr>)"
      using u(1) by (simp add: fork_files_def)
    then show ?thesis using k'(3) by blast
  qed
qed

lemma fork_mm_ok:
  assumes b: "building s ps env p v t" and c: "current_ok s"
  shows "\<exists>r s'. fork_mm default_sched_class env fl p t = Some (r, s') \<and> forked s ps env fl r s'"
proof -
  note bd = b [unfolded building_def env_fresh_def os_inv_def] and bc = building_current [OF b]
  have "\<exists>r t'. copy_mm env fl p t = Some (r, t') \<and> copied env fl p t r t'"
    by (rule copy_mm_ok) (use bd bc c in \<open>auto simp: current_ok_def Let_def\<close>)
  then obtain r t' where t': "copy_mm env fl p t = Some (r, t')" "copied env fl p t r t'" by blast
  show ?thesis
  proof (cases "r = 0")
    case True
    then have "fork_mm default_sched_class env fl p t = fork_files default_sched_class env fl p t'"
      using t'(1) by (simp add: fork_mm_def)
    then show ?thesis using fork_files_ok [OF b c] t'(2) True by simp
  next
    case False
    note cd = t'(2) [unfolded copied_def]
    have "fork_mm default_sched_class env fl p t = Some (r, release (ProcMem p) (put_kstack p t'))"
      using t'(1) False by (simp add: fork_mm_def)
    moreover have "forked s ps env fl r (release (ProcMem p) (put_kstack p t'))"
      by (rule building_fail [OF b]) (use cd bd False in auto)
    ultimately show ?thesis by blast
  qed
qed

lemma do_fork_ok:
  assumes "os_inv s ps" "env_fresh env s ps" "current_ok s"
  shows "\<exists>r s'. do_fork default_sched_class env fl s = Some (r, s') \<and> forked s ps env fl r s'"
proof -
  consider "MAX_PROCESS \<le> nr_process (kern s)" | "nr_process (kern s) < MAX_PROCESS" "e_proc env = None" |
    p where "nr_process (kern s) < MAX_PROCESS" "e_proc env = Some p" by (cases "e_proc env") force+
  then show ?thesis
  proof cases
    case 1
    then show ?thesis using assms(1) by (auto simp: do_fork_def forked_def split: option.split)
  next
    case 2
    then show ?thesis using assms(1) by (auto simp: do_fork_def alloc_proc_def forked_def)
  next
    case (3 p)
    have p: "ProcMem p \<notin> held s" "p \<notin> set (idleproc (kern s) # ps)" "state (procs (kern s) p) \<noteq> PROC_RUNNABLE"
      using assms(2) 3(2) by (auto simp: env_fresh_def)
    obtain s1 where s1: "alloc_proc (Some p) s = (Some p, s1)" "quiet p (kern s) (kern s1)"
      "procs (kern s1) p = blank_proc (boot_pgdir_pa s)" "held s1 = insert (ProcMem p) (held s)"
      "mm_count s1 = mm_count s" "mm_pgdir s1 = mm_pgdir s" "ftab s1 = ftab s"
      using alloc_proc_ok [of s p] assms(1) p by (auto simp: os_inv_def)
    define s2 where "s2 = on_kern (upd_proc (current (kern s1)) (\<lambda>x. x\<lparr>wait_state := 0\<rparr>))
      (on_kern (upd_proc p (\<lambda>x. x\<lparr>parent := Some (current (kern s1))\<rparr>)) s1)"
    have cur: "current (kern s1) = current (kern s)" "current (kern s) \<noteq> p"
      using quietD(8) [OF s1(2)] p(2) assms(1) by (auto simp: os_inv_def)
    let ?k = "upd_proc p (\<lambda>x. x\<lparr>parent := Some (current (kern s1))\<rparr>) (kern s1)"
    have q1: "quiet p (kern s) ?k" using s1(2) by simp
    have "quiet p ?k (kern s2)" using quiet_wait [of p ?k] by (simp add: s2_def)
    then have q2: "quiet p (kern s) (kern s2)" by (rule quiet_trans [OF q1])
    have s2: "newborn (kern s2) p" "mm (procs (kern s2) p) = None" "filesp (procs (kern s2) p) = None"
      "held s2 = insert (ProcMem p) (held s)" "mm_count s2 = mm_count s" "mm_pgdir s2 = mm_pgdir s" "ftab s2 = ftab s"
      using s1 cur by (simp_all add: s2_def newborn_def blank_proc_def)
    show ?thesis
    proof (cases "e_kstack env")
      case None
      let ?s = "release (ProcMem p) s2"
      have "do_fork default_sched_class env fl s = Some (- E_NO_MEM, ?s)"
        using 3 s1(1) None by (simp add: do_fork_def setup_kstack_def s2_def Let_def)
      moreover have "same_counts s ?s" using s2 p(1) by (auto simp: same_counts_def)
      ultimately show ?thesis using forked_fail [OF assms(1) p(2,3) 3(2), of ?s "- E_NO_MEM" fl] q2 s2 by auto
    next
      case (Some v)
      define s3 where "s3 = acquire (KStack v) (on_kern (upd_proc p (\<lambda>x. x\<lparr>kstack := v\<rparr>)) s2)"
      have "quiet p (kern s) (kern s3)" using q2 by (simp add: s3_def)
      then have "building s ps env p v s3"
        using assms 3 Some s2 by (simp add: building_def s3_def newborn_def)
      moreover have "do_fork default_sched_class env fl s = fork_mm default_sched_class env fl p s3"
        using 3 s1(1) Some by (simp add: do_fork_def setup_kstack_def s2_def s3_def Let_def)
      ultimately show ?thesis using fork_mm_ok [of s ps env p v s3] assms(3) by simp
    qed
  qed
qed

subsection \<open>Handing over the children\<close>

fun older_chain :: "(nat \<Rightarrow> nat option) \<Rightarrow> nat option \<Rightarrow> nat list \<Rightarrow> bool" where
  "older_chain O' c [] \<longleftrightarrow> c = None"
| "older_chain O' c (x # xs) \<longleftrightarrow> c = Some x \<and> older_chain O' (O' x) xs"

lemma siblings_older_chain: "siblings Y O' y c xs \<Longrightarrow> older_chain O' c xs"
  by (induction xs arbitrary: y c) auto

lemma older_chain_cong: "older_chain O' c xs \<Longrightarrow> (\<And>x. x \<in> set xs \<Longrightarrow> O2 x = O' x) \<Longrightarrow> older_chain O2 c xs"
  by (induction xs arbitrary: c) auto

text \<open>During the loop the chain of the dying process \<open>c\<close> is right in one direction only: the code does
  not reset \<^verbatim>\<open>yptr\<close> of the next child before it is that child's turn.\<close>

definition family_upto :: "kernel \<Rightarrow> nat list \<Rightarrow> nat \<Rightarrow> nat list \<Rightarrow> bool" where
  "family_upto k ps c cs \<longleftrightarrow>
     (\<forall>q\<in>set (idleproc k # ps) - {c}. \<exists>ds. child_chain k q ds \<and> set ds = children k ps q) \<and>
     distinct cs \<and> older_chain (optrs k) (cptr (procs k c)) cs \<and> set cs = children k ps c \<and>
     (\<forall>p\<in>set ps. \<exists>q\<in>set (idleproc k # ps). parent (procs k p) = Some q)"

lemma family_upto_start:
  assumes "family_inv k ps" "c \<in> set ps"
  obtains cs where "family_upto k ps c cs"
proof -
  obtain cs where "child_chain k c cs" "set cs = children k ps c" using assms by (auto simp: family_inv_def)
  then have "family_upto k ps c cs"
    using assms(1) siblings_older_chain by (auto simp: family_upto_def child_chain_def family_inv_def)
  then show ?thesis using that by blast
qed

lemma family_upto_done: "family_upto k ps c [] \<Longrightarrow> family_inv k ps \<and> cptr (procs k c) = None"
  unfolding family_upto_def family_inv_def child_chain_def
  by (metis Diff_iff distinct.simps(1) older_chain.simps(1) siblings.simps(1) singletonD)

lemma set_younger_sel [simp]:
  "procs (set_younger c p k) x = (if c = Some x then (procs k x)\<lparr>yptr := Some p\<rparr> else procs k x)"
  "links (set_younger c p k) = links k" "current (set_younger c p k) = current k" "idleproc (set_younger c p k) = idleproc k"
  "initproc (set_younger c p k) = initproc k" "nr_process (set_younger c p k) = nr_process k"
  "last_pid (set_younger c p k) = last_pid k" "next_safe (set_younger c p k) = next_safe k"
  "pool (set_younger c p k) = pool k" "proc_num (set_younger c p k) = proc_num k"
  "lab6_run_pool (set_younger c p k) = lab6_run_pool k" "max_time_slice (set_younger c p k) = max_time_slice k"
  by (auto simp: set_younger_def split: option.split)

lemma adopt_child_sel:
  assumes "c = current k" "i = initproc k" "i \<noteq> c" "p \<noteq> c" "p \<noteq> i" "cptr (procs k i) \<noteq> Some p"
  shows "yptrs (adopt_child p k) = (case cptr (procs k i) of Some d \<Rightarrow> (yptrs k)(d := Some p) | None \<Rightarrow> yptrs k)(p := None)"
    "optrs (adopt_child p k) = (optrs k)(p := cptr (procs k i))"
    "cptr (procs (adopt_child p k) x) = (if x = i then Some p else if x = c then optr (procs k p) else cptr (procs k x))"
    "parent (procs (adopt_child p k) x) = (if x = p then Some i else parent (procs k x))"
  using assms by (auto simp: adopt_child_def Let_def fun_eq_iff split: option.splits)

lemma adopt_child_frame [simp]:
  "state (procs (adopt_child p k) x) = state (procs k x)" "wait_state (procs (adopt_child p k) x) = wait_state (procs k x)"
  "pid (procs (adopt_child p k) x) = pid (procs k x)" "exit_code (procs (adopt_child p k) x) = exit_code (procs k x)"
  "links (adopt_child p k) = links k" "current (adopt_child p k) = current k" "idleproc (adopt_child p k) = idleproc k"
  "initproc (adopt_child p k) = initproc k" "nr_process (adopt_child p k) = nr_process k"
  "last_pid (adopt_child p k) = last_pid k" "next_safe (adopt_child p k) = next_safe k"
  "unseen k (adopt_child p k)"
  by (simp_all add: adopt_child_def Let_def unseen_def)

lemma family_upto_step:
  assumes fam: "family_upto k ps c (p # cs)" and c: "c = current k" and i: "i = initproc k" "i \<in> set (idleproc k # ps)" "i \<noteq> c"
    and root: "p \<noteq> c" "p \<noteq> i"
  shows "family_upto (adopt_child p k) ps c cs"
proof -
  let ?k = "adopt_child p k"
  note f = fam [unfolded family_upto_def]
  have p: "p \<in> set ps" "parent (procs k p) = Some c" "p \<notin> set cs" using f by (auto simp: children_def)
  have "i \<in> set (idleproc k # ps) - {c}" using i by simp
  then obtain ds where ds: "child_chain k i ds" "set ds = children k ps i" using f by blast
  have pd: "p \<notin> set ds" using ds(2) p i(3) by (auto simp: children_def)
  then have ci: "cptr (procs k i) \<noteq> Some p" using child_chain_head [OF ds(1)] by blast
  note sel = adopt_child_sel [OF c i(1,3) root ci]
  have ch: "children ?k ps q = (if q = i then insert p (children k ps i) else if q = c then children k ps c - {p} else children k ps q)" for q
    using p i(3) by (auto simp: children_def sel(4))
  have "child_chain ?k i (p # ds)"
    using siblings_push [of "yptrs k" "optrs k" "cptr (procs k i)" ds p] ds(1) pd
    unfolding child_chain_def sel(1,2,3) by simp
  moreover have "set (p # ds) = children ?k ps i" using ds(2) ch by simp
  ultimately have "\<exists>es. child_chain ?k i es \<and> set es = children ?k ps i" by blast
  moreover have "\<exists>es. child_chain ?k q es \<and> set es = children ?k ps q"
    if q: "q \<in> set (idleproc k # ps)" "q \<noteq> c" "q \<noteq> i" for q
  proof -
    obtain es where es: "child_chain k q es" "set es = children k ps q"
      using f q by (metis DiffI singletonD)
    have "yptr (procs ?k y) = yptr (procs k y) \<and> optr (procs ?k y) = optr (procs k y)" if y: "y \<in> set es" for y
    proof -
      have "y \<noteq> p" using y es(2) p(2) q(2) by (auto simp: children_def)
      moreover have "cptr (procs k i) \<noteq> Some y"
        using child_chain_head [OF ds(1)] ds(2) y es(2) q(3) by (auto simp: children_def)
      ultimately show ?thesis using fun_cong [OF sel(1), of y] fun_cong [OF sel(2), of y] by (auto split: option.splits)
    qed
    then have "child_chain ?k q es" using q sel(3) by (intro child_chain_cong [OF es(1)]) auto
    then show ?thesis using es(2) ch q by auto
  qed
  moreover have "older_chain (optrs ?k) (cptr (procs ?k c)) cs"
    using f p(3) i(3) sel(2,3) by (auto intro: older_chain_cong [of "optrs k"])
  moreover have "set cs = children ?k ps c" using f ch i(3) by auto
  moreover have "\<forall>x\<in>set ps. \<exists>q\<in>set (idleproc k # ps). parent (procs ?k x) = Some q"
    using f i(2) by (auto simp: sel(4))
  moreover have "distinct cs" using f by simp
  ultimately show ?thesis unfolding family_upto_def adopt_child_frame by blast
qed

definition table_core :: "kernel \<Rightarrow> nat list \<Rightarrow> bool" where
  "table_core k ps \<longleftrightarrow>
     dll (links k) ProcList (map ListLink ps) \<and> idleproc k \<notin> set ps \<and> nr_process k = int (length ps) + 1 \<and>
     inj_on (\<lambda>p. pid (procs k p)) (set ps) \<and> (\<forall>p\<in>set ps. 0 < pid (procs k p) \<and> pid (procs k p) < MAX_PID) \<and>
     pid_inv k ps \<and> hash_inv k ps"

lemma proc_table_core: "proc_table k ps \<longleftrightarrow> table_core k ps \<and> family_inv k ps"
  by (auto simp: proc_table_def table_core_def)

lemma table_core_cong:
  assumes "table_core k ps" "same_on {x. \<not> is_run_node x} (links k) (links k')"
    and "\<And>x. pid (procs k' x) = pid (procs k x)" "nr_process k' = nr_process k" "last_pid k' = last_pid k"
    "next_safe k' = next_safe k" "idleproc k' = idleproc k"
  shows "table_core k' ps"
proof -
  have "dll (links k) ProcList (map ListLink ps)" using assms(1) by (simp add: table_core_def)
  then have "dll (links k') ProcList (map ListLink ps)" by (rule dll_keep [OF _ assms(2)]) auto
  moreover have "hash_inv k' ps"
    by (rule hash_inv_cong [OF _ assms(2)]) (use assms(1,3) in \<open>auto simp: table_core_def\<close>)
  ultimately show ?thesis using assms(1,3-7) by (simp add: table_core_def pid_inv_def pids_def)
qed

lemma family_upto_cong:
  "family_upto k ps c cs \<Longrightarrow> same_table k k' \<Longrightarrow> idleproc k' = idleproc k \<Longrightarrow> family_upto k' ps c cs"
  by (simp add: family_upto_def same_table_def child_chain_def children_def)

definition handover :: "nat \<Rightarrow> nat list \<Rightarrow> kernel \<Rightarrow> kernel \<Rightarrow> bool" where
  "handover i cs k k' \<longleftrightarrow>
     current k' = current k \<and> idleproc k' = idleproc k \<and> initproc k' = initproc k \<and>
     (\<forall>x. parent (procs k' x) = (if x \<in> set cs then Some i else parent (procs k x)) \<and>
        pid (procs k' x) = pid (procs k x) \<and> exit_code (procs k' x) = exit_code (procs k x)) \<and>
     (\<forall>x. x \<noteq> i \<longrightarrow> state (procs k' x) = state (procs k x)) \<and>
     (state (procs k' i) = state (procs k i) \<or> state (procs k' i) = PROC_RUNNABLE) \<and>
     ((\<exists>x\<in>set cs. state (procs k x) = PROC_ZOMBIE) \<and> wait_state (procs k i) = WT_CHILD \<longrightarrow>
        state (procs k' i) = PROC_RUNNABLE)"

lemma reparent_wake:
  assumes "table_core k ps" "family_upto k ps c cs" "sched_inv RR_ready k"
    and "wait_state (procs k i) = WT_CHILD \<longrightarrow> state (procs k i) \<noteq> PROC_ZOMBIE" "i = initproc k"
  shows "\<exists>k'. (if state (procs k p) = PROC_ZOMBIE \<and> wait_state (procs k (initproc k)) = WT_CHILD
      then wakeup_proc default_sched_class (initproc k) k else Some k) = Some k' \<and>
    table_core k' ps \<and> family_upto k' ps c cs \<and> sched_inv RR_ready k' \<and> handover i [] k k' \<and>
    (wait_state (procs k' i) = WT_CHILD \<longrightarrow> state (procs k' i) \<noteq> PROC_ZOMBIE \<and> wait_state (procs k i) = WT_CHILD) \<and>
    (wait_state (procs k i) = WT_CHILD \<longrightarrow> wait_state (procs k' i) = WT_CHILD \<or> state (procs k' i) = PROC_RUNNABLE) \<and>
    (state (procs k p) = PROC_ZOMBIE \<and> wait_state (procs k i) = WT_CHILD \<longrightarrow> state (procs k' i) = PROC_RUNNABLE)"
proof (cases "state (procs k p) = PROC_ZOMBIE \<and> wait_state (procs k i) = WT_CHILD")
  case True
  then obtain k' where k': "wakeup_proc default_sched_class i k = Some k'" "sched_inv RR_ready k'"
    "state (procs k' i) = PROC_RUNNABLE" "wakeup_frame i k k'" using RR.wakeup_ok [OF assms(3), of i] assms(4) by auto
  note wf = k'(4) [unfolded wakeup_frame_def]
  have "table_core k' ps" by (rule table_core_cong [OF assms(1)]) (use wf in \<open>auto simp: same_table_def\<close>)
  moreover have "family_upto k' ps c cs" by (rule family_upto_cong [OF assms(2)]) (use wf in auto)
  moreover have "handover i [] k k'" using wf k'(3) by (simp add: handover_def same_table_def)
  ultimately show ?thesis using True k' assms(5) by auto
next
  case False
  then show ?thesis using assms by (auto simp: handover_def)
qed

lemma reparent_ok:
  assumes "table_core k ps" "family_upto k ps c cs" "sched_inv RR_ready k" "c = current k" "i = initproc k"
    and "i \<in> set (idleproc k # ps)" "i \<noteq> c" "c \<notin> set cs" "i \<notin> set cs"
    and "wait_state (procs k i) = WT_CHILD \<longrightarrow> state (procs k i) \<noteq> PROC_ZOMBIE"
  shows "\<exists>k'. reparent_loop default_sched_class k = Some k' \<and> proc_table k' ps \<and> cptr (procs k' c) = None \<and>
    sched_inv RR_ready k' \<and> handover i cs k k'"
  using assms
proof (induction cs arbitrary: k)
  case Nil
  then show ?case using family_upto_done [OF Nil.prems(2)]
    by (subst reparent_loop.simps) (simp add: handover_def proc_table_core)
next
  case (Cons p cs)
  note C = Cons.prems
  let ?k = "adopt_child p k"
  have cp: "cptr (procs k (current k)) = Some p" using C(2,4) by (simp add: family_upto_def)
  have "p \<in> children k ps c" using C(2) by (auto simp: family_upto_def)
  then have pc: "p \<noteq> c" "p \<noteq> i" "parent (procs k p) = Some c" using C(8,9) by (auto simp: children_def)
  obtain ds where ds: "child_chain k i ds" "set ds = children k ps i"
    using C(2,6,7) unfolding family_upto_def by (metis DiffI singletonD)
  have "p \<notin> set ds" using ds(2) pc(3) C(7) by (simp add: children_def)
  then have ci: "cptr (procs k i) \<noteq> Some p" using child_chain_head [OF ds(1)] by blast
  note sel = adopt_child_sel [OF C(4,5,7) pc(1,2) ci]
  have w: "waiting_to_run ?k = waiting_to_run k" by (simp add: waiting_to_run_def)
  have a: "table_core ?k ps" by (rule table_core_cong [OF C(1)]) simp_all
  have b: "family_upto ?k ps c cs" using family_upto_step [OF C(2,4-7) pc(1,2)] .
  have d: "sched_inv RR_ready ?k" using RR.ready_unseen [OF _ adopt_child_frame(12)] C(3) w by (simp add: sched_inv_def)
  have e: "wait_state (procs ?k i) = WT_CHILD \<longrightarrow> state (procs ?k i) \<noteq> PROC_ZOMBIE" using C(10) by simp
  have f: "i = initproc ?k" using C(5) by simp
  from reparent_wake [OF a b d e f, of p] obtain k1 where k1: "(if state (procs ?k p) = PROC_ZOMBIE \<and> wait_state (procs ?k (initproc ?k)) = WT_CHILD
      then wakeup_proc default_sched_class (initproc ?k) ?k else Some ?k) = Some k1"
    "table_core k1 ps" "family_upto k1 ps c cs" "sched_inv RR_ready k1" "handover i [] ?k k1"
    "wait_state (procs k1 i) = WT_CHILD \<longrightarrow> state (procs k1 i) \<noteq> PROC_ZOMBIE \<and> wait_state (procs ?k i) = WT_CHILD"
    "wait_state (procs ?k i) = WT_CHILD \<longrightarrow> wait_state (procs k1 i) = WT_CHILD \<or> state (procs k1 i) = PROC_RUNNABLE"
    "state (procs ?k p) = PROC_ZOMBIE \<and> wait_state (procs ?k i) = WT_CHILD \<longrightarrow> state (procs k1 i) = PROC_RUNNABLE"
    by blast
  note h1 = k1(5) [unfolded handover_def]
  have "\<exists>k'. reparent_loop default_sched_class k1 = Some k' \<and> proc_table k' ps \<and> cptr (procs k' c) = None \<and>
    sched_inv RR_ready k' \<and> handover i cs k1 k'"
    by (rule Cons.IH) (use k1 h1 C in auto)
  then obtain k' where k': "reparent_loop default_sched_class k1 = Some k'" "proc_table k' ps" "cptr (procs k' c) = None"
    "sched_inv RR_ready k'" "handover i cs k1 k'" by blast
  note h2 = k'(5) [unfolded handover_def]
  have "reparent_loop default_sched_class k = Some k'"
    by (subst reparent_loop.simps) (use cp k1(1) k'(1) in simp)
  moreover have "\<forall>x\<in>set cs. state (procs k1 x) = state (procs k x)" using h1 C(9) by auto
  then have "handover i (p # cs) k k'"
    using h1 h2 k1(6-8) C(9) pc(2) sel(4) unfolding handover_def adopt_child_frame by auto
  ultimately show ?case using k' by blast
qed

subsection \<open>Exit, wait and kill\<close>

lemma put_mm_ok: "\<exists>s'. put_mm m s = Some s' \<and> kern s' = kern s \<and> ftab s' = ftab s \<and>
    mm_count s' = (mm_count s)(m := mm_count s m - 1) \<and>
    held s' = held s - (if mm_count s m = 1 then {Mapping m, PgDir (mm_pgdir s m), MmMem m} else {})"
  by (auto simp: put_mm_def mm_destroy_def put_pgdir_def Let_def)

text \<open>One reference to a file table fewer: with the last one the table gives its references to inodes back.\<close>

definition dropped_files :: "nat option \<Rightarrow> 'w os \<Rightarrow> 'w os \<Rightarrow> bool" where
  "dropped_files o' s s' \<longleftrightarrow>
     (case o' of
        None \<Rightarrow> ftab s' = ftab s
      | Some f \<Rightarrow>
          if files_count (filess (ftab s) f) = 1
          then given_back f (ftab s) (ftab s') \<and> (\<forall>u. u \<noteq> f \<longrightarrow> filess (ftab s') u = filess (ftab s) u)
          else ftab s' = files_count_dec f (ftab s))"

definition dropped_table :: "nat option \<Rightarrow> 'w os \<Rightarrow> resource set" where
  "dropped_table o' s = (case o' of Some f \<Rightarrow> if files_count (filess (ftab s) f) = 1 then {FilesMem f} else {} | None \<Rightarrow> {})"

lemma put_files_ok:
  assumes ok: "files_ok s" and refs: "\<forall>n. ref_count (inodes (ftab s) n) < MAX_INODE_COUNT"
    and live: "\<forall>f. filesp (procs (kern s) p) = Some f \<longrightarrow> FilesMem f \<in> held s"
  shows "\<exists>s'. put_files p s = Some s' \<and> kern s' = kern s \<and> mm_count s' = mm_count s \<and> files_ok s' \<and>
    dropped_files (filesp (procs (kern s) p)) s s' \<and> held s' = held s - dropped_table (filesp (procs (kern s) p)) s"
proof (cases "filesp (procs (kern s) p)")
  case None
  then show ?thesis using ok by (simp add: put_files_def dropped_files_def dropped_table_def)
next
  case (Some f)
  let ?d = "files_count_dec f (ftab s)"
  have ok': "tables_ok (live_tables s) ?d" "\<forall>t. nentry t (ftab s) = FILES_STRUCT_NENTRY" using ok by (simp_all add: files_ok_def)
  show ?thesis
  proof (cases "files_count (filess (ftab s) f) = 1")
    case False
    then show ?thesis using Some ok
      by (simp add: put_files_def dropped_files_def dropped_table_def Let_def files_ok_def live_tables_def)
  next
    case True
    have "f \<in> live_tables s" using live Some by (simp add: live_tables_def)
    then obtain ft where ft: "files_destroy f ?d = Some ft" "tables_ok (live_tables s - {f}) ft" "only f ?d ft" "given_back f ?d ft"
      using files_destroy_ok [OF ok'(1), of f] refs True by auto
    have other: "\<forall>u. u \<noteq> f \<longrightarrow> filess ft u = filess (ftab s) u" using ft(3) by (simp add: only_def)
    have "opens {f} ?d n = opens {f} (ftab s) n" for n by (simp add: opens_def slots_of_def)
    then have "given_back f (ftab s) ft" using ft(4) by (simp add: given_back_def)
    moreover have "nentry t ft = FILES_STRUCT_NENTRY" for t
      using ok'(2) other ft(3) by (cases "t = f") (simp_all add: only_def nentry_def)
    moreover have "live_tables (release (FilesMem f) (s\<lparr>ftab := ft\<rparr>)) = live_tables s - {f}" by (auto simp: live_tables_def)
    ultimately show ?thesis using Some True ft(1,2) other
      by (simp add: put_files_def dropped_files_def dropped_table_def Let_def files_ok_def)
  qed
qed

text \<open>What a process gives back when it exits: one reference to its address space and to its file table. A kernel thread
  has no address space and keeps its reference to the file table.\<close>

definition exit_effect :: "'w os \<Rightarrow> 'w os \<Rightarrow> bool" where
  "exit_effect s s' \<longleftrightarrow>
     (let c = procs (kern s) (current (kern s)) in
      case mm c of
        None \<Rightarrow> held s' = held s \<and> mm_count s' = mm_count s \<and> ftab s' = ftab s
      | Some m \<Rightarrow> mm_count s' = (mm_count s)(m := mm_count s m - 1) \<and> dropped_files (filesp c) s s' \<and>
          held s' = held s - (if mm_count s m = 1 then {Mapping m, PgDir (mm_pgdir s m), MmMem m} else {}) - dropped_table (filesp c) s)"

definition exit_ready :: "'w os \<Rightarrow> bool" where
  "exit_ready s \<longleftrightarrow> (\<forall>n. ref_count (inodes (ftab s) n) < MAX_INODE_COUNT) \<and>
     (\<forall>f. filesp (procs (kern s) (current (kern s))) = Some f \<longrightarrow> FilesMem f \<in> held s)"

lemma exit_mm_ok:
  assumes ok: "files_ok s" and r: "exit_ready s"
  shows "\<exists>s'. exit_mm s = Some s' \<and> files_ok s' \<and> exit_effect s s' \<and>
    (kern s' = kern s \<or> kern s' = upd_proc (current (kern s)) (\<lambda>x. x\<lparr>mm := None\<rparr>) ((kern s)\<lparr>satp := boot_pgdir_pa s\<rparr>))"
proof (cases "mm (procs (kern s) (current (kern s)))")
  case None
  then show ?thesis using ok by (simp add: exit_mm_def exit_effect_def)
next
  case (Some m)
  let ?c = "current (kern s)" and ?s = "on_kern (\<lambda>k. k\<lparr>satp := boot_pgdir_pa s\<rparr>) s"
  obtain s1 where s1: "put_mm m ?s = Some s1" "kern s1 = kern ?s" "ftab s1 = ftab s"
    "mm_count s1 = (mm_count s)(m := mm_count s m - 1)"
    "held s1 = held s - (if mm_count s m = 1 then {Mapping m, PgDir (mm_pgdir s m), MmMem m} else {})"
    using put_mm_ok [of m ?s] by auto
  let ?s1 = "on_kern (upd_proc (current (kern s1)) (\<lambda>x. x\<lparr>mm := None\<rparr>)) s1"
  have k1: "kern ?s1 = upd_proc ?c (\<lambda>x. x\<lparr>mm := None\<rparr>) ((kern s)\<lparr>satp := boot_pgdir_pa s\<rparr>)" using s1(2) by simp
  have fl: "filesp (procs (kern ?s1) ?c) = filesp (procs (kern s) ?c)" unfolding k1 by simp
  have lt: "live_tables s1 = live_tables s" using s1(5) by (auto simp: live_tables_def)
  have a: "files_ok ?s1" using files_ok_cong [OF s1(3) lt] ok by simp
  have b: "\<forall>n. ref_count (inodes (ftab ?s1) n) < MAX_INODE_COUNT" using r s1(3) by (simp add: exit_ready_def)
  have c: "\<forall>f. filesp (procs (kern ?s1) ?c) = Some f \<longrightarrow> FilesMem f \<in> held ?s1"
    unfolding fl using r s1(5) by (simp add: exit_ready_def)
  obtain s2 where s2: "put_files ?c ?s1 = Some s2" "kern s2 = kern ?s1" "mm_count s2 = mm_count s1" "files_ok s2"
    "dropped_files (filesp (procs (kern s) ?c)) ?s1 s2" "held s2 = held s1 - dropped_table (filesp (procs (kern s) ?c)) ?s1"
    using put_files_ok [OF a b c] unfolding fl by auto
  have "exit_mm s = Some s2" using Some s1(1,2) s2(1) by (simp add: exit_mm_def Let_def)
  moreover have "dropped_files o' ?s1 s2 = dropped_files o' s s2" "dropped_table o' ?s1 = dropped_table o' s" for o'
    using s1(3) by (simp_all add: dropped_files_def dropped_table_def split: option.split)
  then have "exit_effect s s2" using Some s1 s2 by (simp add: exit_effect_def Let_def)
  ultimately show ?thesis using s2(2,4) k1 by auto
qed

lemma put_files_kern: "put_files p s = Some s' \<Longrightarrow> kern s' = kern s"
  by (auto simp: put_files_def Let_def split: option.splits if_splits Option.bind_splits)

lemma exit_mm_kern:
  assumes "exit_mm s = Some s'"
  shows "kern s' = kern s \<or> kern s' = upd_proc (current (kern s)) (\<lambda>x. x\<lparr>mm := None\<rparr>) ((kern s)\<lparr>satp := boot_pgdir_pa s\<rparr>)"
proof (cases "mm (procs (kern s) (current (kern s)))")
  case None
  then show ?thesis using assms by (simp add: exit_mm_def)
next
  case (Some m)
  obtain s1 where "put_mm m (on_kern (\<lambda>k. k\<lparr>satp := boot_pgdir_pa s\<rparr>) s) = Some s1"
    "kern s1 = kern (on_kern (\<lambda>k. k\<lparr>satp := boot_pgdir_pa s\<rparr>) s)" using put_mm_ok by blast
  then show ?thesis using assms Some by (auto simp: exit_mm_def Let_def dest: put_files_kern)
qed

text \<open>The process tree has its root: \<^verbatim>\<open>initproc\<close> is a child of the idle process, nobody is its own parent,
  and whoever waits for a child is no zombie.\<close>

definition tree_ok :: "kernel \<Rightarrow> nat list \<Rightarrow> bool" where
  "tree_ok k ps \<longleftrightarrow> initproc k \<in> set ps \<and> parent (procs k (initproc k)) = Some (idleproc k) \<and>
     (\<forall>p\<in>set ps. parent (procs k p) \<noteq> Some p) \<and>
     (\<forall>p. wait_state (procs k p) = WT_CHILD \<longrightarrow> state (procs k p) \<noteq> PROC_ZOMBIE)"

lemma zombify:
  assumes "proc_table k ps" "sched_inv RR_ready k"
    and "k' = upd_proc (current k) (\<lambda>x. x\<lparr>state := PROC_ZOMBIE, exit_code := e\<rparr>) k0"
    and "k0 = k \<or> k0 = upd_proc (current k) (\<lambda>x. x\<lparr>mm := None\<rparr>) (k\<lparr>satp := b\<rparr>)"
  shows "proc_table k' ps" "sched_inv RR_ready k'"
proof -
  have e: "links k' = links k" "\<And>x. same_family k k' x \<and> pid (procs k' x) = pid (procs k x)" "nr_process k' = nr_process k"
    "last_pid k' = last_pid k" "next_safe k' = next_safe k" "idleproc k' = idleproc k" "unseen k k'" "current k' = current k"
    using assms(3,4) by (auto simp: same_family_def unseen_def)
  show "proc_table k' ps" by (rule proc_table_local [OF assms(1)]) (use e in auto)
  have "waiting_to_run k' = waiting_to_run k" using assms(3,4) by (auto simp: waiting_to_run_def)
  then show "sched_inv RR_ready k'" using RR.ready_unseen [OF _ e(7)] assms(2) by (simp add: sched_inv_def)
qed

definition exited :: "'w os \<Rightarrow> nat list \<Rightarrow> int \<Rightarrow> 'w os \<Rightarrow> bool" where
  "exited s ps e s' \<longleftrightarrow>
     (let c = current (kern s); i = initproc (kern s); k = kern s; k' = kern s' in
      proc_table k' ps \<and> sched_inv RR_ready k' \<and> current k' \<noteq> c \<and>
      state (procs k' c) = PROC_ZOMBIE \<and> exit_code (procs k' c) = e \<and> children k' ps c = {} \<and>
      children k' ps i = children k ps i \<union> children k ps c \<and>
      parent (procs k' c) = parent (procs k c) \<and> (\<forall>x. pid (procs k' x) = pid (procs k x)) \<and>
      initproc k' = i \<and> idleproc k' = idleproc k \<and>
      (\<forall>par. parent (procs k c) = Some par \<and> wait_state (procs k par) = WT_CHILD \<longrightarrow> state (procs k' par) = PROC_RUNNABLE) \<and>
      (wait_state (procs k i) = WT_CHILD \<and> (\<exists>x\<in>children k ps c. state (procs k x) = PROC_ZOMBIE) \<longrightarrow>
         state (procs k' i) = PROC_RUNNABLE))"

lemma wake_if:
  assumes "proc_table k ps" "sched_inv RR_ready k" "b \<Longrightarrow> state (procs k p) \<noteq> PROC_ZOMBIE"
  shows "\<exists>k'. (if b then wakeup_proc default_sched_class p k else Some k) = Some k' \<and> proc_table k' ps \<and>
    sched_inv RR_ready k' \<and> wakeup_frame p k k' \<and> (b \<longrightarrow> state (procs k' p) = PROC_RUNNABLE) \<and> (\<not> b \<longrightarrow> k' = k)"
proof (cases b)
  case True
  then obtain k' where k': "wakeup_proc default_sched_class p k = Some k'" "sched_inv RR_ready k'"
    "state (procs k' p) = PROC_RUNNABLE" "wakeup_frame p k k'" using RR.wakeup_ok [OF assms(2), of p] assms(3) by auto
  have "proc_table k' ps" using proc_table_cong [OF assms(1)] k'(4) by (simp add: wakeup_frame_def)
  then show ?thesis using k' True by simp
next
  case False
  then show ?thesis using assms by (simp add: wakeup_frame_def)
qed

lemma schedule_table:
  assumes "proc_table k ps" "sched_inv RR_ready k"
  shows "\<exists>k'. schedule default_sched_class k = Some k' \<and> proc_table k' ps \<and> sched_inv RR_ready k' \<and>
    schedule_frame k k' \<and> (current k' = idleproc k \<or> current k' \<in> contenders k)"
proof -
  obtain k' where k': "schedule default_sched_class k = Some k'" "sched_inv RR_ready k'" "schedule_frame k k'"
    "if contenders k = {} then current k' = idleproc k else current k' \<in> contenders k"
    using RR.schedule_ok [OF assms(2)] by auto
  have "proc_table k' ps" using proc_table_cong [OF assms(1)] k'(3) by (simp add: schedule_frame_def)
  then show ?thesis using k' by (auto split: if_splits)
qed

text \<open>The first half of \<^verbatim>\<open>do_exit\<close>: the process is a zombie and its parent awake.\<close>

definition dying :: "kernel \<Rightarrow> nat list \<Rightarrow> int \<Rightarrow> kernel \<Rightarrow> bool" where
  "dying k ps e k' \<longleftrightarrow>
     (let c = current k; i = initproc k in
      proc_table k' ps \<and> sched_inv RR_ready k' \<and>
      (\<forall>x. parent (procs k' x) = parent (procs k x) \<and> pid (procs k' x) = pid (procs k x)) \<and> current k' = c \<and> initproc k' = i \<and> idleproc k' = idleproc k \<and>
      state (procs k' c) = PROC_ZOMBIE \<and> exit_code (procs k' c) = e \<and>
      (\<forall>par. parent (procs k c) = Some par \<and> wait_state (procs k par) = WT_CHILD \<longrightarrow> state (procs k' par) = PROC_RUNNABLE) \<and>
      (\<forall>x. wait_state (procs k' x) = WT_CHILD \<longrightarrow> x = c \<or> state (procs k' x) \<noteq> PROC_ZOMBIE) \<and>
      (\<forall>x. wait_state (procs k x) = WT_CHILD \<longrightarrow> wait_state (procs k' x) = WT_CHILD \<or> state (procs k' x) = PROC_RUNNABLE) \<and>
      (\<forall>x. state (procs k x) = PROC_ZOMBIE \<longrightarrow> state (procs k' x) = PROC_ZOMBIE))"

lemma exit_wake_ok:
  assumes tab: "proc_table k ps" "sched_inv RR_ready k" and t: "tree_ok k ps" and c: "current k \<in> set ps"
    and k0: "k0 = k \<or> k0 = upd_proc (current k) (\<lambda>x. x\<lparr>mm := None\<rparr>) (k\<lparr>satp := b\<rparr>)"
    and k1: "k1 = upd_proc (current k) (\<lambda>x. x\<lparr>state := PROC_ZOMBIE, exit_code := e\<rparr>) k0"
  shows "\<exists>par k2. parent (procs k1 (current k)) = Some par \<and>
    (if wait_state (procs k1 par) = WT_CHILD then wakeup_proc default_sched_class par k1 else Some k1) = Some k2 \<and>
    dying k ps e k2"
proof -
  let ?c = "current k"
  note t = t [unfolded tree_ok_def]
  have tab1: "proc_table k1 ps" "sched_inv RR_ready k1" using zombify [OF tab k1 k0] by auto
  have k1: "\<And>x. state (procs k1 x) = (if x = ?c then PROC_ZOMBIE else state (procs k x))"
    "\<And>x. wait_state (procs k1 x) = wait_state (procs k x)" "\<And>x. parent (procs k1 x) = parent (procs k x)" "\<And>x. pid (procs k1 x) = pid (procs k x)"
    "exit_code (procs k1 ?c) = e" "current k1 = ?c" "initproc k1 = initproc k" "idleproc k1 = idleproc k"
    using k0 k1 by auto
  have "\<exists>q. parent (procs k ?c) = Some q" using tab(1) c unfolding proc_table_def family_inv_def by blast
  then obtain par where par: "parent (procs k ?c) = Some par" "par \<noteq> ?c" using t c by auto
  obtain k2 where k2: "(if wait_state (procs k1 par) = WT_CHILD then wakeup_proc default_sched_class par k1 else Some k1) = Some k2"
    "proc_table k2 ps" "sched_inv RR_ready k2" "wakeup_frame par k1 k2"
    "wait_state (procs k1 par) = WT_CHILD \<longrightarrow> state (procs k2 par) = PROC_RUNNABLE"
    "wait_state (procs k1 par) \<noteq> WT_CHILD \<longrightarrow> k2 = k1"
    using wake_if [OF tab1, of "wait_state (procs k1 par) = WT_CHILD" par] t par(2) k1 by auto
  note w2 = k2(4) [unfolded wakeup_frame_def same_table_def]
  have st: "state (procs k2 x) = (if x = ?c then PROC_ZOMBIE
      else if x = par \<and> wait_state (procs k par) = WT_CHILD then PROC_RUNNABLE else state (procs k x))" for x
    using w2 k2(5,6) k1 par(2) by auto
  have ws: "x \<noteq> par \<Longrightarrow> wait_state (procs k2 x) = wait_state (procs k x)" for x using w2 k1(2) by simp
  have "wait_state (procs k2 x) = WT_CHILD \<longrightarrow> x = ?c \<or> state (procs k2 x) \<noteq> PROC_ZOMBIE" for x
    using st [of x] ws [of x] t k1(2) k2(6) by (cases "x = par") auto
  moreover have "wait_state (procs k x) = WT_CHILD \<longrightarrow> wait_state (procs k2 x) = WT_CHILD \<or> state (procs k2 x) = PROC_RUNNABLE" for x
    using ws [of x] k1(2) k2(5) by (cases "x = par") auto
  moreover have "state (procs k x) = PROC_ZOMBIE \<longrightarrow> state (procs k2 x) = PROC_ZOMBIE" for x
    using st [of x] t by auto
  ultimately have "dying k ps e k2"
    using k2(2,3) w2 k1 par k2(5) st [of ?c] by (auto simp: dying_def Let_def)
  then show ?thesis using k2(1) par(1) k1(3) by auto
qed

lemma do_exit_kern:
  assumes "os_inv s ps" "tree_ok (kern s) ps" "current (kern s) \<in> set ps" "current (kern s) \<noteq> initproc (kern s)"
    and s1: "exit_mm s = Some s1"
  shows "\<exists>k. do_exit default_sched_class e s = Some (s1\<lparr>kern := k\<rparr>) \<and> exited s ps e (s1\<lparr>kern := k\<rparr>)"
proof -
  let ?k = "kern s" and ?c = "current (kern s)" and ?i = "initproc (kern s)"
  note t = assms(2) [unfolded tree_ok_def]
  have tab: "proc_table ?k ps" "sched_inv RR_ready ?k" using assms(1) by (auto simp: os_inv_def)
  have c: "?c \<noteq> idleproc ?k" using assms(3) tab(1) by (auto simp: proc_table_def)
  note s1 = s1 exit_mm_kern [OF s1]
  then have cur1: "current (kern s1) = ?c" by auto
  define k1 where "k1 = upd_proc ?c (\<lambda>x. x\<lparr>state := PROC_ZOMBIE, exit_code := e\<rparr>) (kern s1)"
  obtain par k2 where k2: "parent (procs k1 ?c) = Some par"
    "(if wait_state (procs k1 par) = WT_CHILD then wakeup_proc default_sched_class par k1 else Some k1) = Some k2"
    "dying ?k ps e k2" using exit_wake_ok [OF tab assms(2,3) s1(2) k1_def] by blast
  note d = k2(3) [unfolded dying_def Let_def]
  have ch: "children k2 ps q = children ?k ps q" for q using d by (simp add: children_def)
  have "family_inv k2 ps" and core: "table_core k2 ps" using d by (auto simp: proc_table_core)
  then obtain cs where cs: "family_upto k2 ps ?c cs" using family_upto_start [OF _ assms(3)] by metis
  have set_cs: "set cs = children ?k ps ?c" using cs ch by (simp add: family_upto_def)
  then have nin: "?c \<notin> set cs" "?i \<notin> set cs" using t c by (auto simp: children_def)
  have "\<exists>k3. reparent_loop default_sched_class k2 = Some k3 \<and> proc_table k3 ps \<and> cptr (procs k3 ?c) = None \<and>
    sched_inv RR_ready k3 \<and> handover ?i cs k2 k3"
    by (rule reparent_ok [OF core cs]) (use d t nin assms(4) in auto)
  then obtain k3 where k3: "reparent_loop default_sched_class k2 = Some k3" "proc_table k3 ps"
    "sched_inv RR_ready k3" "handover ?i cs k2 k3" by blast
  note h = k3(4) [unfolded handover_def]
  obtain k4 where k4: "schedule default_sched_class k3 = Some k4" "proc_table k4 ps" "sched_inv RR_ready k4"
    "schedule_frame k3 k4" "current k4 = idleproc k3 \<or> current k4 \<in> contenders k3" using schedule_table [OF k3(2,3)] by blast
  note f4 = k4(4) [unfolded schedule_frame_def same_table_def]
  have "current (kern s1) \<noteq> idleproc ?k" "current (kern s1) \<noteq> initproc ?k" using c cur1 assms(4) by auto
  then have "do_exit default_sched_class e s = Some (s1\<lparr>kern := k4\<rparr>)"
    using s1(1) cur1 k2(1,2) k3(1) k4(1) c assms(4) s1(2) by (auto simp: do_exit_def k1_def Let_def)
  moreover have par4: "parent (procs k4 x) = (if x \<in> set cs then Some ?i else parent (procs ?k x))" for x
    using f4 h d by simp
  have "children k4 ps ?c = {}" "children k4 ps ?i = children ?k ps ?i \<union> children ?k ps ?c"
    using set_cs assms(4) unfolding children_def par4 by auto
  moreover have "parent (procs k4 ?c) = parent (procs ?k ?c)" "\<forall>x. pid (procs k4 x) = pid (procs ?k x)"
    "initproc k4 = ?i" "idleproc k4 = idleproc ?k" using par4 nin(1) f4 h d by auto
  moreover have "current k4 \<noteq> ?c" using k4(5) h d c assms(4) by (auto simp: contenders_def)
  moreover have "state (procs k4 ?c) = PROC_ZOMBIE" "exit_code (procs k4 ?c) = e" using f4 h d assms(4) by auto
  moreover have "\<forall>p. parent (procs ?k ?c) = Some p \<and> wait_state (procs ?k p) = WT_CHILD \<longrightarrow> state (procs k4 p) = PROC_RUNNABLE"
    using f4 h d by metis
  moreover have "wait_state (procs ?k ?i) = WT_CHILD \<and> (\<exists>x\<in>children ?k ps ?c. state (procs ?k x) = PROC_ZOMBIE) \<longrightarrow>
      state (procs k4 ?i) = PROC_RUNNABLE" using f4 h d set_cs by metis
  ultimately show ?thesis using k4(2,3) by (auto simp: exited_def Let_def)
qed

lemma do_exit_ok:
  assumes "os_inv s ps" "tree_ok (kern s) ps" "current (kern s) \<in> set ps" "current (kern s) \<noteq> initproc (kern s)"
    and ready: "exit_ready s"
  shows "\<exists>s'. do_exit default_sched_class e s = Some s' \<and> exited s ps e s' \<and> files_ok s' \<and> exit_effect s s'"
proof -
  obtain s1 where s1: "exit_mm s = Some s1" "files_ok s1" "exit_effect s s1"
    using exit_mm_ok [OF _ ready] assms(1) by (auto simp: os_inv_def)
  obtain k where k: "do_exit default_sched_class e s = Some (s1\<lparr>kern := k\<rparr>)" "exited s ps e (s1\<lparr>kern := k\<rparr>)"
    using do_exit_kern [OF assms(1-4) s1(1)] by blast
  have "dropped_files o' s (s1\<lparr>kern := k\<rparr>) = dropped_files o' s s1" for o'
    by (simp add: dropped_files_def split: option.split)
  then have "exit_effect s (s1\<lparr>kern := k\<rparr>)"
    using s1(3) by (cases "mm (procs (kern s) (current (kern s)))") (simp_all add: exit_effect_def Let_def)
  then show ?thesis using k s1(2) by auto
qed

definition wanted :: "int \<Rightarrow> kernel \<Rightarrow> nat list \<Rightarrow> nat set" where
  "wanted n k ps = {p \<in> children k ps (current k). n = 0 \<or> pid (procs k p) = n}"

lemma zombie_loop_ok:
  "older_chain (optrs k) c cs \<Longrightarrow> \<exists>z. zombie_loop c h k = Some (h \<or> cs \<noteq> [], z) \<and>
    (case z of Some p \<Rightarrow> p \<in> set cs \<and> state (procs k p) = PROC_ZOMBIE | None \<Rightarrow> \<forall>p\<in>set cs. state (procs k p) \<noteq> PROC_ZOMBIE)"
proof (induction cs arbitrary: c h)
  case Nil
  then show ?case by (subst zombie_loop.simps) simp
next
  case (Cons p cs)
  show ?case
  proof (cases "state (procs k p) = PROC_ZOMBIE")
    case True
    then show ?thesis using Cons.prems by (subst zombie_loop.simps) simp
  next
    case False
    obtain z where "zombie_loop (optr (procs k p)) True k = Some (True \<or> cs \<noteq> [], z)"
      "case z of Some p \<Rightarrow> p \<in> set cs \<and> state (procs k p) = PROC_ZOMBIE | None \<Rightarrow> \<forall>p\<in>set cs. state (procs k p) \<noteq> PROC_ZOMBIE"
      using Cons.IH [of "optr (procs k p)" True] Cons.prems by auto
    then show ?thesis using Cons.prems False by (subst zombie_loop.simps) (auto split: option.splits)
  qed
qed

lemma wait_search_ok:
  assumes "proc_table k ps" "current k \<in> set (idleproc k # ps)"
  shows "\<exists>z. wait_search n k = Some (wanted n k ps \<noteq> {}, z) \<and>
    (case z of Some p \<Rightarrow> p \<in> wanted n k ps \<and> state (procs k p) = PROC_ZOMBIE
     | None \<Rightarrow> \<forall>p\<in>wanted n k ps. state (procs k p) \<noteq> PROC_ZOMBIE)"
proof (cases "n = 0")
  case True
  obtain cs where cs: "child_chain k (current k) cs" "set cs = children k ps (current k)"
    using assms by (auto simp: proc_table_def family_inv_def)
  have "older_chain (optrs k) (cptr (procs k (current k))) cs"
    using cs(1) siblings_older_chain by (auto simp: child_chain_def)
  from zombie_loop_ok [OF this, of False] obtain z where
    z: "zombie_loop (cptr (procs k (current k))) False k = Some (cs \<noteq> [], z)"
    "case z of Some p \<Rightarrow> p \<in> set cs \<and> state (procs k p) = PROC_ZOMBIE | None \<Rightarrow> \<forall>p\<in>set cs. state (procs k p) \<noteq> PROC_ZOMBIE"
    by auto
  have w: "wanted n k ps = set cs" using True cs(2) by (simp add: wanted_def)
  then have "wait_search n k = Some (wanted n k ps \<noteq> {}, z)" using z(1) True by (simp add: wait_search_def)
  then show ?thesis using z(2) unfolding w by blast
next
  case False
  obtain r where r: "find_proc n k = Some r" "\<forall>p. r = Some p \<longleftrightarrow> p \<in> set ps \<and> pid (procs k p) = n"
    using find_proc_ok [of k ps n] assms(1) by (auto simp: proc_table_def)
  have w: "wanted n k ps = {p. r = Some p \<and> parent (procs k p) = Some (current k)}"
    using r(2) False by (auto simp: wanted_def children_def)
  show ?thesis
  proof (cases "\<exists>p. r = Some p \<and> parent (procs k p) = Some (current k)")
    case True
    then obtain p where p: "r = Some p" "parent (procs k p) = Some (current k)" by blast
    then have "wanted n k ps = {p}" using w by auto
    then show ?thesis using r(1) p False by (auto simp: wait_search_def)
  next
    case no: False
    then have "wanted n k ps = {}" using w by auto
    then show ?thesis using r(1) no False by (auto simp: wait_search_def split: option.splits)
  qed
qed

lemma bare_cptr:
  assumes "proc_table k ps" "p \<in> set ps" "children k ps p = {}"
  shows "cptr (procs k p) = None"
proof -
  obtain cs where "child_chain k p cs" "set cs = children k ps p" using assms(1,2) by (auto simp: proc_table_def family_inv_def)
  then show ?thesis using assms(3) by (simp add: child_chain_def)
qed

lemma do_wait_reap:
  assumes "proc_table (kern s) ps" "children (kern s) ps p = {}" "wait_search n (kern s) = Some (h, Some p)"
    and "p \<in> set ps" "state (procs (kern s) p) = PROC_ZOMBIE" "p \<noteq> initproc (kern s)"
  shows "\<exists>s'. do_wait sc True n s = Some (Returned 0 (Some (exit_code (procs (kern s) p))), s') \<and>
    proc_table (kern s') (filter (\<lambda>x. x \<noteq> p) ps) \<and> table_frame (kern s) (kern s') \<and>
    find_proc (pid (procs (kern s) p)) (kern s') = Some None \<and>
    held s' = held s - {ProcMem p, KStack (kstack (procs (kern s) p))}"
proof -
  have "cptr (procs (kern s) p) = None" using bare_cptr assms(1,2,4) by blast
  from leave_table_ok [OF assms(1,4) this] obtain k where k: "leave_table p (kern s) = Some k"
    "proc_table k (filter (\<lambda>x. x \<noteq> p) ps)" "table_frame (kern s) k" "\<forall>x. pid (procs k x) = pid (procs (kern s) x)" by auto
  have "p \<noteq> idleproc (kern s)" using assms(1,4) by (auto simp: proc_table_def)
  then have "do_wait sc True n s = Some (Returned 0 (Some (exit_code (procs (kern s) p))), release (ProcMem p) (put_kstack p (s\<lparr>kern := k\<rparr>)))"
    using assms(3,6) k(1) by (simp add: do_wait_def)
  moreover have "pid (procs (kern s) p) \<notin> set (pids k (filter (\<lambda>x. x \<noteq> p) ps))"
    using assms(1,4) k(4) by (auto simp: proc_table_def pids_def dest: inj_onD)
  then have "find_proc (pid (procs (kern s) p)) k = Some None" using find_proc_None [OF k(2)] by blast
  moreover have "kstack (procs k p) = kstack (procs (kern s) p)" using k(3) by (simp add: table_frame_def)
  ultimately show ?thesis using k(2,3) by (auto simp: put_kstack_def)
qed

text \<open>A kernel thread has no address space, so \<^verbatim>\<open>do_exit\<close> skips the block that would also drop its
  reference to its files.\<close>

lemma exit_mm_kernel_thread: "mm (procs (kern s) (current (kern s))) = None \<Longrightarrow> exit_mm s = Some s"
  by (simp add: exit_mm_def)

lemma do_kill_ok:
  assumes "os_inv s ps" "\<forall>p\<in>set ps. wait_state (procs (kern s) p) AND WT_INTERRUPTED \<noteq> 0 \<longrightarrow> state (procs (kern s) p) \<noteq> PROC_ZOMBIE"
  shows "\<exists>r s'. do_kill default_sched_class n s = Some (r, s') \<and> os_inv s' ps \<and>
    (case find_proc n (kern s) of
       Some (Some p) \<Rightarrow>
         if pflags (procs (kern s) p) AND PF_EXITING = 0
         then r = 0 \<and> pflags (procs (kern s') p) = pflags (procs (kern s) p) OR PF_EXITING \<and>
           (wait_state (procs (kern s) p) AND WT_INTERRUPTED \<noteq> 0 \<longrightarrow> state (procs (kern s') p) = PROC_RUNNABLE)
         else r = - E_KILLED \<and> s' = s
     | _ \<Rightarrow> r = - E_INVAL \<and> s' = s)"
proof -
  obtain r where r: "find_proc n (kern s) = Some r" "\<forall>p. r = Some p \<longleftrightarrow> p \<in> set ps \<and> pid (procs (kern s) p) = n"
    using find_proc_ok [of "kern s" ps n] assms(1) by (auto simp: proc_table_def os_inv_def)
  show ?thesis
  proof (cases r)
    case None
    then show ?thesis using r(1) assms(1) by (simp add: do_kill_def)
  next
    case (Some p)
    show ?thesis
    proof (cases "pflags (procs (kern s) p) AND PF_EXITING = 0")
      case True
      define k where "k = upd_proc p (\<lambda>x. x\<lparr>pflags := pflags x OR PF_EXITING\<rparr>) (kern s)"
      have "unseen (kern s) k" "waiting_to_run k = waiting_to_run (kern s)"
        by (auto simp: k_def unseen_def waiting_to_run_def)
      then have "sched_inv RR_ready k" using RR.ready_unseen assms(1) by (auto simp: os_inv_def sched_inv_def)
      moreover have "proc_table k ps"
        by (rule proc_table_local [of "kern s"]) (use assms(1) in \<open>auto simp: k_def os_inv_def same_family_def\<close>)
      ultimately obtain k' where k': "(if wait_state (procs k p) AND WT_INTERRUPTED \<noteq> 0 then wakeup_proc default_sched_class p k else Some k) = Some k'"
        "proc_table k' ps" "sched_inv RR_ready k'" "wakeup_frame p k k'"
        "wait_state (procs k p) AND WT_INTERRUPTED \<noteq> 0 \<longrightarrow> state (procs k' p) = PROC_RUNNABLE"
        using wake_if [of k ps "wait_state (procs k p) AND WT_INTERRUPTED \<noteq> 0" p] r(2) Some assms(2) by (auto simp: k_def)
      have "do_kill default_sched_class n s = Some (0, s\<lparr>kern := k'\<rparr>)"
        using r(1) Some True k'(1) by (auto simp: do_kill_def k_def Let_def split: if_splits)
      moreover have "os_inv (s\<lparr>kern := k'\<rparr>) ps" using k' assms(1) by (simp add: os_inv_def wakeup_frame_def k_def)
      moreover have "pflags (procs k' p) = pflags (procs (kern s) p) OR PF_EXITING"
        using k'(4) by (simp add: wakeup_frame_def same_table_def k_def)
      ultimately show ?thesis using r(1) Some True k'(5) by (auto simp: k_def)
    next
      case False
      then show ?thesis using r(1) Some assms(1) by (simp add: do_kill_def)
    qed
  qed
qed

subsection \<open>Properties\<close>

definition boot_files :: "unit files_state" where
  "boot_files = \<lparr>inodes = \<lambda>_. \<lparr>ref_count = 0, open_count = 0, in_ops = sfs_node_dirops\<rparr>,
     filess = \<lambda>_. \<lparr>pwd = None, fd_array = map demo_slot [0..<FILES_STRUCT_NENTRY], files_count = 1\<rparr>,
     cur_files = 7, calls = [], world = ()\<rparr>"

definition boot_os :: "unit os" where
  "boot_os = \<lparr>kern = upd_proc 0 (\<lambda>x. x\<lparr>filesp := Some 7\<rparr>) boot_kernel, boot_pgdir_pa = 9,
     mm_count = (\<lambda>_. 0), mm_pgdir = (\<lambda>_. 0), ftab = boot_files, held = {FilesMem 7}\<rparr>"

definition boot_env :: fork_env where
  "boot_env = \<lparr>e_proc = Some 5, e_kstack = Some 50, e_mm = None, e_pgdir = None, e_dup_mmap = 0, e_files = Some 8\<rparr>"

lemma boot_files_ok: "finite F \<Longrightarrow> tables_ok F boot_files" "nentry t boot_files = FILES_STRUCT_NENTRY"
proof -
  have sl: "slot t i boot_files = demo_slot i" if "i < FILES_STRUCT_NENTRY" for t i
    using that by (simp add: slot_def boot_files_def)
  show n: "nentry t boot_files = FILES_STRUCT_NENTRY" for t by (simp add: nentry_def boot_files_def)
  have "slots_of F boot_files = F \<times> {..<FILES_STRUCT_NENTRY}" by (simp add: slots_of_def n)
  then have "opens F boot_files m = 0" for m
    unfolding opens_def by (intro sum.neutral) (auto simp: sl holds_def demo_slot_def)
  moreover have "pwds F boot_files m = 0" for m by (simp add: pwds_def boot_files_def)
  moreover have "slot_ok i (slot t i boot_files)" if "i < FILES_STRUCT_NENTRY" for t i
    by (simp add: sl that slot_ok_def demo_slot_def)
  ultimately show "finite F \<Longrightarrow> tables_ok F boot_files"
    by (simp add: tables_ok_def tables_inv_def n) (simp add: boot_files_def pin_def known_ops_def sfs_node_dirops_def)
qed

lemma boot_os_inv: "os_inv boot_os []"
proof -
  have "waiting_to_run (kern boot_os) = waiting_to_run boot_kernel" "unseen boot_kernel (kern boot_os)"
    by (auto simp: boot_os_def waiting_to_run_def unseen_def)
  then have "sched_inv RR_ready (kern boot_os)"
    using boot_inv RR.ready_unseen by (auto simp: sched_inv_def)
  moreover have "proc_table (kern boot_os) []"
    by (rule proc_table_local [OF boot_table]) (auto simp: boot_os_def same_family_def)
  moreover have "files_ok boot_os"
    using boot_files_ok by (simp add: files_ok_def live_tables_def boot_os_def)
  ultimately show ?thesis by (simp add: os_inv_def boot_os_def boot_sel)
qed

text \<open>C1: \<^verbatim>\<open>do_fork\<close> either succeeds completely or leaves no trace. It always returns. With a negative
  result (no slot, no memory at any of the allocations, an error of \<^verbatim>\<open>dup_mmap\<close>) every object allocated on the way is freed
  again, the reference counts, the file tables and the inodes are as before, and nothing else has changed but the freed
  record of the new process and the \<^verbatim>\<open>wait_state\<close> of the caller, which may be 0 now (\<open>quiet\<close>): all other process records, lists,
  timers, semaphores and counters are the same. A positive result is the pid of a new runnable child of the caller, which
  \<^verbatim>\<open>find_proc\<close> finds under that pid. It has a kernel stack of its own; it shares the caller's address space or has a new one, as
  \<^verbatim>\<open>CLONE_VM\<close> says, and shares the caller's file table or has a copy of every slot and of the working directory in a new
  one, as \<^verbatim>\<open>CLONE_FS\<close> says, with the reference counts in step. Process table, run queue, file tables and inode counts keep
  their invariants in every case.\<close>

theorem do_fork_correct:
  assumes "os_inv s ps" "env_fresh env s ps" "current_ok s"
  shows "\<exists>r s'. do_fork default_sched_class env fl s = Some (r, s') \<and>
    (if r < 0
     then os_inv s' ps \<and> same_counts s s' \<and>
       (case e_proc env of None \<Rightarrow> kern s' = kern s | Some p \<Rightarrow> quiet p (kern s) (kern s'))
     else \<exists>p old g. e_proc env = Some p \<and> 0 < r \<and> os_inv s' (p # ps) \<and> find_proc r (kern s') = Some (Some p) \<and>
       state (procs (kern s') p) = PROC_RUNNABLE \<and> parent (procs (kern s') p) = Some (current (kern s)) \<and>
       e_kstack env = Some (kstack (procs (kern s') p)) \<and> child_mm env fl s (mm (procs (kern s') p)) s' \<and>
       filesp (procs (kern s) (current (kern s))) = Some old \<and> filesp (procs (kern s') p) = Some g \<and>
       child_files env fl s old g s') \<and>
    current (kern s') = current (kern s)"
  using do_fork_ok [OF assms] unfolding forked_def .

text \<open>The boot process forks with a copy of its file table, and once more without memory for it.\<close>

lemma boot_fork_ready: "env_fresh (boot_env\<lparr>e_files := f\<rparr>) boot_os [] \<longleftrightarrow> f \<noteq> Some 7" "current_ok boot_os"
proof -
  show "env_fresh (boot_env\<lparr>e_files := f\<rparr>) boot_os [] \<longleftrightarrow> f \<noteq> Some 7"
    by (auto simp: env_fresh_def boot_env_def boot_os_def boot_sel)
  show "current_ok boot_os"
    by (simp add: current_ok_def boot_os_def boot_sel boot_files_def) (simp add: boot_kernel_def sched_init_def RR_init_def)
qed

theorem do_fork_correct_witness:
  "\<exists>r s'. do_fork default_sched_class (boot_env\<lparr>e_files := Some 8\<rparr>) 0 boot_os = Some (r, s') \<and>
    (0 \<le> r \<longrightarrow> child_files (boot_env\<lparr>e_files := Some 8\<rparr>) 0 boot_os 7 8 s' \<and> os_inv s' [5])"
proof -
  have "filesp (procs (kern boot_os) (current (kern boot_os))) = Some 7" by (simp add: boot_os_def boot_sel)
  then show ?thesis
    using do_fork_correct [OF boot_os_inv, of "boot_env\<lparr>e_files := Some 8\<rparr>" 0] boot_fork_ready
    by (auto simp: boot_env_def child_files_def split: if_splits)
qed

text \<open>C2: \<^verbatim>\<open>do_exit\<close> by a process other than the idle process and \<^verbatim>\<open>initproc\<close> ends in another process
  running. The caller is a zombie with its exit code and without children, all its children are now
  children of \<^verbatim>\<open>initproc\<close>, its parent is runnable if it was waiting for a child, and so is \<^verbatim>\<open>initproc\<close> if
  it was waiting and inherits a zombie; table and run queue keep their invariants (\<open>exited\<close>). A process with an address
  space drops one reference to it and one to its file table; with the last reference the address space is freed, and the file table
  gives back every reference to an inode it held and is freed. The remaining file tables keep their invariant.\<close>

theorem do_exit_correct:
  assumes "os_inv s ps" "tree_ok (kern s) ps" "current (kern s) \<in> set ps" "current (kern s) \<noteq> initproc (kern s)"
    and "exit_ready s"
  shows "\<exists>s'. do_exit default_sched_class e s = Some s' \<and> exited s ps e s' \<and> files_ok s' \<and> exit_effect s s'"
  using do_exit_ok [OF assms] .

text \<open>Process 2, a child of \<^verbatim>\<open>initproc\<close> (number 1), is running.\<close>

definition seed :: kernel where
  "seed = upd_proc 2 (\<lambda>x. x\<lparr>parent := Some 1\<rparr>) (upd_proc 1 (\<lambda>x. x\<lparr>parent := Some 0\<rparr>) boot_kernel)"

definition running2 :: "kernel \<Rightarrow> unit os" where
  "running2 k = boot_os\<lparr>kern := upd_proc 2 (\<lambda>x. x\<lparr>state := PROC_RUNNABLE\<rparr>) (k\<lparr>current := 2\<rparr>)\<rparr>"

lemma seed_sel:
  "procs seed p = (procs boot_kernel p)\<lparr>parent := (if p = 2 then Some 1 else if p = 1 then Some 0 else parent (procs boot_kernel p))\<rparr>"
  "idleproc seed = 0" "nr_process seed = 1" "initproc seed = 1" "links seed = links boot_kernel"
  by (simp_all add: seed_def boot_kernel_def sched_init_def RR_init_def)

lemma family2:
  obtains k1 k2 where "enter_table 1 seed = Some k1" "enter_table 2 k1 = Some k2" "proc_table k2 [2, 1]"
    "table_frame seed k2" "\<forall>x. parent (procs k2 x) = parent (procs seed x)"
proof -
  have t0: "proc_table seed []"
    by (rule proc_table_local [OF boot_table]) (auto simp: seed_def same_family_def boot_sel)
  obtain k1 where k1: "enter_table 1 seed = Some k1" "proc_table k1 [1]" "table_frame seed k1"
    "\<forall>x. parent (procs k1 x) = parent (procs seed x)" "cptr (procs k1 2) = None"
    using enter_table_ok [OF t0, of 1 0] by (auto simp: seed_sel boot_counters)
  have "idleproc k1 = 0" using k1(3) by (simp add: table_frame_def seed_sel)
  then obtain k2 where k2: "enter_table 2 k1 = Some k2" "proc_table k2 [2, 1]" "table_frame k1 k2"
    "\<forall>x. parent (procs k2 x) = parent (procs k1 x)"
    using enter_table_ok [OF k1(2), of 2 1] k1(2,4,5) by (auto simp: seed_sel proc_table_def)
  show ?thesis using that [of k1 k2] k1 k2 table_frame_trans [OF k1(3) k2(3)] by auto
qed

lemma running2_ok:
  assumes "proc_table k [2, 1]" "table_frame seed k" "\<forall>x. parent (procs k x) = parent (procs seed x)"
  shows "os_inv (running2 k) [2, 1]" "tree_ok (kern (running2 k)) [2, 1]" "current (kern (running2 k)) = 2"
    "initproc (kern (running2 k)) = 1" "parent (procs (kern (running2 k)) 2) = Some 1"
    "\<forall>x. state (procs (kern (running2 k)) x) \<noteq> PROC_ZOMBIE" "pid (procs (kern (running2 k)) 2) = pid (procs k 2)"
    "exit_ready (running2 k)"
proof -
  note f = assms(2) [unfolded table_frame_def]
  let ?k = "kern (running2 k)"
  have st: "state (procs k x) = (if x = 0 then PROC_RUNNABLE else PROC_SLEEPING)" "wait_state (procs k x) = 0" for x
    using f by (simp_all add: seed_sel boot_sel) (simp add: boot_kernel_def sched_init_def RR_init_def)
  have "unseen k ?k" "unseen seed k" "unseen boot_kernel seed"
    using f by (auto simp: running2_def unseen_def seed_def)
  then have "RR_ready ?k {}"
    using RR.ready_unseen boot_queue unfolding RR_ready_def by (metis list.set(1))
  moreover have "waiting_to_run ?k = {}" using st f by (auto simp: waiting_to_run_def running2_def seed_sel)
  moreover have "proc_table ?k [2, 1]"
    by (rule proc_table_local [OF assms(1)]) (auto simp: running2_def same_family_def)
  moreover have "files_ok (running2 k)" using boot_os_inv by (simp add: running2_def os_inv_def)
  ultimately show "os_inv (running2 k) [2, 1]" by (simp add: os_inv_def sched_inv_def) (simp add: running2_def)
  show "current ?k = 2" "initproc ?k = 1" "parent (procs ?k 2) = Some 1" "pid (procs ?k 2) = pid (procs k 2)"
    using f assms(3) by (simp_all add: running2_def seed_sel)
  show z: "\<forall>x. state (procs ?k x) \<noteq> PROC_ZOMBIE" using st by (simp add: running2_def)
  show "exit_ready (running2 k)"
    using f by (simp add: exit_ready_def running2_def boot_os_def boot_files_def seed_sel boot_sel)
      (simp add: boot_kernel_def sched_init_def RR_init_def)
  show "tree_ok ?k [2, 1]" using z f assms(3) st by (auto simp: tree_ok_def running2_def seed_sel)
qed

theorem do_exit_correct_witness:
  "\<exists>k1 k2. enter_table 1 seed = Some k1 \<and> enter_table 2 k1 = Some k2 \<and>
    (\<exists>s'. do_exit default_sched_class 77 (running2 k2) = Some s' \<and> exited (running2 k2) [2, 1] 77 s' \<and>
       files_ok s' \<and> exit_effect (running2 k2) s')"
proof -
  obtain k1 k2 where k: "enter_table 1 seed = Some k1" "enter_table 2 k1 = Some k2" "proc_table k2 [2, 1]"
    "table_frame seed k2" "\<forall>x. parent (procs k2 x) = parent (procs seed x)" using family2 .
  have "\<exists>s'. do_exit default_sched_class 77 (running2 k2) = Some s' \<and> exited (running2 k2) [2, 1] 77 s' \<and>
    files_ok s' \<and> exit_effect (running2 k2) s'"
    by (rule do_exit_correct) (use running2_ok [OF k(3-5)] in auto)
  then show ?thesis using k(1,2) by blast
qed

text \<open>C3: exit and wait together. After a process has exited with code \<open>e\<close>, the next round of
  \<^verbatim>\<open>do_wait\<close> for it by its parent (whenever the parent runs again and the table has not changed) returns 0
  with exactly that code, removes the process from the table, and frees its memory and kernel stack.\<close>

theorem exit_wait_handshake:
  assumes "os_inv s ps" "tree_ok (kern s) ps"
    and "current (kern s) = c" "c \<in> set ps" "c \<noteq> initproc (kern s)" "parent (procs (kern s) c) = Some par"
    and "do_exit default_sched_class e s = Some s1"
  shows "\<exists>s2. do_wait default_sched_class True (pid (procs (kern s) c)) (s1\<lparr>kern := (kern s1)\<lparr>current := par\<rparr>\<rparr>) = Some (Returned 0 (Some e), s2) \<and>
    proc_table (kern s2) (filter (\<lambda>x. x \<noteq> c) ps) \<and> find_proc (pid (procs (kern s) c)) (kern s2) = Some None \<and>
    ProcMem c \<notin> held s2 \<and> KStack (kstack (procs (kern s1) c)) \<notin> held s2"
proof -
  have mm: "exit_mm s \<noteq> None" using assms(7) by (cases "exit_mm s") (simp_all add: do_exit_def)
  have ex: "exited s ps e s1"
    using do_exit_kern [OF assms(1,2), of _ e] assms(3-5,7) mm by fastforce
  note x = ex [unfolded exited_def Let_def assms(3)]
  let ?s = "s1\<lparr>kern := (kern s1)\<lparr>current := par\<rparr>\<rparr>"
  have tab: "proc_table (kern ?s) ps" by (rule proc_table_local [of "kern s1"]) (use x in \<open>auto simp: same_family_def\<close>)
  have par: "par \<in> set (idleproc (kern ?s) # ps)"
  proof -
    have "\<exists>q\<in>set (idleproc (kern s1) # ps). parent (procs (kern s1) c) = Some q"
      using x assms(4) unfolding proc_table_def family_inv_def by blast
    then show ?thesis using x assms(6) by auto
  qed
  let ?n = "pid (procs (kern s) c)"
  have n: "pid (procs (kern s1) c) = ?n" using x by simp
  then have "0 < ?n" using x assms(4) by (auto simp: proc_table_def)
  then have "wanted ?n (kern ?s) ps = {c}"
    using x assms(4,6) n by (auto simp: wanted_def children_def proc_table_def dest: inj_onD)
  moreover obtain z where "wait_search ?n (kern ?s) = Some (wanted ?n (kern ?s) ps \<noteq> {}, z)"
    "case z of Some p \<Rightarrow> p \<in> wanted ?n (kern ?s) ps \<and> state (procs (kern ?s) p) = PROC_ZOMBIE
     | None \<Rightarrow> \<forall>p\<in>wanted ?n (kern ?s) ps. state (procs (kern ?s) p) \<noteq> PROC_ZOMBIE"
    using wait_search_ok [OF tab, of ?n] par by auto
  ultimately have w: "wait_search ?n (kern ?s) = Some (True, Some c)" using x by (auto split: option.splits)
  have "\<exists>s2. do_wait default_sched_class True ?n ?s = Some (Returned 0 (Some (exit_code (procs (kern ?s) c))), s2) \<and>
    proc_table (kern s2) (filter (\<lambda>x. x \<noteq> c) ps) \<and> table_frame (kern ?s) (kern s2) \<and>
    find_proc (pid (procs (kern ?s) c)) (kern s2) = Some None \<and>
    held s2 = held ?s - {ProcMem c, KStack (kstack (procs (kern ?s) c))}"
    by (rule do_wait_reap [OF tab _ w assms(4)]) (use x assms(5) in \<open>auto simp: children_def\<close>)
  then show ?thesis using x n by auto
qed

theorem exit_wait_handshake_witness:
  "\<exists>k1 k2 s1. enter_table 1 seed = Some k1 \<and> enter_table 2 k1 = Some k2 \<and>
    do_exit default_sched_class 77 (running2 k2) = Some s1 \<and>
    (\<exists>s2. do_wait default_sched_class True (pid (procs (kern (running2 k2)) 2)) (s1\<lparr>kern := (kern s1)\<lparr>current := 1\<rparr>\<rparr>) =
        Some (Returned 0 (Some 77), s2) \<and>
      proc_table (kern s2) (filter (\<lambda>x. x \<noteq> 2) [2, 1]) \<and> find_proc (pid (procs (kern (running2 k2)) 2)) (kern s2) = Some None \<and>
      ProcMem 2 \<notin> held s2 \<and> KStack (kstack (procs (kern s1) 2)) \<notin> held s2)"
proof -
  obtain k1 k2 where k: "enter_table 1 seed = Some k1" "enter_table 2 k1 = Some k2" "proc_table k2 [2, 1]"
    "table_frame seed k2" "\<forall>x. parent (procs k2 x) = parent (procs seed x)" using family2 .
  note r = running2_ok [OF k(3-5)]
  obtain s1 where s1: "do_exit default_sched_class 77 (running2 k2) = Some s1"
    using do_exit_ok [OF r(1,2) _ _ r(8), of 77] r(3,4) by auto
  show ?thesis
    using exit_wait_handshake [OF r(1-3) _ _ r(5) s1] k(1,2) s1 r(4) by auto
qed

end
