(* ===== verification/Stride.thy ===== *)
theory Stride
  imports Sched
begin

section \<open>The stride scheduling class (schedule/default\_sched\_stride.c)\<close>

text \<open>
  The run queue is a skew heap of processes, ordered by the signed 32-bit difference of their strides.
  The comparison is an order only while all queued strides lie in a window of \<^verbatim>\<open>BIG_STRIDE\<close>; the
  scheduling class keeps that window as long as a process that is woken up fits into it. With that the
  class meets the contract \<open>sched_policy\<close>. Division by the priority 0 is undefined (\<open>None\<close>).
\<close>

subsection \<open>Operations\<close>

definition BIG_STRIDE :: "32 word" where "BIG_STRIDE = 2 ^ 30"

definition proc_stride_comp_f :: "kernel \<Rightarrow> nat \<Rightarrow> nat \<Rightarrow> int" where
  "proc_stride_comp_f k p q = (
     let c = sint (lab6_stride (procs k p) - lab6_stride (procs k q))
     in if 0 < c then 1 else if c = 0 then 0 else - 1)"

definition stride_init :: "kernel \<Rightarrow> kernel" where
  "stride_init k = (upd_klinks (list_init RunList) k)\<lparr>lab6_run_pool := None, proc_num := 0\<rparr>"

definition stride_enqueue :: "nat \<Rightarrow> kernel \<Rightarrow> kernel option" where
  "stride_enqueue p k = do {
     (r, h) \<leftarrow> skew_heap_insert (proc_stride_comp_f k) (lab6_run_pool k) p (pool k);
     let k = k\<lparr>pool := h, lab6_run_pool := r\<rparr>;
     let k = refill_slice p k;
     let k = upd_proc p (\<lambda>x. x\<lparr>rq := True\<rparr>) k;
     Some (k\<lparr>proc_num := proc_num k + 1\<rparr>)
   }"

definition stride_dequeue :: "nat \<Rightarrow> kernel \<Rightarrow> kernel option" where
  "stride_dequeue p k = do {
     massert (rq (procs k p) \<and> 0 < proc_num k);
     (r, h) \<leftarrow> skew_heap_remove (proc_stride_comp_f k) (lab6_run_pool k) p (pool k);
     let k = k\<lparr>pool := h, lab6_run_pool := r\<rparr>;
     Some (k\<lparr>proc_num := proc_num k - 1\<rparr>)
   }"

definition stride_pick_next :: "kernel \<Rightarrow> (nat option \<times> kernel) option" where
  "stride_pick_next k =
     (case lab6_run_pool k of
        None \<Rightarrow> Some (None, k)
      | Some p \<Rightarrow>
          if lab6_priority (procs k p) = 0 then None
          else Some (Some p, upd_proc p (\<lambda>x. x\<lparr>lab6_stride := lab6_stride x + BIG_STRIDE div lab6_priority x\<rparr>) k))"

definition stride_proc_tick :: "nat \<Rightarrow> kernel \<Rightarrow> kernel" where
  "stride_proc_tick p k = (
     let k = (if 0 < time_slice (procs k p)
              then upd_proc p (\<lambda>x. x\<lparr>time_slice := time_slice x - 1\<rparr>) k else k)
     in if time_slice (procs k p) = 0 then upd_proc p (\<lambda>x. x\<lparr>need_resched := True\<rparr>) k else k)"

definition stride_sched_class :: sched_class where
  "stride_sched_class = \<lparr>sc_init = stride_init, sc_enqueue = stride_enqueue, sc_dequeue = stride_dequeue,
     sc_pick_next = stride_pick_next, sc_proc_tick = stride_proc_tick\<rparr>"

lemma stride_sched_class_simps [simp]:
  "sc_enqueue stride_sched_class = stride_enqueue" "sc_dequeue stride_sched_class = stride_dequeue"
  "sc_pick_next stride_sched_class = stride_pick_next" "sc_init stride_sched_class = stride_init"
  by (simp_all add: stride_sched_class_def)

subsection \<open>The window of strides\<close>

definition strides_within :: "kernel \<Rightarrow> 32 word \<Rightarrow> nat set \<Rightarrow> bool" where
  "strides_within k b A \<longleftrightarrow> (\<forall>p\<in>A. uint (lab6_stride (procs k p) - b) \<le> 2 ^ 30)"

lemma window_diff: "0 \<le> x \<Longrightarrow> 0 \<le> y \<Longrightarrow> x \<le> 2 ^ 30 \<Longrightarrow> y \<le> 2 ^ 30 \<Longrightarrow> - (2 ^ 31) \<le> x - y \<and> x - y < (2 ^ 31 :: int) \<and> x - y \<le> 2 ^ 30"
  by simp

lemma stride_diff:
  assumes "strides_within k b A" "p \<in> A" "q \<in> A"
  shows "sint (lab6_stride (procs k p) - lab6_stride (procs k q)) =
    uint (lab6_stride (procs k p) - b) - uint (lab6_stride (procs k q) - b)"
proof -
  let ?x = "lab6_stride (procs k p) - b" and ?y = "lab6_stride (procs k q) - b"
  have "lab6_stride (procs k p) - lab6_stride (procs k q) = ?x - ?y" by simp
  also have "\<dots> = word_of_int (uint ?x - uint ?y)" by simp
  finally have "sint (lab6_stride (procs k p) - lab6_stride (procs k q)) = sint (word_of_int (uint ?x - uint ?y) :: 32 word)"
    by simp
  moreover have "uint ?x \<le> 2 ^ 30" "uint ?y \<le> 2 ^ 30" using assms by (auto simp: strides_within_def)
  then have "- (2 ^ 31) \<le> uint ?x - uint ?y \<and> uint ?x - uint ?y < 2 ^ 31"
    using window_diff [OF uint_ge_0 uint_ge_0] by blast
  ultimately show ?thesis using sint_small32 by metis
qed

lemma stride_less_iff:
  assumes "strides_within k b A" "p \<in> A" "q \<in> A"
  shows "proc_stride_comp_f k p q = - 1 \<longleftrightarrow> uint (lab6_stride (procs k p) - b) < uint (lab6_stride (procs k q) - b)"
  using stride_diff [OF assms] by (auto simp: proc_stride_comp_f_def Let_def)

lemma stride_compares: "strides_within k b A \<Longrightarrow> compares (proc_stride_comp_f k) A"
  unfolding compares_def by (auto simp: stride_less_iff)

definition strides_window :: "kernel \<Rightarrow> nat set \<Rightarrow> bool" where
  "strides_window k A \<longleftrightarrow> (\<exists>b. strides_within k b A)"

definition stride_ready :: "kernel \<Rightarrow> nat set \<Rightarrow> bool" where
  "stride_ready k A \<longleftrightarrow> pq_rep (proc_stride_comp_f k) (pool k) (lab6_run_pool k) A \<and> strides_window k A \<and>
     (\<forall>p\<in>A. lab6_priority (procs k p) \<noteq> 0 \<and> rq (procs k p)) \<and> proc_num k = of_nat (card A) \<and> card A < 2 ^ 32"

definition stride_fit :: "kernel \<Rightarrow> nat \<Rightarrow> nat set \<Rightarrow> bool" where
  "stride_fit k p A \<longleftrightarrow> strides_window k (insert p A) \<and> lab6_priority (procs k p) \<noteq> 0 \<and> card A + 1 < 2 ^ 32"

definition stride_best :: "kernel \<Rightarrow> nat \<Rightarrow> nat set \<Rightarrow> bool" where
  "stride_best k p A \<longleftrightarrow> (\<forall>q\<in>A. proc_stride_comp_f k q p \<noteq> - 1)"

lemma comp_cong:
  "(\<And>p. lab6_stride (procs k' p) = lab6_stride (procs k p)) \<Longrightarrow> proc_stride_comp_f k' = proc_stride_comp_f k"
  by (simp add: proc_stride_comp_f_def fun_eq_iff)

lemma strides_within_cong:
  "strides_within k b A \<Longrightarrow> (\<And>p. p \<in> A \<Longrightarrow> lab6_stride (procs k' p) = lab6_stride (procs k p)) \<Longrightarrow> strides_within k' b A"
  by (simp add: strides_within_def)

lemma stride_ready_unseen:
  assumes "stride_ready k A" "unseen k k'"
  shows "stride_ready k' A"
  using assms comp_cong [of k' k] strides_within_cong [of k _ A k']
  by (fastforce simp: stride_ready_def unseen_def strides_window_def)

lemma stride_enqueue_ok:
  assumes "stride_ready k A" "p \<notin> A" "stride_fit k p A"
  shows "\<exists>k'. stride_enqueue p k = Some k' \<and> stride_ready k' (insert p A) \<and> policy_frame k k'"
proof -
  let ?c = "proc_stride_comp_f k"
  have rep: "pq_rep ?c (pool k) (lab6_run_pool k) A" and fin: "finite A"
    using assms(1) skew.rep_finite by (auto simp: stride_ready_def)
  have "compares ?c (insert p A)" using assms(3) stride_compares by (auto simp: stride_fit_def strides_window_def)
  then obtain r h where rh: "skew_heap_insert ?c (lab6_run_pool k) p (pool k) = Some (r, h)" "pq_rep ?c h r (insert p A)"
    using skew.ins_ok [OF rep assms(2)] by blast
  define k1 where "k1 = refill_slice p (k\<lparr>pool := h, lab6_run_pool := r\<rparr>)"
  define k' where "k' = (upd_proc p (\<lambda>x. x\<lparr>rq := True\<rparr>) k1)\<lparr>proc_num := proc_num k1 + 1\<rparr>"
  have e: "stride_enqueue p k = Some k'" using rh(1) by (simp add: stride_enqueue_def k'_def k1_def Let_def)
  have f: "lab6_stride (procs k' x) = lab6_stride (procs k x)" "lab6_priority (procs k' x) = lab6_priority (procs k x)"
    "rq (procs k' x) = (x = p \<or> rq (procs k x))" "pool k' = h" "lab6_run_pool k' = r" "proc_num k' = proc_num k + 1" for x
    by (simp_all add: k'_def k1_def refill_slice_def)
  have "stride_ready k' (insert p A)"
    using assms rh(2) comp_cong [OF f(1)] strides_within_cong [of k _ "insert p A" k'] fin f
    by (auto simp: stride_ready_def stride_fit_def strides_window_def)
  moreover have "policy_frame k k'"
  proof (rule policy_frameI)
    show "\<exists>ts r st. procs k' x = (procs k x)\<lparr>time_slice := ts, rq := r, lab6_stride := st\<rparr>" for x
      by (rule own_fieldsI) (simp add: k'_def k1_def refill_slice_def)
  qed (simp_all add: k'_def k1_def refill_slice_def upd_proc_def)
  ultimately show ?thesis using e by blast
qed

lemma pass_bound: "uint (BIG_STRIDE div q) \<le> 2 ^ 30"
proof -
  have "unat (BIG_STRIDE div q) \<le> unat BIG_STRIDE" by (simp add: unat_div_distrib)
  also have "unat BIG_STRIDE = 2 ^ 30" by (simp add: BIG_STRIDE_def)
  finally have "int (unat (BIG_STRIDE div q)) \<le> int (2 ^ 30)" by (simp only: of_nat_le_iff)
  then show ?thesis by simp
qed

text \<open>If \<open>m\<close> has the least stride of a queue, the queue lies in the window that starts there.\<close>

lemma window_at_least:
  assumes "strides_within k b A" "m \<in> A" "\<forall>x\<in>A. x = m \<or> proc_stride_comp_f k x m \<noteq> - 1"
  shows "strides_within k (lab6_stride (procs k m)) A"
  unfolding strides_within_def
proof
  fix p assume p: "p \<in> A"
  let ?s = "\<lambda>p. lab6_stride (procs k p)"
  have le: "uint (?s m - b) \<le> uint (?s p - b)"
    using assms(3) p stride_less_iff [OF assms(1) p assms(2)] by (cases "p = m") auto
  have "?s p - ?s m = (?s p - b) - (?s m - b)" by simp
  also have "uint \<dots> = uint (?s p - b) - uint (?s m - b)" using iffD1 [OF uint_sub_lem le] .
  finally show "uint (?s p - ?s m) \<le> 2 ^ 30" 
    using assms(1,2) p window_diff [OF uint_ge_0 uint_ge_0, of "?s p - b" "?s m - b"] unfolding strides_within_def by metis
qed

lemma stride_pick_ok:
  assumes "stride_ready k A" "A \<noteq> {}"
  shows "\<exists>p k' k''. stride_pick_next k = Some (Some p, k') \<and> stride_dequeue p k' = Some k'' \<and> p \<in> A \<and>
    stride_best k p A \<and> stride_ready k'' (A - {p}) \<and> policy_frame k k'' \<and>
    lab6_stride (procs k'' p) = lab6_stride (procs k p) + BIG_STRIDE div lab6_priority (procs k p) \<and>
    stride_fit k'' p (A - {p})"
proof -
  note r = assms(1) [unfolded stride_ready_def]
  obtain p where p: "lab6_run_pool k = Some p" using r assms(2) by (cases "lab6_run_pool k") (simp_all add: pq_rep_empty)
  have rep: "pq_rep (proc_stride_comp_f k) (pool k) (Some p) A" using r p by simp
  have pA: "p \<in> A" and least: "\<forall>x\<in>A. x = p \<or> proc_stride_comp_f k x p \<noteq> - 1" using skew.rep_root [OF rep] by auto
  have fin: "finite A" using skew.rep_finite [OF rep] .
  obtain b where b: "strides_within k b A" using r by (auto simp: strides_window_def)
  define k1 where "k1 = upd_proc p (\<lambda>x. x\<lparr>lab6_stride := lab6_stride x + BIG_STRIDE div lab6_priority x\<rparr>) k"
  have pick: "stride_pick_next k = Some (Some p, k1)" using p r pA by (simp add: stride_pick_next_def k1_def)
  have same: "lab6_stride (procs k1 x) = lab6_stride (procs k x)" if "x \<noteq> p" for x using that by (simp add: k1_def)
  have cmp: "\<forall>x\<in>A - {p}. \<forall>y\<in>A - {p}. proc_stride_comp_f k1 x y = proc_stride_comp_f k x y"
    using same by (simp add: proc_stride_comp_f_def)
  have "compares (proc_stride_comp_f k) (A - {p})" using compares_mono [OF stride_compares [OF b]] by blast
  from skew.rem_root_ok [OF rep this cmp] obtain r' h' where
    rm: "skew_heap_remove (proc_stride_comp_f k1) (Some p) p (pool k) = Some (r', h')" "pq_rep (proc_stride_comp_f k1) h' r' (A - {p})"
    by blast
  define k2 where "k2 = k1\<lparr>pool := h', lab6_run_pool := r', proc_num := proc_num k1 - 1\<rparr>"
  have card: "0 < card A" "card (A - {p}) = card A - 1" using fin pA assms(2) by (auto simp: card_gt_0_iff)
  have "0 < proc_num k"
    using r card(1) by (simp add: word_gt_0 word_of_nat_eq_0_iff) (metis nat_dvd_not_less)
  then have deq: "stride_dequeue p k1 = Some k2"
    using rm(1) r pA p by (simp add: stride_dequeue_def k1_def k2_def Let_def)
  have w: "strides_within k2 (lab6_stride (procs k p)) A"
  proof -
    have "strides_within k (lab6_stride (procs k p)) A" by (rule window_at_least [OF b pA least])
    then show ?thesis using pass_bound same by (auto simp: strides_within_def k2_def k1_def)
  qed
  have "stride_ready k2 (A - {p})"
  proof -
    have "strides_window k2 (A - {p})" using w by (auto simp: strides_window_def strides_within_def)
    moreover have "proc_stride_comp_f k2 = proc_stride_comp_f k1" by (rule comp_cong) (simp add: k2_def)
    ultimately show ?thesis using r rm(2) card by (auto simp: stride_ready_def k2_def k1_def of_nat_diff)
  qed
  moreover have "policy_frame k k2"
  proof (rule policy_frameI)
    show "\<exists>ts r st. procs k2 x = (procs k x)\<lparr>time_slice := ts, rq := r, lab6_stride := st\<rparr>" for x
      by (rule own_fieldsI) (simp add: k2_def k1_def)
  qed (simp_all add: k2_def k1_def upd_proc_def)
  moreover have "stride_best k p A" using least by (auto simp: stride_best_def proc_stride_comp_f_def)
  moreover have "stride_fit k2 p (A - {p})"
    using w r card pA by (auto simp: stride_fit_def strides_window_def insert_absorb k2_def k1_def)
  ultimately show ?thesis using pick deq pA by (auto simp: k2_def k1_def)
qed

interpretation stride: sched_policy stride_sched_class stride_ready stride_fit stride_best
proof
  show "stride_ready k A \<Longrightarrow> unseen k k' \<Longrightarrow> stride_ready k' A" for k A k' by (rule stride_ready_unseen)
  show "stride_fit k p A \<Longrightarrow> unseen k k' \<Longrightarrow> stride_fit k' p A" for k p A k'
    using strides_within_cong [of k _ "insert p A" k'] by (auto simp: stride_fit_def strides_window_def unseen_def)
  show "stride_best k p A \<Longrightarrow> unseen k k' \<Longrightarrow> stride_best k' p A" for k p A k'
    using comp_cong [of k' k] by (auto simp: stride_best_def unseen_def)
  show "stride_best k q B" if "sc_enqueue stride_sched_class p k = Some k'" "stride_best k' q B" for k p k' q B
  proof -
    have "lab6_stride (procs k' x) = lab6_stride (procs k x)" for x
      using that(1) by (auto simp: stride_enqueue_def refill_slice_def Let_def split: if_splits elim!: bind_SomeE)
    then show ?thesis using that(2) comp_cong [of k' k] by (simp add: stride_best_def)
  qed
  show "stride_ready k A \<Longrightarrow> p \<notin> A \<Longrightarrow> stride_fit k p A \<Longrightarrow>
      \<exists>k'. sc_enqueue stride_sched_class p k = Some k' \<and> stride_ready k' (insert p A) \<and> policy_frame k k'" for k A p
    using stride_enqueue_ok by simp
  show "stride_ready k {} \<Longrightarrow> sc_pick_next stride_sched_class k = Some (None, k)" for k
    using skew.rep_root by (cases "lab6_run_pool k") (fastforce simp: stride_ready_def stride_pick_next_def)+
  show "\<exists>p k' k''. sc_pick_next stride_sched_class k = Some (Some p, k') \<and> sc_dequeue stride_sched_class p k' = Some k'' \<and>
        p \<in> A \<and> stride_best k p A \<and> stride_ready k'' (A - {p}) \<and> stride_fit k'' p (A - {p}) \<and> policy_frame k k''"
    if "stride_ready k A" "A \<noteq> {}" for k A
    using stride_pick_ok [OF that] by auto
qed

subsection \<open>Properties\<close>

definition stride_inv :: "kernel \<Rightarrow> bool" where
  "stride_inv k \<longleftrightarrow> sched_inv stride_ready k \<and>
     (current k \<in> contenders k \<longrightarrow> stride_fit k (current k) (waiting_to_run k))"

definition stride_boot :: kernel where
  "stride_boot = sched_init stride_sched_class boot_kernel"

lemma stride_boot_sel:
  "procs stride_boot = procs boot_kernel" "current stride_boot = 0" "idleproc stride_boot = 0"
  "pool stride_boot = pool boot_kernel" "lab6_run_pool stride_boot = None" "proc_num stride_boot = 0"
  by (simp_all add: stride_boot_def sched_init_def stride_init_def boot_sel)

lemma stride_boot_inv: "stride_inv stride_boot"
proof -
  have "waiting_to_run stride_boot = {}" "current stride_boot \<notin> contenders stride_boot"
    by (auto simp: waiting_to_run_def contenders_def stride_boot_sel boot_sel)
  then show ?thesis
    by (simp add: stride_inv_def sched_inv_def stride_ready_def stride_boot_sel pq_rep_empty strides_window_def strides_within_def)
qed

text \<open>Of the parts of \<^verbatim>\<open>schedule\<close> only the choice changes a stride, and it changes the one of the chosen process.\<close>

lemma enqueue_strides:
  assumes "stride_enqueue p k = Some k'"
  shows "lab6_stride (procs k' q) = lab6_stride (procs k q)" "lab6_priority (procs k' q) = lab6_priority (procs k q)"
    "current k' = current k" "idleproc k' = idleproc k"
  using assms by (auto simp: stride_enqueue_def refill_slice_def Let_def split: if_splits elim!: bind_SomeE)

lemma dequeue_strides:
  assumes "stride_dequeue p k = Some k'"
  shows "procs k' = procs k" "current k' = current k" "idleproc k' = idleproc k"
  using assms by (auto simp: stride_dequeue_def Let_def split: if_splits elim!: bind_SomeE)

lemma run_strides: "lab6_stride (procs (proc_run p k) q) = lab6_stride (procs k q)" "current (proc_run p k) = p"
  by (simp_all add: proc_run_def)

lemma schedule_strides:
  assumes "schedule stride_sched_class k = Some k'" and "current k' \<noteq> idleproc k"
  shows "lab6_stride (procs k' q) = lab6_stride (procs k q) +
    (if q = current k' then BIG_STRIDE div lab6_priority (procs k q) else 0)"
proof -
  let ?k = "upd_proc (current k) (\<lambda>x. x\<lparr>need_resched := False\<rparr>) k"
  let ?enq = "if state (procs ?k (current ?k)) = PROC_RUNNABLE then sched_class_enqueue stride_sched_class (current ?k) ?k else Some ?k"
  obtain k1 where k1: "?enq = Some k1" and rest: "do {
      (nxt, k) \<leftarrow> stride_pick_next k1;
      k \<leftarrow> (case nxt of Some p \<Rightarrow> stride_dequeue p k | None \<Rightarrow> Some k);
      let p = (case nxt of Some p \<Rightarrow> p | None \<Rightarrow> idleproc k);
      let k = upd_proc p (\<lambda>x. x\<lparr>runs := runs x + 1\<rparr>) k;
      Some (if p \<noteq> current k then proc_run p k else k) } = Some k'"
    using assms(1) unfolding schedule_def sched_class_pick_next_def sched_class_dequeue_def stride_sched_class_simps Let_def
    by (rule bind_SomeE) blast
  have same: "lab6_stride (procs k1 x) = lab6_stride (procs k x)" "lab6_priority (procs k1 x) = lab6_priority (procs k x)"
    "current k1 = current k" "idleproc k1 = idleproc k" for x
    using k1 enqueue_strides [of "current k" ?k k1]
    by (auto simp: sched_class_enqueue_def split: if_splits)
  show ?thesis
  proof (cases "lab6_run_pool k1")
    case None
    then show ?thesis using rest assms(2) same by (auto simp: stride_pick_next_def Let_def proc_run_def split: if_splits)
  next
    case (Some p)
    let ?k2 = "upd_proc p (\<lambda>x. x\<lparr>lab6_stride := lab6_stride x + BIG_STRIDE div lab6_priority x\<rparr>) k1"
    obtain k3 where k3: "stride_dequeue p ?k2 = Some k3"
      and k': "k' = (let k = upd_proc p (\<lambda>x. x\<lparr>runs := runs x + 1\<rparr>) k3 in if p \<noteq> current k then proc_run p k else k)"
      using rest Some by (auto simp: stride_pick_next_def Let_def split: if_splits elim!: bind_SomeE)
    have "current k' = p" "lab6_stride (procs k' q) = lab6_stride (procs k3 q)"
      unfolding k' Let_def by (auto simp: run_strides)
    then show ?thesis using dequeue_strides(1) [OF k3] same by auto
  qed
qed

text \<open>C8: the stride scheduler. With the strides of all contenders in a window of \<^verbatim>\<open>BIG_STRIDE\<close>, the
  comparison of wrapped 32-bit strides is an order and \<^verbatim>\<open>schedule\<close> runs a process whose stride is least. The stride of the
  chosen process is advanced by \<^verbatim>\<open>BIG_STRIDE\<close> divided by its priority, the others keep theirs; afterwards the strides
  lie in such a window again, so the invariant is kept for ever, through any number of overflows.\<close>

theorem stride_schedule_correct:
  assumes "stride_inv k"
  shows "\<exists>k'. schedule stride_sched_class k = Some k' \<and> stride_inv k' \<and>
    (if contenders k = {} then current k' = idleproc k
     else current k' \<in> contenders k \<and>
       (\<forall>q\<in>contenders k. 0 \<le> sint (lab6_stride (procs k q) - lab6_stride (procs k (current k')))) \<and>
       (\<forall>q. lab6_stride (procs k' q) = lab6_stride (procs k q) +
          (if q = current k' then BIG_STRIDE div lab6_priority (procs k q) else 0)))"
proof -
  have "sched_inv stride_ready k" "current k \<in> contenders k \<Longrightarrow> stride_fit k (current k) (waiting_to_run k)"
    using assms by (auto simp: stride_inv_def)
  from stride.schedule_ok [OF this] obtain k' where k': "schedule stride_sched_class k = Some k'" "sched_inv stride_ready k'"
    "schedule_frame k k'" "if contenders k = {} then current k' = idleproc k
     else current k' \<in> contenders k \<and> stride_best k (current k') (contenders k) \<and>
       stride_fit k' (current k') (waiting_to_run k')" by blast
  have "stride_inv k'"
    using k'(2-4) by (auto simp: stride_inv_def contenders_def schedule_frame_def split: if_splits)
  moreover have "stride_best k (current k') (contenders k) \<Longrightarrow> q \<in> contenders k \<Longrightarrow>
      0 \<le> sint (lab6_stride (procs k q) - lab6_stride (procs k (current k')))" for q
    by (fastforce simp: stride_best_def proc_stride_comp_f_def Let_def split: if_splits)
  moreover have "lab6_stride (procs k' q) = lab6_stride (procs k q) +
      (if q = current k' then BIG_STRIDE div lab6_priority (procs k q) else 0)" if "contenders k \<noteq> {}" for q
  proof (rule schedule_strides [OF k'(1)])
    have "current k' \<in> contenders k" using k'(4) that by simp
    then show "current k' \<noteq> idleproc k" by (simp add: contenders_def)
  qed
  ultimately show ?thesis using k'(1,4) by (auto split: if_splits)
qed

theorem stride_schedule_correct_witness:
  "\<exists>k. wakeup_proc stride_sched_class 3 stride_boot = Some k \<and> 3 \<in> contenders k \<and>
    (\<exists>k'. schedule stride_sched_class k = Some k' \<and> stride_inv k' \<and>
      (if contenders k = {} then current k' = idleproc k
       else current k' \<in> contenders k \<and>
         (\<forall>q\<in>contenders k. 0 \<le> sint (lab6_stride (procs k q) - lab6_stride (procs k (current k')))) \<and>
         (\<forall>q. lab6_stride (procs k' q) = lab6_stride (procs k q) +
            (if q = current k' then BIG_STRIDE div lab6_priority (procs k q) else 0))))"
proof -
  have w: "waiting_to_run stride_boot = {}" by (auto simp: waiting_to_run_def stride_boot_sel boot_sel)
  have "lab6_priority (procs stride_boot 3) \<noteq> 0"
    by (simp add: stride_boot_sel) (simp add: boot_kernel_def sched_init_def RR_init_def)
  then have "stride_fit stride_boot 3 (waiting_to_run stride_boot)"
    by (auto simp: stride_fit_def w strides_window_def strides_within_def intro: exI [of _ "lab6_stride (procs stride_boot 3)"])
  then obtain k where k: "wakeup_proc stride_sched_class 3 stride_boot = Some k" "sched_inv stride_ready k"
    "state (procs k 3) = PROC_RUNNABLE" "wakeup_frame 3 stride_boot k"
    using stride.wakeup_ok [of stride_boot 3] stride_boot_inv by (auto simp: stride_inv_def stride_boot_sel boot_sel)
  then have "stride_inv k" "3 \<in> contenders k"
    by (auto simp: stride_inv_def wakeup_frame_def contenders_def stride_boot_sel)
  then show ?thesis using stride_schedule_correct [of k] k(1) by blast
qed

end
