(* ===== verification/Lab6_Sched.thy ===== *)
theory Lab6_Sched
  imports Sched
begin

section \<open>First come first served and priority round robin (lab6/kern/schedule)\<close>

text \<open>
  \<^verbatim>\<open>fifo_sched.c\<close> and \<^verbatim>\<open>prio_rr_sched.c\<close> of lab 6. Both keep the run queue as a list and use
  \<^verbatim>\<open>proc->rq\<close> as the mark "is queued", which their assertions check; they differ in the time slice they
  hand out. \<open>queue_in\<close> and \<open>queue_out\<close> are the parts their operations share; on them the contract
  \<open>sched_policy\<close> is proved once, for both classes.
\<close>

subsection \<open>Operations\<close>

definition fifo_init :: "kernel \<Rightarrow> kernel" where
  "fifo_init k = (upd_klinks (list_init RunList) k)\<lparr>proc_num := 0, lab6_run_pool := None\<rparr>"

definition queue_in :: "int \<Rightarrow> nat \<Rightarrow> kernel \<Rightarrow> kernel option" where
  "queue_in ts p k = do {
     massert (\<not> rq (procs k p));
     let k = upd_proc p (\<lambda>x. x\<lparr>time_slice := ts\<rparr>) k;
     let k = upd_proc p (\<lambda>x. x\<lparr>rq := True\<rparr>) k;
     let k = upd_klinks (list_add_before RunList (RunLink p)) k;
     Some (k\<lparr>proc_num := proc_num k + 1\<rparr>)
   }"

definition queue_out :: "nat \<Rightarrow> kernel \<Rightarrow> kernel option" where
  "queue_out p k = do {
     massert (rq (procs k p));
     let k = upd_klinks (list_del_init (RunLink p)) k;
     let k = upd_proc p (\<lambda>x. x\<lparr>rq := False\<rparr>) k;
     massert (0 < proc_num k);
     Some (k\<lparr>proc_num := proc_num k - 1\<rparr>)
   }"

definition queue_first :: "kernel \<Rightarrow> (nat option \<times> kernel) option" where
  "queue_first k =
     (case list_next RunList (links k) of
        RunLink p \<Rightarrow> Some (Some p, k)
      | RunList \<Rightarrow> Some (None, k)
      | _ \<Rightarrow> None)"

definition fifo_enqueue :: "nat \<Rightarrow> kernel \<Rightarrow> kernel option" where
  "fifo_enqueue p k = queue_in (max_time_slice k) p k"

definition fifo_dequeue :: "nat \<Rightarrow> kernel \<Rightarrow> kernel option" where
  "fifo_dequeue p k = queue_out p k"

definition fifo_pick_next :: "kernel \<Rightarrow> (nat option \<times> kernel) option" where
  "fifo_pick_next k = queue_first k"

definition fifo_proc_tick :: "nat \<Rightarrow> kernel \<Rightarrow> kernel" where
  "fifo_proc_tick p k = upd_proc p (\<lambda>x. x\<lparr>time_slice := max_time_slice k\<rparr>) k"

definition fifo_sched_class :: sched_class where
  "fifo_sched_class = \<lparr>sc_init = fifo_init, sc_enqueue = fifo_enqueue, sc_dequeue = fifo_dequeue,
     sc_pick_next = fifo_pick_next, sc_proc_tick = fifo_proc_tick\<rparr>"








subsection \<open>The queue\<close>

definition marked_queue :: "kernel \<Rightarrow> nat list \<Rightarrow> bool" where
  "marked_queue k q \<longleftrightarrow>
     dll (links k) RunList (map RunLink q) \<and> (\<forall>p. rq (procs k p) \<longleftrightarrow> p \<in> set q) \<and>
     proc_num k = of_nat (length q) \<and> length q < 2 ^ 32"

definition marked_ready :: "kernel \<Rightarrow> nat set \<Rightarrow> bool" where
  "marked_ready k A \<longleftrightarrow> (\<exists>q. marked_queue k q \<and> set q = A)"

definition room :: "kernel \<Rightarrow> nat \<Rightarrow> nat set \<Rightarrow> bool" where
  "room k p A \<longleftrightarrow> card A + 1 < 2 ^ 32"

lemma marked_distinct: "marked_queue k q \<Longrightarrow> distinct q"
  using dll_distinct [of "links k" RunList "map RunLink q"] by (auto simp: marked_queue_def distinct_map)

lemma marked_unseen:
  assumes "marked_queue k q" "unseen k k'"
  shows "marked_queue k' q"
proof -
  have s: "same_on {x. is_run_node x} (links k) (links k')" using assms(2) by (simp add: unseen_def)
  have "dll (links k) RunList (map RunLink q)" using assms(1) by (simp add: marked_queue_def)
  then have "dll (links k') RunList (map RunLink q)" by (rule dll_keep [OF _ s]) auto
  then show ?thesis using assms by (simp add: marked_queue_def unseen_def)
qed

lemma queue_in_ok:
  assumes "marked_queue k q" "p \<notin> set q" "length q + 1 < 2 ^ 32"
  shows "\<exists>k'. queue_in n p k = Some k' \<and> marked_queue k' (q @ [p]) \<and> policy_frame k k' \<and>
    time_slice (procs k' p) = n"
proof -
  have ring: "dll (links k) RunList (map RunLink q)" and "\<not> rq (procs k p)"
    using assms by (auto simp: marked_queue_def)
  let ?k' = "(upd_klinks (list_add_before RunList (RunLink p)) (upd_proc p (\<lambda>x. x\<lparr>rq := True\<rparr>)
    (upd_proc p (\<lambda>x. x\<lparr>time_slice := n\<rparr>) k)))\<lparr>proc_num := proc_num k + 1\<rparr>"
  have eq: "queue_in n p k = Some ?k'" using \<open>\<not> rq (procs k p)\<close> by (simp add: queue_in_def)
  have foot: "same_on (- insert (RunLink p) (set (RunList # map RunLink q))) (links k) (list_add_before RunList (RunLink p) (links k))"
    by (rule add_footprint(1) [OF ring]) simp
  have "marked_queue ?k' (q @ [p])"
    using assms dll_add_before_head [OF ring, of "RunLink p"] by (auto simp: marked_queue_def)
  moreover have "policy_frame k ?k'"
  proof (rule policy_frameI)
    show "\<exists>ts r st. procs ?k' x = (procs k x)\<lparr>time_slice := ts, rq := r, lab6_stride := st\<rparr>" for x
      by (rule own_fieldsI) simp
    show "same_on {x. \<not> is_run_node x} (links k) (links ?k')" using foot by (auto elim!: same_on_mono)
  qed (simp add: upd_klinks_def upd_proc_def)
  ultimately show ?thesis using eq by simp
qed

lemma queue_out_ok:
  assumes "marked_queue k (p # q)"
  shows "\<exists>k'. queue_out p k = Some k' \<and> marked_queue k' q \<and> policy_frame k k'"
proof -
  have ring: "dll (links k) RunList (map RunLink [] @ RunLink p # map RunLink q)" and rq: "rq (procs k p)"
    using assms by (auto simp: marked_queue_def)
  let ?k' = "(upd_proc p (\<lambda>x. x\<lparr>rq := False\<rparr>) (upd_klinks (list_del_init (RunLink p)) k))\<lparr>proc_num := proc_num k - 1\<rparr>"
  have "proc_num k = of_nat (Suc (length q))" "Suc (length q) < 2 ^ 32" using assms by (simp_all add: marked_queue_def)
  then have "unat (proc_num k) = Suc (length q)" by (simp only: unat_of_nat) simp
  then have "0 < proc_num k" by (auto simp: word_gt_0)
  then have eq: "queue_out p k = Some ?k'" using rq by (simp add: queue_out_def)
  have foot: "same_on (- set (RunList # map RunLink [] @ RunLink p # map RunLink q)) (links k)
      (list_del_init (RunLink p) (links k))" by (rule del_footprint(2) [OF ring]) simp
  have "marked_queue ?k' q"
    using assms dll_del_init [OF ring] marked_distinct [OF assms] by (auto simp: marked_queue_def)
  moreover have "policy_frame k ?k'"
  proof (rule policy_frameI)
    show "\<exists>ts r st. procs ?k' x = (procs k x)\<lparr>time_slice := ts, rq := r, lab6_stride := st\<rparr>" for x
      by (rule own_fieldsI) simp
    show "same_on {x. \<not> is_run_node x} (links k) (links ?k')" using foot by (auto elim!: same_on_mono)
  qed (simp add: upd_klinks_def upd_proc_def)
  ultimately show ?thesis using eq by blast
qed

lemma queue_first_ok:
  "marked_queue k q \<Longrightarrow> queue_first k = Some (case q of [] \<Rightarrow> None | p # _ \<Rightarrow> Some p, k)"
  by (cases q) (auto simp: marked_queue_def queue_first_def list_next_def dll_next_head)

text \<open>The contract, for every class that consists of these parts.\<close>

lemma marked_policy:
  assumes "\<And>p k. sc_enqueue sc p k = queue_in (f p k) p k" "sc_dequeue sc = queue_out" "sc_pick_next sc = queue_first"
  shows "sched_policy sc marked_ready room (\<lambda>k p A. True)"
proof
  show "marked_ready k A \<Longrightarrow> unseen k k' \<Longrightarrow> marked_ready k' A" for k A k'
    using marked_unseen by (auto simp: marked_ready_def)
  show "room k p A \<Longrightarrow> unseen k k' \<Longrightarrow> room k' p A" for k p A k' by (simp add: room_def)
  show "\<exists>k'. sc_enqueue sc p k = Some k' \<and> marked_ready k' (insert p A) \<and> policy_frame k k'"
    if A: "marked_ready k A" "p \<notin> A" "room k p A" for k A p
  proof -
    obtain q where q: "marked_queue k q" "set q = A" using A(1) by (auto simp: marked_ready_def)
    then have "card A = length q" using marked_distinct distinct_card by blast
    then obtain k' where "queue_in (f p k) p k = Some k'" "marked_queue k' (q @ [p])" "policy_frame k k'"
      using queue_in_ok [OF q(1), of p "f p k"] q A(2,3) by (auto simp: room_def)
    moreover have "set (q @ [p]) = insert p A" using q(2) by simp
    ultimately show ?thesis using assms(1) unfolding marked_ready_def by auto
  qed
  show "marked_ready k {} \<Longrightarrow> sc_pick_next sc k = Some (None, k)" for k
    using queue_first_ok assms(3) by (auto simp: marked_ready_def)
  show "\<exists>p k' k''. sc_pick_next sc k = Some (Some p, k') \<and> sc_dequeue sc p k' = Some k'' \<and> p \<in> A \<and> True \<and>
      marked_ready k'' (A - {p}) \<and> room k'' p (A - {p}) \<and> policy_frame k k''"
    if A: "marked_ready k A" "A \<noteq> {}" for k A
  proof -
    obtain q0 where q0: "marked_queue k q0" "set q0 = A" using A(1) by (auto simp: marked_ready_def)
    then obtain p q where q: "marked_queue k (p # q)" "set (p # q) = A" using A(2) by (cases q0) auto
    obtain k' where k': "queue_out p k = Some k'" "marked_queue k' q" "policy_frame k k'" using queue_out_ok [OF q(1)] by blast
    have d: "distinct (p # q)" "length (p # q) < 2 ^ 32" 
      using marked_distinct [OF q(1)] q(1) [unfolded marked_queue_def] by simp_all
    then have "set q = A - {p}" "card (A - {p}) = length q" using q(2) by (auto simp: distinct_card)
    then show ?thesis
      using k' queue_first_ok [OF q(1)] q(2) d(2) assms(2,3) by (auto simp: marked_ready_def room_def)
  qed
qed auto

interpretation fifo: sched_policy fifo_sched_class marked_ready room "\<lambda>k p A. True"
  by (rule marked_policy [of _ "\<lambda>p k. max_time_slice k"])
    (simp_all add: fifo_sched_class_def fifo_enqueue_def fun_eq_iff fifo_dequeue_def fifo_pick_next_def)


subsection \<open>Properties\<close>








end
