(* ===== verification/Vmm.thy ===== *)
theory Vmm
  imports Dll Cstring
begin

unbundle bit_operations_syntax

section \<open>Virtual memory areas (mm/vmm.c)\<close>

text \<open>
  The sorted list of \<^verbatim>\<open>vma_struct\<close>s of an address space, its one-entry cache, and the checks of user
  addresses that are built on it. Addresses are 64-bit words. Objects live in a store; \<^verbatim>\<open>kmalloc\<close> and
  \<^verbatim>\<open>copy_range\<close> answer through arguments. \<open>areas v m vs\<close> says that the address space \<open>m\<close> has the areas
  \<open>vs\<close>, sorted and disjoint, and that its cache is empty or one of them.
\<close>

subsection \<open>Operations\<close>

abbreviation PGSIZE :: "64 word" where "PGSIZE \<equiv> 4096"
abbreviation USERBASE :: "64 word" where "USERBASE \<equiv> 0x00200000"
abbreviation USERTOP :: "64 word" where "USERTOP \<equiv> 0x80000000"
abbreviation KERNBASE :: "64 word" where "KERNBASE \<equiv> 0xFFFFFFFFC0200000"
abbreviation KERNTOP :: "64 word" where "KERNTOP \<equiv> KERNBASE + 0x7E00000"
abbreviation VM_READ :: "32 word" where "VM_READ \<equiv> 1"
abbreviation VM_WRITE :: "32 word" where "VM_WRITE \<equiv> 2"
abbreviation VM_STACK :: "32 word" where "VM_STACK \<equiv> 8"

definition USER_ACCESS :: "64 word \<Rightarrow> 64 word \<Rightarrow> bool" where
  "USER_ACCESS start end \<longleftrightarrow> USERBASE \<le> start \<and> start < end \<and> end \<le> USERTOP"

definition KERN_ACCESS :: "64 word \<Rightarrow> 64 word \<Rightarrow> bool" where
  "KERN_ACCESS start end \<longleftrightarrow> KERNBASE \<le> start \<and> start < end \<and> end \<le> KERNTOP"

definition ROUNDDOWN :: "64 word \<Rightarrow> 64 word \<Rightarrow> 64 word" where
  "ROUNDDOWN a n = a - a mod n"

definition ROUNDUP :: "64 word \<Rightarrow> 64 word \<Rightarrow> 64 word" where
  "ROUNDUP a n = ROUNDDOWN (a + n - 1) n"

datatype vnode = MmapList nat | VmaLink nat

record vma_struct =
  vm_mm :: nat
  vm_start :: "64 word"
  vm_end :: "64 word"
  vm_flags :: "32 word"

record mm_struct =
  mmap_cache :: "nat option"
  map_count :: int

record vm =
  vmas :: "nat \<Rightarrow> vma_struct"
  mms :: "nat \<Rightarrow> mm_struct"
  vlinks :: "vnode links"

fun le2vma :: "vnode \<Rightarrow> nat option" where
  "le2vma (VmaLink x) = Some x"
| "le2vma (MmapList m) = None"

definition mm_create :: "nat option \<Rightarrow> vm \<Rightarrow> nat option \<times> vm" where
  "mm_create kmalloc v =
     (case kmalloc of
        None \<Rightarrow> (None, v)
      | Some m \<Rightarrow> (Some m, v\<lparr>vlinks := list_init (MmapList m) (vlinks v),
                          mms := (mms v)(m := \<lparr>mmap_cache = None, map_count = 0\<rparr>)\<rparr>))"

definition vma_create :: "nat option \<Rightarrow> 64 word \<Rightarrow> 64 word \<Rightarrow> 32 word \<Rightarrow> vm \<Rightarrow> nat option \<times> vm" where
  "vma_create kmalloc start end flags v =
     (case kmalloc of
        None \<Rightarrow> (None, v)
      | Some x \<Rightarrow> (Some x, v\<lparr>vmas := (vmas v)(x := (vmas v x)\<lparr>vm_start := start, vm_end := end, vm_flags := flags\<rparr>)\<rparr>))"

definition contains :: "vm \<Rightarrow> 64 word \<Rightarrow> nat \<Rightarrow> bool" where
  "contains v addr x \<longleftrightarrow> vm_start (vmas v x) \<le> addr \<and> addr < vm_end (vmas v x)"

partial_function (option) find_vma_loop :: "nat \<Rightarrow> vnode \<Rightarrow> 64 word \<Rightarrow> vm \<Rightarrow> nat option option" where
  "find_vma_loop m le addr v =
     (let le = list_next le (vlinks v) in
      if le = MmapList m then Some None
      else case le2vma le of
        None \<Rightarrow> None
      | Some x \<Rightarrow> if contains v addr x then Some (Some x) else find_vma_loop m le addr v)"

definition find_vma :: "nat option \<Rightarrow> 64 word \<Rightarrow> vm \<Rightarrow> (nat option \<times> vm) option" where
  "find_vma mo addr v =
     (case mo of
        None \<Rightarrow> Some (None, v)
      | Some m \<Rightarrow> do {
          r \<leftarrow> (case mmap_cache (mms v m) of
                 Some x \<Rightarrow> if contains v addr x then Some (Some x) else find_vma_loop m (MmapList m) addr v
               | None \<Rightarrow> find_vma_loop m (MmapList m) addr v);
          Some (r, case r of
                     None \<Rightarrow> v
                   | Some x \<Rightarrow> v\<lparr>mms := (mms v)(m := (mms v m)\<lparr>mmap_cache := Some x\<rparr>)\<rparr>)
        })"

definition check_vma_overlap :: "nat \<Rightarrow> nat \<Rightarrow> vm \<Rightarrow> unit option" where
  "check_vma_overlap prv nxt v = do {
     massert (vm_start (vmas v prv) < vm_end (vmas v prv));
     massert (vm_end (vmas v prv) \<le> vm_start (vmas v nxt));
     massert (vm_start (vmas v nxt) < vm_end (vmas v nxt))
   }"

partial_function (option) insert_vma_loop :: "nat \<Rightarrow> nat \<Rightarrow> vnode \<Rightarrow> vm \<Rightarrow> vnode option" where
  "insert_vma_loop m x le v =
     (let le' = list_next le (vlinks v) in
      if le' = MmapList m then Some le
      else case le2vma le' of
        None \<Rightarrow> None
      | Some y \<Rightarrow> if vm_start (vmas v x) < vm_start (vmas v y) then Some le else insert_vma_loop m x le' v)"

definition insert_vma_struct :: "nat \<Rightarrow> nat \<Rightarrow> vm \<Rightarrow> vm option" where
  "insert_vma_struct m x v = do {
     massert (vm_start (vmas v x) < vm_end (vmas v x));
     le_prev \<leftarrow> insert_vma_loop m x (MmapList m) v;
     let le_next = list_next le_prev (vlinks v);
     (if le_prev \<noteq> MmapList m then do { y \<leftarrow> le2vma le_prev; check_vma_overlap y x v } else Some ());
     (if le_next \<noteq> MmapList m then do { y \<leftarrow> le2vma le_next; check_vma_overlap x y v } else Some ());
     let v = v\<lparr>vmas := (vmas v)(x := (vmas v x)\<lparr>vm_mm := m\<rparr>)\<rparr>;
     let v = v\<lparr>vlinks := list_add_after le_prev (VmaLink x) (vlinks v)\<rparr>;
     Some (v\<lparr>mms := (mms v)(m := (mms v m)\<lparr>map_count := map_count (mms v m) + 1\<rparr>)\<rparr>)
   }"

definition mm_map :: "nat option \<Rightarrow> nat \<Rightarrow> 64 word \<Rightarrow> 64 word \<Rightarrow> 32 word \<Rightarrow> vm \<Rightarrow> (int \<times> vm) option" where
  "mm_map kmalloc m addr len flags v =
     (let start = ROUNDDOWN addr PGSIZE; end = ROUNDUP (addr + len) PGSIZE in
      if \<not> USER_ACCESS start end then Some (- E_INVAL, v)
      else do {
        (r, v) \<leftarrow> find_vma (Some m) start v;
        if (case r of Some x \<Rightarrow> vm_start (vmas v x) < end | None \<Rightarrow> False) then Some (- E_INVAL, v)
        else case vma_create kmalloc start end flags v of
          (None, v) \<Rightarrow> Some (- E_NO_MEM, v)
        | (Some x, v) \<Rightarrow> do { v \<leftarrow> insert_vma_struct m x v; Some (0, v) }
      })"

text \<open>\<^verbatim>\<open>dup_mmap\<close> walks the list backwards. The answers of the two calls it makes per area are the list
  \<open>answers\<close>: the new \<^verbatim>\<open>vma_struct\<close> or NULL, and whether \<^verbatim>\<open>copy_range\<close> succeeds.\<close>

fun dup_mmap :: "nat \<Rightarrow> nat \<Rightarrow> vnode \<Rightarrow> (nat option \<times> bool) list \<Rightarrow> vm \<Rightarrow> (int \<times> vm) option" where
  "dup_mmap to from le answers v =
     (let le' = list_prev le (vlinks v) in
      if le' = MmapList from then Some (0, v)
      else case le2vma le' of
        None \<Rightarrow> None
      | Some x \<Rightarrow> (case answers of
          [] \<Rightarrow> None
        | (mem, copied) # rest \<Rightarrow> (
            case vma_create mem (vm_start (vmas v x)) (vm_end (vmas v x)) (vm_flags (vmas v x)) v of
              (None, v) \<Rightarrow> Some (- E_NO_MEM, v)
            | (Some y, v) \<Rightarrow> do {
                v \<leftarrow> insert_vma_struct to y v;
                if \<not> copied then Some (- E_NO_MEM, v) else dup_mmap to from le' rest v
              })))"

partial_function (option) user_mem_loop :: "nat \<Rightarrow> bool \<Rightarrow> 64 word \<Rightarrow> 64 word \<Rightarrow> vm \<Rightarrow> (bool \<times> vm) option" where
  "user_mem_loop m write start end v =
     (if start < end then do {
        (r, v) \<leftarrow> find_vma (Some m) start v;
        case r of
          None \<Rightarrow> Some (False, v)
        | Some x \<Rightarrow>
            if start < vm_start (vmas v x) then Some (False, v)
            else if vm_flags (vmas v x) AND (if write then VM_WRITE else VM_READ) = 0 then Some (False, v)
            else if write \<and> vm_flags (vmas v x) AND VM_STACK \<noteq> 0 \<and> start < vm_start (vmas v x) + PGSIZE
            then Some (False, v)
            else user_mem_loop m write (vm_end (vmas v x)) end v
      } else Some (True, v))"

definition user_mem_check :: "nat option \<Rightarrow> 64 word \<Rightarrow> 64 word \<Rightarrow> bool \<Rightarrow> vm \<Rightarrow> (bool \<times> vm) option" where
  "user_mem_check mo addr len write v =
     (case mo of
        Some m \<Rightarrow> if \<not> USER_ACCESS addr (addr + len) then Some (False, v)
                  else user_mem_loop m write addr (addr + len) v
      | None \<Rightarrow> Some (KERN_ACCESS addr (addr + len), v))"

definition copy_from_user :: "nat option \<Rightarrow> 64 word \<Rightarrow> 64 word \<Rightarrow> 64 word \<Rightarrow> bool \<Rightarrow> vm \<Rightarrow> mem \<Rightarrow> (bool \<times> vm \<times> mem) option" where
  "copy_from_user mo dst src len writable v mem = do {
     (ok, v) \<leftarrow> user_mem_check mo src len writable v;
     if \<not> ok then Some (False, v, mem) else Some (True, v, memcpy (unat dst) (unat src) (unat len) mem)
   }"

definition copy_to_user :: "nat option \<Rightarrow> 64 word \<Rightarrow> 64 word \<Rightarrow> 64 word \<Rightarrow> vm \<Rightarrow> mem \<Rightarrow> (bool \<times> vm \<times> mem) option" where
  "copy_to_user mo dst src len v mem = do {
     (ok, v) \<leftarrow> user_mem_check mo dst len True v;
     if \<not> ok then Some (False, v, mem) else Some (True, v, memcpy (unat dst) (unat src) (unat len) mem)
   }"

text \<open>\<^verbatim>\<open>copy_string\<close> copies a user string page by page, so that every page is checked before it is read.\<close>

partial_function (option) copy_string_loop ::
    "nat option \<Rightarrow> 64 word \<Rightarrow> 64 word \<Rightarrow> 64 word \<Rightarrow> 64 word \<Rightarrow> vm \<Rightarrow> mem \<Rightarrow> (bool \<times> vm \<times> mem) option" where
  "copy_string_loop mo dst src maxn part v mem =
     (let part = (if part > maxn then maxn else part) in do {
        (ok, v) \<leftarrow> user_mem_check mo src part False v;
        if \<not> ok then Some (False, v, mem)
        else let alen = strnlen (unat src) (unat part) mem in
          if alen < unat part then Some (True, v, memcpy (unat dst) (unat src) (alen + 1) mem)
          else if part = maxn then Some (False, v, mem)
          else copy_string_loop mo (dst + part) (src + part) (maxn - part) PGSIZE v
                 (memcpy (unat dst) (unat src) (unat part) mem)
      })"

definition copy_string :: "nat option \<Rightarrow> 64 word \<Rightarrow> 64 word \<Rightarrow> 64 word \<Rightarrow> vm \<Rightarrow> mem \<Rightarrow> (bool \<times> vm \<times> mem) option" where
  "copy_string mo dst src maxn v mem =
     copy_string_loop mo dst src maxn (ROUNDDOWN (src + PGSIZE) PGSIZE - src) v mem"

text \<open>The loop of \<^verbatim>\<open>mm_destroy\<close>: unlink and free the areas one by one; the freed ones are returned.\<close>

partial_function (option) mm_destroy_loop :: "nat \<Rightarrow> vm \<Rightarrow> (nat list \<times> vm) option" where
  "mm_destroy_loop m v =
     (let le = list_next (MmapList m) (vlinks v) in
      if le = MmapList m then Some ([], v)
      else do {
        x \<leftarrow> le2vma le;
        (xs, v) \<leftarrow> mm_destroy_loop m (v\<lparr>vlinks := list_del le (vlinks v)\<rparr>);
        Some (x # xs, v)
      })"

declare find_vma_loop.simps [code] copy_string_loop.simps [code] mm_destroy_loop.simps [code] insert_vma_loop.simps [code] user_mem_loop.simps [code]
declare dup_mmap.simps [simp del]

subsection \<open>Sorted, disjoint areas\<close>

definition proper :: "vm \<Rightarrow> nat \<Rightarrow> bool" where
  "proper v x \<longleftrightarrow> vm_start (vmas v x) < vm_end (vmas v x)"

definition before :: "vm \<Rightarrow> nat \<Rightarrow> nat \<Rightarrow> bool" where
  "before v x y \<longleftrightarrow> vm_end (vmas v x) \<le> vm_start (vmas v y)"

lemma before_sel [simp]: "before (v\<lparr>mms := f\<rparr>) = before v" "before (v\<lparr>vlinks := l\<rparr>) = before v"
  by (simp_all add: before_def fun_eq_iff)

definition areas :: "vm \<Rightarrow> nat \<Rightarrow> nat list \<Rightarrow> bool" where
  "areas v m vs \<longleftrightarrow> dll (vlinks v) (MmapList m) (map VmaLink vs) \<and> sorted_wrt (before v) vs \<and>
     (\<forall>x\<in>set vs. proper v x) \<and> (\<forall>x. mmap_cache (mms v m) = Some x \<longrightarrow> x \<in> set vs)"

lemma contains_unique:
  assumes "sorted_wrt (before v) vs" "\<forall>x\<in>set vs. proper v x"
    and "x \<in> set vs" "y \<in> set vs" "contains v a x" "contains v a y"
  shows "x = y"
proof (rule ccontr)
  assume "x \<noteq> y"
  then have "before v x y \<or> before v y x"
    using assms(1,3,4) by (induction vs) auto
  then show False using assms(5,6) by (auto simp: before_def contains_def)
qed

lemma vfind_SomeD: "List.find P xs = Some x \<Longrightarrow> x \<in> set xs \<and> P x"
  by (induction xs) (auto split: if_splits)

lemma find_vma_loop_ok:
  "dll (vlinks v) (MmapList m) (map VmaLink (us @ vs)) \<Longrightarrow>
    find_vma_loop m (last (MmapList m # map VmaLink us)) a v = Some (List.find (contains v a) vs)"
proof (induction vs arbitrary: us)
  case Nil
  then show ?case
    using dll_next_last [of "vlinks v" "MmapList m" "map VmaLink us" "[]"]
    by (subst find_vma_loop.simps) (simp add: list_next_def)
next
  case (Cons x vs)
  have "list_next (last (MmapList m # map VmaLink us)) (vlinks v) = VmaLink x"
    using dll_next_last [of "vlinks v" "MmapList m" "map VmaLink us" "map VmaLink (x # vs)"] Cons.prems
    by (simp add: list_next_def)
  moreover have "find_vma_loop m (VmaLink x) a v = Some (List.find (contains v a) vs)"
    using Cons.IH [of "us @ [x]"] Cons.prems by simp
  ultimately show ?case by (subst find_vma_loop.simps) (simp add: Let_def)
qed

lemma find_vma_ok:
  assumes "areas v m vs"
  shows "\<exists>r v'. find_vma (Some m) a v = Some (r, v') \<and> areas v' m vs \<and> vmas v' = vmas v \<and>
    (\<forall>x. r = Some x \<longleftrightarrow> x \<in> set vs \<and> contains v a x)"
proof -
  note A = assms [unfolded areas_def]
  have loop: "find_vma_loop m (MmapList m) a v = Some (List.find (contains v a) vs)"
    using find_vma_loop_ok [of v m "[]" vs a] A by simp
  obtain r where r: "(case mmap_cache (mms v m) of
        Some x \<Rightarrow> if contains v a x then Some (Some x) else find_vma_loop m (MmapList m) a v
      | None \<Rightarrow> find_vma_loop m (MmapList m) a v) = Some r"
    "r = List.find (contains v a) vs \<or> (\<exists>x. r = Some x \<and> x \<in> set vs \<and> contains v a x)"
  proof (cases "\<exists>x. mmap_cache (mms v m) = Some x \<and> contains v a x")
    case True
    then obtain x where "mmap_cache (mms v m) = Some x" "contains v a x" by blast
    then show ?thesis using that [of "Some x"] A by simp
  next
    case False
    then show ?thesis using that [of "List.find (contains v a) vs"] loop by (cases "mmap_cache (mms v m)") auto
  qed
  have ex: "r = Some x \<longleftrightarrow> x \<in> set vs \<and> contains v a x" for x
  proof
    assume "r = Some x"
    then show "x \<in> set vs \<and> contains v a x" using r(2) vfind_SomeD [of "contains v a" vs x] by auto
  next
    assume x: "x \<in> set vs \<and> contains v a x"
    then obtain y where y: "r = Some y" using r(2) by (cases r) (auto simp: find_None_iff2)
    then have "y \<in> set vs \<and> contains v a y" using r(2) vfind_SomeD [of "contains v a" vs y] by auto
    then show "r = Some x" using contains_unique [of v vs x y a] A x y by auto
  qed
  let ?v = "case r of None \<Rightarrow> v | Some x \<Rightarrow> v\<lparr>mms := (mms v)(m := (mms v m)\<lparr>mmap_cache := Some x\<rparr>)\<rparr>"
  have "find_vma (Some m) a v = Some (r, ?v)" using r(1) by (simp add: find_vma_def)
  moreover have "areas ?v m vs" using A ex by (cases r) (auto simp: areas_def proper_def)
  moreover have "vmas ?v = vmas v" by (cases r) auto
  ultimately show ?thesis using ex by blast
qed

subsection \<open>Inserting an area\<close>

definition overlaps :: "vm \<Rightarrow> nat \<Rightarrow> nat \<Rightarrow> bool" where
  "overlaps v x y \<longleftrightarrow> vm_start (vmas v y) < vm_end (vmas v x) \<and> vm_start (vmas v x) < vm_end (vmas v y)"

lemma insert_vma_loop_ok:
  assumes "dll (vlinks v) (MmapList m) (map VmaLink (us @ vs))"
  shows "insert_vma_loop m x (last (MmapList m # map VmaLink us)) v =
    Some (last (MmapList m # map VmaLink (us @ takeWhile (\<lambda>y. vm_start (vmas v y) \<le> vm_start (vmas v x)) vs)))"
  using assms
proof (induction vs arbitrary: us)
  case Nil
  then show ?case
    using dll_next_last [of "vlinks v" "MmapList m" "map VmaLink us" "[]"]
    by (subst insert_vma_loop.simps) (simp add: list_next_def)
next
  case (Cons y vs)
  have "list_next (last (MmapList m # map VmaLink us)) (vlinks v) = VmaLink y"
    using dll_next_last [of "vlinks v" "MmapList m" "map VmaLink us" "map VmaLink (y # vs)"] Cons.prems
    by (simp add: list_next_def)
  then show ?case
    using Cons.IH [of "us @ [y]"] Cons.prems
    by (cases "vm_start (vmas v x) < vm_start (vmas v y)"; subst insert_vma_loop.simps)
      (simp_all add: Let_def not_less not_le [symmetric])
qed

lemma sorted_before_last:
  assumes "sorted_wrt (before v) us" "\<forall>x\<in>set us. proper v x" "us \<noteq> []" "vm_end (vmas v (last us)) \<le> b" "y \<in> set us"
  shows "vm_end (vmas v y) \<le> b"
proof -
  obtain us' l where us: "us = us' @ [l]" using assms(3) by (cases us rule: rev_cases) auto
  show ?thesis
  proof (cases "y = l")
    case False
    then have "before v y l" using assms(1,5) us by (auto simp: sorted_wrt_append)
    then show ?thesis using assms(2,4) us by (fastforce simp: before_def proper_def)
  qed (use assms us in simp)
qed

lemma sorted_before_hd:
  assumes "sorted_wrt (before v) ws" "\<forall>x\<in>set ws. proper v x" "ws \<noteq> []" "b \<le> vm_start (vmas v (hd ws))" "y \<in> set ws"
  shows "b \<le> vm_start (vmas v y)"
  using assms by (cases ws) (auto simp: before_def proper_def)

text \<open>The two checks against the neighbours decide whether the new area overlaps any other.\<close>

definition fits_between :: "vm \<Rightarrow> nat list \<Rightarrow> nat \<Rightarrow> nat list \<Rightarrow> bool" where
  "fits_between v us x ws \<longleftrightarrow> (us \<noteq> [] \<longrightarrow> vm_end (vmas v (last us)) \<le> vm_start (vmas v x)) \<and>
     (ws \<noteq> [] \<longrightarrow> vm_end (vmas v x) \<le> vm_start (vmas v (hd ws)))"

lemma fits_betweenD:
  assumes "fits_between v us x ws" "sorted_wrt (before v) us" "sorted_wrt (before v) ws"
    and "\<forall>y\<in>set us. proper v y" "\<forall>y\<in>set ws. proper v y"
  shows "y \<in> set us \<Longrightarrow> before v y x" "y \<in> set ws \<Longrightarrow> before v x y"
proof -
  show "before v y x" if "y \<in> set us"
    using sorted_before_last [OF assms(2,4) _ _ that, of "vm_start (vmas v x)"] assms(1) that
    by (cases us) (auto simp: fits_between_def before_def)
  show "before v x y" if "y \<in> set ws"
    using sorted_before_hd [OF assms(3,5) _ _ that, of "vm_end (vmas v x)"] assms(1) that
    by (cases ws) (auto simp: fits_between_def before_def)
qed

lemma fits_between_iff:
  assumes "sorted_wrt (before v) vs" "\<forall>y\<in>set vs. proper v y" "proper v x"
    and "us = takeWhile (\<lambda>y. vm_start (vmas v y) \<le> vm_start (vmas v x)) vs" "ws = dropWhile (\<lambda>y. vm_start (vmas v y) \<le> vm_start (vmas v x)) vs"
  shows "fits_between v us x ws \<longleftrightarrow> (\<forall>y\<in>set vs. \<not> overlaps v x y)"
proof -
  have vs: "vs = us @ ws" using assms(4,5) by simp
  have us: "vm_start (vmas v y) \<le> vm_start (vmas v x)" if "y \<in> set us" for y using that assms(4) set_takeWhileD by fastforce
  have ws: "vm_start (vmas v x) < vm_start (vmas v (hd ws))" if "ws \<noteq> []"
    using hd_dropWhile [of "\<lambda>y. vm_start (vmas v y) \<le> vm_start (vmas v x)" vs] that assms(5) by (simp add: not_le)
  have srt: "sorted_wrt (before v) us" "sorted_wrt (before v) ws" using assms(1) vs by (auto simp: sorted_wrt_append)
  have prp: "\<forall>y\<in>set us. proper v y" "\<forall>y\<in>set ws. proper v y" using assms(2) vs by auto
  show ?thesis
  proof
    assume f: "fits_between v us x ws"
    show "\<forall>y\<in>set vs. \<not> overlaps v x y"
      using fits_betweenD [OF f srt prp] vs by (auto simp: overlaps_def before_def not_less)
  next
    assume n: "\<forall>y\<in>set vs. \<not> overlaps v x y"
    have "vm_end (vmas v (last us)) \<le> vm_start (vmas v x)" if "us \<noteq> []"
    proof -
      have "last us \<in> set us" using that by simp
      then have "\<not> overlaps v x (last us)" "vm_start (vmas v (last us)) \<le> vm_start (vmas v x)" using n vs us by auto
      then show ?thesis using assms(3) by (auto simp: overlaps_def proper_def not_less)
    qed
    moreover have "vm_end (vmas v x) \<le> vm_start (vmas v (hd ws))" if "ws \<noteq> []"
    proof -
      have h: "hd ws \<in> set ws" using that by simp
      then have "\<not> overlaps v x (hd ws)" "proper v (hd ws)" using n vs prp by auto
      then show ?thesis using ws [OF that] by (auto simp: overlaps_def proper_def not_less)
    qed
    ultimately show "fits_between v us x ws" by (simp add: fits_between_def)
  qed
qed

lemma insert_vma_ok:
  assumes A: "areas v m vs" and x: "x \<notin> set vs" "proper v x"
  shows "if \<exists>y\<in>set vs. overlaps v x y then insert_vma_struct m x v = None
    else \<exists>v' us ws. insert_vma_struct m x v = Some v' \<and> vs = us @ ws \<and> areas v' m (us @ x # ws) \<and>
      (\<forall>y. vm_start (vmas v' y) = vm_start (vmas v y) \<and> vm_end (vmas v' y) = vm_end (vmas v y) \<and> vm_flags (vmas v' y) = vm_flags (vmas v y))"
proof -
  note a = A [unfolded areas_def]
  define us where "us = takeWhile (\<lambda>y. vm_start (vmas v y) \<le> vm_start (vmas v x)) vs"
  define ws where "ws = dropWhile (\<lambda>y. vm_start (vmas v y) \<le> vm_start (vmas v x)) vs"
  have vs: "vs = us @ ws" by (simp add: us_def ws_def)
  have ring: "dll (vlinks v) (MmapList m) (map VmaLink us @ map VmaLink ws)" using a vs by simp
  have loop: "insert_vma_loop m x (MmapList m) v = Some (last (MmapList m # map VmaLink us))"
    using insert_vma_loop_ok [of v m "[]" vs x] a by (simp add: us_def)
  have nxt: "list_next (last (MmapList m # map VmaLink us)) (vlinks v) = hd (map VmaLink ws @ [MmapList m])"
    using dll_next_last [OF ring] by (simp add: list_next_def)
  let ?v1 = "v\<lparr>vmas := (vmas v)(x := (vmas v x)\<lparr>vm_mm := m\<rparr>)\<rparr>"
  let ?v' = "?v1\<lparr>vlinks := list_add_after (last (MmapList m # map VmaLink us)) (VmaLink x) (vlinks v),
    mms := (mms v)(m := (mms v m)\<lparr>map_count := map_count (mms v m) + 1\<rparr>)\<rparr>"
  have eq: "insert_vma_struct m x v = (if fits_between v us x ws then Some ?v' else None)"
  proof -
    have "us \<noteq> [] \<Longrightarrow> proper v (last us)" "ws \<noteq> [] \<Longrightarrow> proper v (hd ws)" using a vs by auto
    then show ?thesis using x(2) loop nxt
      by (cases us rule: rev_cases; cases ws)
        (simp_all add: insert_vma_struct_def Let_def check_vma_overlap_def fits_between_def proper_def massert_def)
  qed
  have iff: "fits_between v us x ws \<longleftrightarrow> (\<forall>y\<in>set vs. \<not> overlaps v x y)"
    by (rule fits_between_iff [OF _ _ x(2) us_def ws_def]) (use a in simp_all)
  show ?thesis
  proof (cases "fits_between v us x ws")
    case True
    have "VmaLink x \<notin> set (map VmaLink us @ map VmaLink ws)" using x(1) vs by auto
    then have "dll (vlinks ?v') (MmapList m) (map VmaLink us @ VmaLink x # map VmaLink ws)"
      using dll_add_after_seam [OF ring, of "VmaLink x"] by simp
    moreover have "before ?v' = before v" by (simp add: before_def fun_eq_iff)
    moreover have "sorted_wrt (before v) us" "sorted_wrt (before v) ws" "\<forall>y\<in>set us. proper v y" "\<forall>y\<in>set ws. proper v y"
      "\<forall>y\<in>set us. \<forall>z\<in>set ws. before v y z" using a vs by (auto simp: sorted_wrt_append)
    ultimately have "sorted_wrt (before ?v') (us @ x # ws)" "dll (vlinks ?v') (MmapList m) (map VmaLink (us @ x # ws))"
      using fits_betweenD [OF True] by (auto simp: sorted_wrt_append)
    moreover have "\<forall>y\<in>set (us @ x # ws). proper ?v' y" using a x(2) vs by (auto simp: proper_def)
    moreover have "\<forall>y. mmap_cache (mms ?v' m) = Some y \<longrightarrow> y \<in> set (us @ x # ws)" using a vs by auto
    ultimately have "areas ?v' m (us @ x # ws)" unfolding areas_def by blast
    moreover have "\<not> (\<exists>y\<in>set vs. overlaps v x y)" "insert_vma_struct m x v = Some ?v'" using True iff eq by auto
    moreover have "vm_start (vmas ?v' y) = vm_start (vmas v y) \<and> vm_end (vmas ?v' y) = vm_end (vmas v y) \<and>
      vm_flags (vmas ?v' y) = vm_flags (vmas v y)" for y by simp
    ultimately show ?thesis using vs by metis
  next
    case False
    then have "\<exists>y\<in>set vs. overlaps v x y" "insert_vma_struct m x v = None" using iff eq by auto
    then show ?thesis by simp
  qed
qed

lemma areas_create:
  assumes "areas v m vs" "x \<notin> set vs" "vma_create (Some x) b e fl v = (Some x, v')"
  shows "areas v' m vs" "vm_start (vmas v' x) = b" "vm_end (vmas v' x) = e" "vm_flags (vmas v' x) = fl"
    "\<And>y. y \<noteq> x \<Longrightarrow> vmas v' y = vmas v y"
proof -
  have v': "v' = v\<lparr>vmas := (vmas v)(x := (vmas v x)\<lparr>vm_start := b, vm_end := e, vm_flags := fl\<rparr>)\<rparr>"
    using assms(3) by (simp add: vma_create_def)
  then show "vm_start (vmas v' x) = b" "vm_end (vmas v' x) = e" "vm_flags (vmas v' x) = fl"
    "\<And>y. y \<noteq> x \<Longrightarrow> vmas v' y = vmas v y" by simp_all
  have "sorted_wrt (before v') vs"
    using assms(1,2) v' by (auto simp: areas_def before_def elim!: sorted_wrt_mono_rel [rotated])
  moreover have "\<forall>y\<in>set vs. proper v' y" using assms(1,2) v' by (auto simp: areas_def proper_def)
  ultimately show "areas v' m vs" using assms(1) v' by (simp add: areas_def)
qed

text \<open>What a call of \<^verbatim>\<open>mm_map\<close> has to do with the range from \<open>b\<close> to \<open>e\<close>.\<close>

definition touches :: "vm \<Rightarrow> 64 word \<Rightarrow> 64 word \<Rightarrow> nat \<Rightarrow> bool" where
  "touches v b e y \<longleftrightarrow> vm_start (vmas v y) < e \<and> b < vm_end (vmas v y)"

lemma mm_map_ok:
  assumes A: "areas v m vs" and acc: "USER_ACCESS b e" and b: "b = ROUNDDOWN addr PGSIZE" and e: "e = ROUNDUP (addr + len) PGSIZE"
    and free: "\<forall>y\<in>set vs. \<not> contains v b y" and x: "x \<notin> set vs"
  shows "if \<exists>y\<in>set vs. touches v b e y then mm_map (Some x) m addr len fl v = None
    else \<exists>v' us ws. mm_map (Some x) m addr len fl v = Some (0, v') \<and> vs = us @ ws \<and> areas v' m (us @ x # ws) \<and>
      vm_start (vmas v' x) = b \<and> vm_end (vmas v' x) = e \<and> vm_flags (vmas v' x) = fl"
proof -
  obtain r v1 where v1: "find_vma (Some m) b v = Some (r, v1)" "areas v1 m vs" "vmas v1 = vmas v"
    "\<forall>x. r = Some x \<longleftrightarrow> x \<in> set vs \<and> contains v b x" using find_vma_ok [OF A] by blast
  then have r: "r = None" using free by (cases r) auto
  obtain v2 where v2: "vma_create (Some x) b e fl v1 = (Some x, v2)" by (simp add: vma_create_def)
  note c = areas_create [OF v1(2) x v2]
  have eq: "mm_map (Some x) m addr len fl v = do { v \<leftarrow> insert_vma_struct m x v2; Some (0, v) }"
    using v1(1) r v2 acc b e by (simp add: mm_map_def Let_def)
  have pr: "proper v2 x" using acc c(2,3) by (simp add: proper_def USER_ACCESS_def)
  have ov: "overlaps v2 x y \<longleftrightarrow> touches v b e y" if "y \<in> set vs" for y
  proof -
    have "y \<noteq> x" using that x by auto
    then show ?thesis using c(2,3,5) v1(3) by (simp add: overlaps_def touches_def)
  qed
  then have "(\<exists>y\<in>set vs. overlaps v2 x y) \<longleftrightarrow> (\<exists>y\<in>set vs. touches v b e y)" by blast
  note ok = insert_vma_ok [OF c(1) x pr] and ex = this
  show ?thesis
  proof (cases "\<exists>y\<in>set vs. touches v b e y")
    case True
    then show ?thesis using ok ex eq by (simp split: if_splits)
  next
    case False
    then have "\<not> (\<exists>y\<in>set vs. overlaps v2 x y)" using ex by blast
    then obtain v' us ws where "insert_vma_struct m x v2 = Some v'" "vs = us @ ws" "areas v' m (us @ x # ws)"
      "vm_start (vmas v' x) = vm_start (vmas v2 x)" "vm_end (vmas v' x) = vm_end (vmas v2 x)"
      "vm_flags (vmas v' x) = vm_flags (vmas v2 x)" using ok by (simp split: if_splits) blast
    then show ?thesis using False eq c(2-4) by (simp split: if_splits) blast
  qed
qed

lemma mm_map_invalid:
  assumes A: "areas v m vs" and acc: "USER_ACCESS (ROUNDDOWN addr PGSIZE) (ROUNDUP (addr + len) PGSIZE)"
    and y: "y \<in> set vs" "contains v (ROUNDDOWN addr PGSIZE) y"
  shows "\<exists>v'. mm_map k m addr len fl v = Some (- E_INVAL, v') \<and> areas v' m vs \<and> vmas v' = vmas v"
proof -
  obtain r v1 where v1: "find_vma (Some m) (ROUNDDOWN addr PGSIZE) v = Some (r, v1)" "areas v1 m vs" "vmas v1 = vmas v"
    "\<forall>x. r = Some x \<longleftrightarrow> x \<in> set vs \<and> contains v (ROUNDDOWN addr PGSIZE) x" using find_vma_ok [OF A] by blast
  then have "r = Some y" "vm_start (vmas v1 y) < ROUNDUP (addr + len) PGSIZE"
    using y acc by (auto simp: USER_ACCESS_def contains_def)
  then show ?thesis using v1(1-3) acc by (simp add: mm_map_def Let_def)
qed

text \<open>C20: Every outcome of \<^verbatim>\<open>mm_map\<close>, where \<open>k\<close> is the memory for the new area or NULL. A range outside user
  space, or one whose start lies in an area, gives \<^verbatim>\<open>-E_INVAL\<close> and keeps the areas. Without memory the result is
  \<^verbatim>\<open>-E_NO_MEM\<close> and the areas are kept. A range that touches an area which begins later is not looked for: the call runs
  into the assertion of \<^verbatim>\<open>check_vma_overlap\<close> and the kernel panics. Otherwise a new area with exactly the page-aligned
  range and these flags is inserted at its place, and the areas stay sorted and disjoint.\<close>

theorem mm_map_correct:
  assumes A: "areas v m vs" and x: "\<And>x. k = Some x \<Longrightarrow> x \<notin> set vs"
    and b: "b = ROUNDDOWN addr PGSIZE" and e: "e = ROUNDUP (addr + len) PGSIZE"
  shows "if \<not> USER_ACCESS b e then mm_map k m addr len fl v = Some (- E_INVAL, v)
    else if \<exists>y\<in>set vs. contains v b y
    then \<exists>v'. mm_map k m addr len fl v = Some (- E_INVAL, v') \<and> areas v' m vs \<and> vmas v' = vmas v
    else case k of
      None \<Rightarrow> \<exists>v'. mm_map k m addr len fl v = Some (- E_NO_MEM, v') \<and> areas v' m vs \<and> vmas v' = vmas v
    | Some x \<Rightarrow>
        if \<exists>y\<in>set vs. touches v b e y then mm_map k m addr len fl v = None
        else \<exists>v' us ws. mm_map k m addr len fl v = Some (0, v') \<and> vs = us @ ws \<and> areas v' m (us @ x # ws) \<and>
          vm_start (vmas v' x) = b \<and> vm_end (vmas v' x) = e \<and> vm_flags (vmas v' x) = fl"
proof (cases "USER_ACCESS b e")
  case False
  then show ?thesis using b e by (simp add: mm_map_def Let_def)
next
  case acc: True
  show ?thesis
  proof (cases "\<exists>y\<in>set vs. contains v b y")
    case True
    then obtain y where "y \<in> set vs" "contains v (ROUNDDOWN addr PGSIZE) y" using b by blast
    then show ?thesis using mm_map_invalid [OF A _ _ _, of addr len y k fl] acc True b e by simp
  next
    case False
    show ?thesis
    proof (cases k)
      case None
      obtain r v1 where v1: "find_vma (Some m) b v = Some (r, v1)" "areas v1 m vs" "vmas v1 = vmas v"
        "\<forall>x. r = Some x \<longleftrightarrow> x \<in> set vs \<and> contains v b x" using find_vma_ok [OF A] by blast
      then have "r = None" using False by (cases r) auto
      then have "mm_map k m addr len fl v = Some (- E_NO_MEM, v1)"
        using v1(1) acc None b e by (simp add: mm_map_def Let_def vma_create_def)
      then show ?thesis using acc False None v1(2,3) by auto
    next
      case (Some y)
      then have new: "y \<notin> set vs" and free: "\<forall>z\<in>set vs. \<not> contains v b z" using x False by auto
      show ?thesis unfolding Some option.case using mm_map_ok [OF A acc b e free new, of fl] acc False by simp
    qed
  qed
qed

text \<open>An address space with the two areas \<open>0x400000..0x402000\<close> and \<open>0x500000..0x503000\<close>.\<close>

definition two_areas :: vm where
  "two_areas = \<lparr>vmas = (\<lambda>_. \<lparr>vm_mm = 0, vm_start = 0x400000, vm_end = 0x402000, vm_flags = 3\<rparr>)
       (2 := \<lparr>vm_mm = 0, vm_start = 0x500000, vm_end = 0x503000, vm_flags = 1\<rparr>),
     mms = \<lambda>_. \<lparr>mmap_cache = None, map_count = 2\<rparr>,
     vlinks = list_add_before (MmapList 0) (VmaLink 2) (list_add_before (MmapList 0) (VmaLink 1)
       (list_init (MmapList 0) \<lparr>lprev = \<lambda>x. x, lnext = \<lambda>x. x\<rparr>))\<rparr>"

lemma two_areas_ok: "areas two_areas 0 [1, 2]"
  using dll_add_before_head [OF dll_add_before_head [OF dll_init [of "MmapList 0" "\<lparr>lprev = \<lambda>x. x, lnext = \<lambda>x. x\<rparr>"],
      of "VmaLink 1"], of "VmaLink 2"]
  by (simp add: areas_def two_areas_def before_def proper_def)

theorem mm_map_correct_witness:
  "\<exists>v' us ws. mm_map (Some 3) 0 0x403010 0x100 3 two_areas = Some (0, v') \<and> [1, 2] = us @ ws \<and> areas v' 0 (us @ 3 # ws) \<and>
      vm_start (vmas v' 3) = 0x403000 \<and> vm_end (vmas v' 3) = 0x404000 \<and> vm_flags (vmas v' 3) = 3"
  using mm_map_correct [OF two_areas_ok _ refl refl, of "Some 3" "0x403010" "0x100" 3]
  by (simp add: USER_ACCESS_def ROUNDDOWN_def ROUNDUP_def contains_def touches_def two_areas_def)

subsection \<open>Checking user memory\<close>

text \<open>\<open>permits v w a x\<close>: the area \<open>x\<close> grants the access to a range that begins at \<open>a\<close>. In a stack area the
  part of the range inside the area must begin above its first page.\<close>

definition permits :: "vm \<Rightarrow> bool \<Rightarrow> 64 word \<Rightarrow> nat \<Rightarrow> bool" where
  "permits v w a x \<longleftrightarrow> vm_flags (vmas v x) AND (if w then VM_WRITE else VM_READ) \<noteq> 0 \<and>
     \<not> (w \<and> vm_flags (vmas v x) AND VM_STACK \<noteq> 0 \<and> max a (vm_start (vmas v x)) < vm_start (vmas v x) + PGSIZE)"

definition accessible :: "vm \<Rightarrow> nat list \<Rightarrow> bool \<Rightarrow> 64 word \<Rightarrow> 64 word \<Rightarrow> bool" where
  "accessible v vs w b a \<longleftrightarrow> (\<exists>x\<in>set vs. contains v a x \<and> permits v w b x)"

lemma before_start:
  assumes "sorted_wrt (before v) vs" "\<forall>x\<in>set vs. proper v x" "x \<in> set vs" "y \<in> set vs" "contains v (vm_end (vmas v y)) x"
  shows "vm_start (vmas v x) = vm_end (vmas v y)"
proof -
  have "x \<noteq> y" using assms(5) by (auto simp: contains_def)
  then have "before v x y \<or> before v y x" using assms(1,3,4) by (induction vs) auto
  then show ?thesis using assms(2-5) by (force simp: before_def contains_def proper_def)
qed

lemma user_mem_loop_ok:
  assumes "areas v m vs" "a \<le> s" "s = a \<or> a < s \<and> (\<exists>y\<in>set vs. vm_end (vmas v y) = s)"
  shows "\<exists>r v'. user_mem_loop m w s e v = Some (r, v') \<and> areas v' m vs \<and> vmas v' = vmas v \<and>
    (r \<longleftrightarrow> (\<forall>c. s \<le> c \<and> c < e \<longrightarrow> accessible v vs w a c))"
  using assms
proof (induction "unat e - unat s" arbitrary: s v rule: less_induct)
  case less
  note srt = less.prems(1) [unfolded areas_def]
  show ?case
  proof (cases "s < e")
    case False
    then show ?thesis using less.prems(1) by (subst user_mem_loop.simps) auto
  next
    case True
    obtain f v1 where f: "find_vma (Some m) s v = Some (f, v1)" "areas v1 m vs" "vmas v1 = vmas v"
      "\<forall>x. f = Some x \<longleftrightarrow> x \<in> set vs \<and> contains v s x" using find_vma_ok [OF less.prems(1)] by blast
    show ?thesis
    proof (cases f)
      case None
      then have "\<not> accessible v vs w a s" using f(4) by (auto simp: accessible_def)
      then show ?thesis using f None True by (subst user_mem_loop.simps) auto
    next
      case (Some x)
      then have x: "x \<in> set vs" "contains v s x" using f(4) by auto
      have mx: "max a (vm_start (vmas v x)) = s"
      proof (cases "s = a")
        case True
        then show ?thesis using x(2) by (auto simp: max_def contains_def intro: order.antisym)
      next
        case False
        then have "a < s" "vm_start (vmas v x) = s"
          using less.prems(2,3) before_start [of v vs x] srt x by auto
        then have "a \<le> s" by simp
        then show ?thesis using \<open>vm_start (vmas v x) = s\<close> by (simp add: max_def)
      qed
      have acc: "accessible v vs w a c \<longleftrightarrow> permits v w a x" if "contains v c x" for c
      proof -
        have "y = x" if "y \<in> set vs" "contains v c y" for y
          using contains_unique [of v vs y x c] srt x(1) that \<open>contains v c x\<close> by blast
        then show ?thesis using x(1) that unfolding accessible_def by blast
      qed
      show ?thesis
      proof (cases "permits v w a x")
        case False
        then have "user_mem_loop m w s e v = Some (False, v1)"
          using f(1,3) Some True x(2) mx by (subst user_mem_loop.simps) (auto simp: permits_def contains_def)
        moreover have "\<not> accessible v vs w a s" using acc [OF x(2)] False by simp
        ultimately show ?thesis using f(2,3) True by auto
      next
        case perm: True
        let ?s = "vm_end (vmas v x)"
        have step: "user_mem_loop m w s e v = user_mem_loop m w ?s e v1"
          using f(1,3) Some True x(2) mx perm by (subst user_mem_loop.simps) (auto simp: permits_def contains_def)
        have lt: "s < ?s" "vm_start (vmas v x) \<le> s" using x(2) by (auto simp: contains_def)
        have "unat e - unat ?s < unat e - unat s" using lt(1) True by (simp add: word_less_nat_alt)
        moreover have "a \<le> ?s" "?s = a \<or> a < ?s \<and> (\<exists>y\<in>set vs. vm_end (vmas v1 y) = ?s)"
          using lt(1) less.prems(2) x(1) f(3) by auto
        ultimately obtain r v' where r: "user_mem_loop m w ?s e v1 = Some (r, v')" "areas v' m vs" "vmas v' = vmas v1"
          "r \<longleftrightarrow> (\<forall>c. ?s \<le> c \<and> c < e \<longrightarrow> accessible v1 vs w a c)"
          using less.hyps [OF _ f(2), of ?s] by blast
        have eqa: "accessible v1 vs w a c = accessible v vs w a c" for c
          using f(3) by (simp add: accessible_def contains_def permits_def)
        have "accessible v vs w a c" if "s \<le> c" "c < ?s" for c
          using acc [of c] that lt(2) perm by (simp add: contains_def)
        then have "r \<longleftrightarrow> (\<forall>c. s \<le> c \<and> c < e \<longrightarrow> accessible v vs w a c)"
          using r(4) eqa lt(1) by (meson le_less_linear less_imp_le order_trans)
        then show ?thesis using step r f(3) by auto
      qed
    qed
  qed
qed

text \<open>C19: \<^verbatim>\<open>user_mem_check\<close> decides exactly the access rule. It returns for every range, keeps the areas,
  and answers true if and only if the range lies in user space and every byte of it is in an area that
  grants the access.\<close>

theorem user_mem_check_correct:
  assumes "areas v m vs"
  shows "\<exists>r v'. user_mem_check (Some m) addr len w v = Some (r, v') \<and> areas v' m vs \<and> vmas v' = vmas v \<and>
    (r \<longleftrightarrow> USER_ACCESS addr (addr + len) \<and> (\<forall>c. addr \<le> c \<and> c < addr + len \<longrightarrow> accessible v vs w addr c))"
  using user_mem_loop_ok [OF assms order.refl, of addr w "addr + len"] assms
  by (auto simp: user_mem_check_def)

theorem user_mem_check_correct_witness:
  "\<exists>r v'. user_mem_check (Some 0) 0x401000 0x100 True two_areas = Some (r, v') \<and> areas v' 0 [1, 2] \<and>
    vmas v' = vmas two_areas \<and>
    (r \<longleftrightarrow> USER_ACCESS 0x401000 0x401100 \<and>
      (\<forall>c. 0x401000 \<le> c \<and> c < 0x401100 \<longrightarrow> accessible two_areas [1, 2] True 0x401000 c))"
  using user_mem_check_correct [OF two_areas_ok, of "0x401000" "0x100" True] by simp

subsection \<open>Copying strings and destroying an address space\<close>

lemma user_mem_check_returns:
  assumes "\<And>m. mo = Some m \<Longrightarrow> areas v m vs"
  shows "\<exists>r v'. user_mem_check mo addr len w v = Some (r, v') \<and> (r \<longrightarrow> addr < addr + len) \<and>
    (\<forall>m. mo = Some m \<longrightarrow> areas v' m vs) \<and> vmas v' = vmas v"
proof (cases mo)
  case None
  then show ?thesis by (auto simp: user_mem_check_def KERN_ACCESS_def)
next
  case (Some m)
  then have A: "areas v m vs" using assms by simp
  show ?thesis
  proof (cases "USER_ACCESS addr (addr + len)")
    case True
    then show ?thesis using user_mem_loop_ok [OF A order.refl, of addr w "addr + len"] Some
      by (auto simp: user_mem_check_def USER_ACCESS_def)
  next
    case False
    then show ?thesis using A Some by (auto simp: user_mem_check_def)
  qed
qed

lemma copy_string_loop_returns:
  assumes "\<And>m. mo = Some m \<Longrightarrow> areas v m vs"
  shows "\<exists>r v' mem'. copy_string_loop mo dst src maxn part v mem = Some (r, v', mem') \<and> vmas v' = vmas v \<and>
    (\<forall>m. mo = Some m \<longrightarrow> areas v' m vs)"
  using assms
proof (induction "unat maxn" arbitrary: dst src maxn part v mem rule: less_induct)
  case less
  define p where "p = (if part > maxn then maxn else part)"
  obtain ok v1 where c: "user_mem_check mo src p False v = Some (ok, v1)" "ok \<longrightarrow> src < src + p"
    "\<forall>m. mo = Some m \<longrightarrow> areas v1 m vs" "vmas v1 = vmas v"
    using user_mem_check_returns [of mo v vs src p False] less.prems by blast
  show ?case
  proof (cases "ok \<and> \<not> strnlen (unat src) (unat p) mem < unat p \<and> p \<noteq> maxn")
    case False
    then show ?thesis using c
      by (subst copy_string_loop.simps) (auto simp: p_def [symmetric] Let_def)
  next
    case True
    have "p \<le> maxn" "p \<noteq> 0" using c(2) True by (auto simp: p_def)
    then have "0 < unat p" "unat p \<le> unat maxn" by (simp_all add: unat_gt_0 word_le_nat_alt)
    then have "unat (maxn - p) < unat maxn" using unat_sub [OF \<open>p \<le> maxn\<close>] by simp
    then have "\<exists>r v' mem'. copy_string_loop mo (dst + p) (src + p) (maxn - p) PGSIZE v1
        (memcpy (unat dst) (unat src) (unat p) mem) = Some (r, v', mem') \<and> vmas v' = vmas v1 \<and>
        (\<forall>m. mo = Some m \<longrightarrow> areas v' m vs)"
      using less.hyps c(3) by blast
    then show ?thesis using c True
      by (subst copy_string_loop.simps) (auto simp: p_def [symmetric] Let_def)
  qed
qed

lemma copy_string_returns:
  assumes "areas v m vs"
  shows "\<exists>r v' mem'. copy_string (Some m) dst src maxn v mem = Some (r, v', mem') \<and> areas v' m vs \<and> vmas v' = vmas v"
  using copy_string_loop_returns [of "Some m" v vs] assms by (fastforce simp: copy_string_def)

lemma mm_destroy_loop_ok:
  "dll (vlinks v) (MmapList m) (map VmaLink vs) \<Longrightarrow>
    \<exists>v'. mm_destroy_loop m v = Some (vs, v') \<and> dll (vlinks v') (MmapList m) []"
proof (induction vs arbitrary: v)
  case Nil
  then show ?case using dll_next_head [OF Nil] by (subst mm_destroy_loop.simps) (simp add: list_next_def)
next
  case (Cons x vs)
  have "list_next (MmapList m) (vlinks v) = VmaLink x" using dll_next_head [OF Cons.prems] by (simp add: list_next_def)
  moreover have "dll (list_del (VmaLink x) (vlinks v)) (MmapList m) (map VmaLink vs)"
    using dll_del [of "vlinks v" "MmapList m" "[]" "VmaLink x" "map VmaLink vs"] Cons.prems by simp
  ultimately show ?case
    using Cons.IH [of "v\<lparr>vlinks := list_del (VmaLink x) (vlinks v)\<rparr>"] by (subst mm_destroy_loop.simps) auto
qed

end
