(* ===== verification/Bitmap.thy ===== *)
theory Bitmap
  imports Kernel_Prelude
begin

unbundle bit_operations_syntax

section \<open>Bitmaps (fs/sfs/bitmap.c)\<close>

text \<open>
  The map of free disk blocks: an array of 32-bit words, a set bit stands for a free index. Indices are
  natural numbers below \<open>2 ^ 32\<close>. \<open>bitmap_ok b\<close> is the invariant (all bits from \<^verbatim>\<open>nbits\<close> on are 0), \<open>free_bits b\<close> the abstract value:
  the set of free indices. The lemmas show that the operations act on this set.
\<close>

subsection \<open>Operations\<close>

abbreviation WORD_BITS :: nat where "WORD_BITS \<equiv> 32"

record bitmap =
  nbits :: nat
  nwords :: nat
  bmap :: "32 word list"

definition ROUNDUP_DIV :: "nat \<Rightarrow> nat \<Rightarrow> nat" where
  "ROUNDUP_DIV a n = ((a + n - 1) mod 2 ^ 64) div n"

definition bit_mask :: "nat \<Rightarrow> 32 word" where
  "bit_mask offset = push_bit offset 1"

function clear_bits :: "nat \<Rightarrow> 32 word \<Rightarrow> 32 word" where
  "clear_bits overbits w =
     (if overbits < WORD_BITS then clear_bits (overbits + 1) (w XOR bit_mask overbits) else w)"
  by pat_completeness auto
termination by (relation "measure (\<lambda>(overbits, _). WORD_BITS - overbits)") auto

definition bitmap_create :: "nat \<Rightarrow> bool \<Rightarrow> bool \<Rightarrow> bitmap option option" where
  "bitmap_create n kmalloc_bitmap kmalloc_map = do {
     massert (n \<noteq> 0);
     if \<not> kmalloc_bitmap then Some None
     else let nw = ROUNDUP_DIV n WORD_BITS in
       if \<not> kmalloc_map then Some None
       else let b = \<lparr>nbits = n, nwords = nw, bmap = replicate nw (- 1)\<rparr> in
         if n \<noteq> nw * WORD_BITS then
           let ix = nw - 1; overbits = n - ix * WORD_BITS in do {
             massert (n div WORD_BITS = ix);
             massert (0 < overbits \<and> overbits < WORD_BITS);
             Some (Some (b\<lparr>bmap := (bmap b)[ix := clear_bits overbits (bmap b ! ix)]\<rparr>))
           }
         else Some (Some b)
   }"

function alloc_offset :: "32 word \<Rightarrow> nat \<Rightarrow> nat option" where
  "alloc_offset w offset =
     (if offset < WORD_BITS then
        if w AND bit_mask offset \<noteq> 0 then Some offset else alloc_offset w (offset + 1)
      else None)"
  by pat_completeness auto
termination by (relation "measure (\<lambda>(_, offset). WORD_BITS - offset)") auto

function alloc_word :: "nat \<Rightarrow> bitmap \<Rightarrow> ((int + nat) \<times> bitmap) option" where
  "alloc_word ix b =
     (if ix < nwords b then
        if bmap b ! ix \<noteq> 0 then do {
          offset \<leftarrow> alloc_offset (bmap b ! ix) 0;
          Some (Inr (ix * WORD_BITS + offset), b\<lparr>bmap := (bmap b)[ix := bmap b ! ix XOR bit_mask offset]\<rparr>)
        }
        else alloc_word (ix + 1) b
      else Some (Inl (- E_NO_MEM), b))"
  by pat_completeness auto
termination by (relation "measure (\<lambda>(ix, b). nwords b - ix)") auto

declare clear_bits.simps [simp del] alloc_offset.simps [simp del] alloc_word.simps [simp del]

definition bitmap_alloc :: "bitmap \<Rightarrow> ((int + nat) \<times> bitmap) option" where
  "bitmap_alloc b = alloc_word 0 b"

definition bitmap_translate :: "nat \<Rightarrow> bitmap \<Rightarrow> (nat \<times> 32 word) option" where
  "bitmap_translate index b = do {
     massert (index < nbits b);
     Some (index div WORD_BITS, bit_mask (index mod WORD_BITS))
   }"

definition bitmap_test :: "nat \<Rightarrow> bitmap \<Rightarrow> bool option" where
  "bitmap_test index b = do {
     (word, mask) \<leftarrow> bitmap_translate index b;
     Some (bmap b ! word AND mask \<noteq> 0)
   }"

definition bitmap_free :: "nat \<Rightarrow> bitmap \<Rightarrow> bitmap option" where
  "bitmap_free index b = do {
     (word, mask) \<leftarrow> bitmap_translate index b;
     massert (bmap b ! word AND mask = 0);
     Some (b\<lparr>bmap := (bmap b)[word := bmap b ! word OR mask]\<rparr>)
   }"

definition bitmap_getdata :: "bitmap \<Rightarrow> 32 word list \<times> nat" where
  "bitmap_getdata b = (bmap b, 4 * nwords b)"

subsection \<open>Single bits\<close>

lemma bit_mask_iff [simp]: "bit (bit_mask i) j \<longleftrightarrow> i = j \<and> j < 32"
  by (auto simp: bit_mask_def bit_exp_iff)

lemma and_mask: "i < 32 \<Longrightarrow> w AND bit_mask i \<noteq> 0 \<longleftrightarrow> bit w i" for w :: "32 word"
proof
  assume "w AND bit_mask i \<noteq> 0"
  moreover have "w AND bit_mask i = 0" if "\<not> bit w i" using that by (intro bit_word_eqI) (auto simp: bit_and_iff)
  ultimately show "bit w i" by blast
next
  assume "i < 32" "bit w i"
  then have "bit (w AND bit_mask i) i" by (simp add: bit_and_iff)
  then show "w AND bit_mask i \<noteq> 0" by force
qed

lemma bit_clear_bits: "i < 32 \<Longrightarrow> bit (clear_bits k w) i \<longleftrightarrow> (if k \<le> i then \<not> bit w i else bit w i)"
proof (induction k w rule: clear_bits.induct)
  case (1 k w)
  then show ?case by (subst clear_bits.simps) (auto simp: bit_xor_iff)
qed

lemma alloc_offset_least:
  assumes "alloc_offset w k = Some n"
  shows "k \<le> n \<and> n < 32 \<and> bit w n \<and> (\<forall>i. k \<le> i \<and> i < n \<longrightarrow> \<not> bit w i)"
  using assms
proof (induction w k rule: alloc_offset.induct)
  case (1 w k)
  show ?case
  proof (cases "k < 32 \<and> \<not> bit w k")
    case True
    then have "alloc_offset w (k + 1) = Some n" using 1(2) by (simp add: alloc_offset.simps [of w k] and_mask)
    then have *: "k + 1 \<le> n \<and> n < 32 \<and> bit w n \<and> (\<forall>i. k + 1 \<le> i \<and> i < n \<longrightarrow> \<not> bit w i)"
      using 1(1) True and_mask by blast
    have "\<not> bit w i" if "k \<le> i" "i < n" for i using that * True by (cases "i = k") auto
    then show ?thesis using * by auto
  next
    case False
    then show ?thesis using 1(2) by (auto simp: alloc_offset.simps [of w k] and_mask split: if_splits)
  qed
qed

lemma alloc_offset_None:
  assumes "alloc_offset w k = None"
  shows "\<forall>i. k \<le> i \<and> i < 32 \<longrightarrow> \<not> bit w i"
  using assms
proof (induction w k rule: alloc_offset.induct)
  case (1 w k)
  show ?case
  proof (cases "k < 32")
    case True
    then have b: "\<not> bit w k" "alloc_offset w (k + 1) = None"
      using 1(2) by (auto simp: alloc_offset.simps [of w k] and_mask split: if_splits)
    then have "\<forall>i. k + 1 \<le> i \<and> i < 32 \<longrightarrow> \<not> bit w i" using 1(1) True and_mask by blast
    then show ?thesis using b(1) by (metis Suc_eq_plus1 le_antisym not_less_eq_eq)
  qed auto
qed

lemma alloc_offset_total: "w \<noteq> 0 \<Longrightarrow> \<exists>n. alloc_offset w 0 = Some n"
  using alloc_offset_None [of w 0] bit_word_eqI [of w 0] by (cases "alloc_offset w 0") auto

subsection \<open>The set of free indices\<close>

definition bit_at :: "bitmap \<Rightarrow> nat \<Rightarrow> bool" where
  "bit_at b i \<longleftrightarrow> bit (bmap b ! (i div 32)) (i mod 32)"

definition free_bits :: "bitmap \<Rightarrow> nat set" where
  "free_bits b = {i. i < nbits b \<and> bit_at b i}"

definition bitmap_ok :: "bitmap \<Rightarrow> bool" where
  "bitmap_ok b \<longleftrightarrow> length (bmap b) = nwords b \<and> nbits b \<le> 32 * nwords b \<and>
     (\<forall>i. nbits b \<le> i \<and> i < 32 * nwords b \<longrightarrow> \<not> bit_at b i)"

lemma finite_free_bits [simp]: "finite (free_bits b)"
  by (rule finite_subset [of _ "{..<nbits b}"]) (auto simp: free_bits_def)

lemma bit_at_update:
  assumes "k < length (bmap b)"
  shows "bit_at (b\<lparr>bmap := (bmap b)[k := w]\<rparr>) i \<longleftrightarrow> (if i div 32 = k then bit w (i mod 32) else bit_at b i)"
  using assms by (simp add: bit_at_def nth_list_update)

lemma set_bit_at:
  assumes "bitmap_ok b" "i < nbits b" "\<And>j. bit w j \<longleftrightarrow> (if j = i mod 32 then v else bit (bmap b ! (i div 32)) j)"
  shows "bitmap_ok (b\<lparr>bmap := (bmap b)[i div 32 := w]\<rparr>)"
    "free_bits (b\<lparr>bmap := (bmap b)[i div 32 := w]\<rparr>) = (if v then insert i (free_bits b) else free_bits b - {i})"
proof -
  have k: "i div 32 < length (bmap b)" using assms(1,2) by (auto simp: bitmap_ok_def)
  have "j div 32 = i div 32 \<and> j mod 32 = i mod 32 \<longleftrightarrow> j = i" for j :: nat
    by (metis div_mult_mod_eq)
  then have at: "bit_at (b\<lparr>bmap := (bmap b)[i div 32 := w]\<rparr>) j \<longleftrightarrow> (if j = i then v else bit_at b j)" for j
    unfolding bit_at_update [OF k] using assms(3) by (auto simp: bit_at_def)
  then show "bitmap_ok (b\<lparr>bmap := (bmap b)[i div 32 := w]\<rparr>)"
    using assms(1,2) by (auto simp: bitmap_ok_def)
  show "free_bits (b\<lparr>bmap := (bmap b)[i div 32 := w]\<rparr>) = (if v then insert i (free_bits b) else free_bits b - {i})"
    using assms(2) unfolding free_bits_def at by auto
qed

lemma bitmap_test_ok: "bitmap_test i b = (if i < nbits b then Some (bit_at b i) else None)"
  by (simp add: bitmap_test_def bitmap_translate_def bit_at_def and_mask)

lemma bitmap_free_ok:
  assumes "bitmap_ok b"
  shows "if i < nbits b \<and> i \<notin> free_bits b
    then \<exists>b'. bitmap_free i b = Some b' \<and> bitmap_ok b' \<and> nbits b' = nbits b \<and> free_bits b' = insert i (free_bits b)
    else bitmap_free i b = None"
proof (cases "i < nbits b \<and> i \<notin> free_bits b")
  case True
  let ?w = "bmap b ! (i div 32) OR bit_mask (i mod 32)"
  have z: "bmap b ! (i div 32) AND bit_mask (i mod 32) = 0"
    using True and_mask [of "i mod 32" "bmap b ! (i div 32)"] by (auto simp: free_bits_def bit_at_def)
  have "bit ?w j \<longleftrightarrow> (if j = i mod 32 then True else bit (bmap b ! (i div 32)) j)" for j
    by (auto simp: bit_or_iff)
  from set_bit_at [OF assms _ this] show ?thesis using True z
    by (simp add: bitmap_free_def bitmap_translate_def)
next
  case False
  then show ?thesis
    using and_mask [of "i mod 32" "bmap b ! (i div 32)"]
    by (auto simp: bitmap_free_def bitmap_translate_def free_bits_def bit_at_def)
qed

lemma alloc_word_ok:
  assumes "bitmap_ok b" "\<forall>i<32 * ix. \<not> bit_at b i"
  shows "\<exists>b'. bitmap_ok b' \<and> nbits b' = nbits b \<and>
    (if free_bits b = {} then alloc_word ix b = Some (Inl (- E_NO_MEM), b') \<and> b' = b
     else alloc_word ix b = Some (Inr (Min (free_bits b)), b') \<and> free_bits b' = free_bits b - {Min (free_bits b)})"
  using assms
proof (induction ix b rule: alloc_word.induct)
  case (1 ix b)
  show ?case
  proof (cases "ix < nwords b")
    case False
    then have "free_bits b = {}" using 1(2,3) by (auto simp: free_bits_def bitmap_ok_def)
    then show ?thesis using False 1(2) by (subst alloc_word.simps) simp
  next
    case ix: True
    show ?thesis
    proof (cases "bmap b ! ix = 0")
      case True
      have "\<not> bit_at b i" if "i < 32 * (ix + 1)" for i
      proof (cases "i < 32 * ix")
        case False
        then have "i div 32 = ix" using that by (intro div_nat_eqI) auto
        then show ?thesis using True by (simp add: bit_at_def)
      qed (use 1(3) in simp)
      then show ?thesis using 1(1) [OF ix _ 1(2)] True ix by (subst (1 2) alloc_word.simps) simp
    next
      case nz: False
      then obtain n where n: "alloc_offset (bmap b ! ix) 0 = Some n" using alloc_offset_total by blast
      note least = alloc_offset_least [OF n]
      let ?i = "ix * 32 + n" and ?w = "bmap b ! ix XOR bit_mask n"
      have im: "?i div 32 = ix" "?i mod 32 = n" using least by auto
      have at: "bit_at b ?i" using least im by (simp add: bit_at_def)
      have "?i < 32 * nwords b" using ix least by linarith
      then have lt: "?i < nbits b" using at 1(2) unfolding bitmap_ok_def by (meson not_le)
      have min: "?i \<le> j" if "bit_at b j" for j
      proof (rule ccontr)
        assume lt: "\<not> ?i \<le> j"
        define r where "r = j - ix * 32"
        have "\<not> j < 32 * ix" using 1(3) that by blast
        then have r: "j = ix * 32 + r" "r < n" using lt by (simp_all add: r_def)
        then have "j div 32 = ix" "j mod 32 = r" using least by auto
        then show False using that least r(2) by (auto simp: bit_at_def)
      qed
      have "Min (free_bits b) = ?i"
        using at lt min by (intro Min_eqI) (auto simp: free_bits_def)
      moreover have "free_bits b \<noteq> {}" using at lt by (auto simp: free_bits_def)
      moreover have "bit ?w j \<longleftrightarrow> (if j = ?i mod 32 then False else bit (bmap b ! (?i div 32)) j)" for j
        using least im by (auto simp: bit_xor_iff)
      ultimately show ?thesis
        using set_bit_at [OF 1(2) lt, of ?w False] im n nz ix by (subst alloc_word.simps) simp
    qed
  qed
qed

lemma bit_minus_one [simp]: "bit (- 1 :: 32 word) i \<longleftrightarrow> i < 32"
  by (simp add: bit_minus_1_iff)

lemma all_ones: "i < 32 * w \<Longrightarrow> bit_at \<lparr>nbits = n, nwords = w, bmap = replicate w (- 1)\<rparr> i"
  by (auto simp: bit_at_def less_mult_imp_div_less)

lemma bitmap_create_aligned:
  assumes "0 < x" "32 * x < 2 ^ 32"
  shows "\<exists>b. bitmap_create (32 * x) True True = Some (Some b) \<and> bitmap_ok b \<and> nbits b = 32 * x \<and> free_bits b = {..<32 * x}"
proof -
  have nw: "ROUNDUP_DIV (32 * x) 32 = x" using assms by (simp add: ROUNDUP_DIV_def)
  have "bitmap_create (32 * x) True True = Some (Some \<lparr>nbits = 32 * x, nwords = x, bmap = replicate x (- 1)\<rparr>)"
    using assms(1) nw by (simp add: bitmap_create_def Let_def)
  then show ?thesis using all_ones [of _ x "32 * x"] by (auto simp: bitmap_ok_def free_bits_def)
qed

lemma bitmap_create_leftover:
  assumes "0 < k" "k < 32" "32 * x + k < 2 ^ 32"
  shows "\<exists>b. bitmap_create (32 * x + k) True True = Some (Some b) \<and> bitmap_ok b \<and> nbits b = 32 * x + k \<and>
    free_bits b = {..<32 * x + k}"
proof -
  have "(32 * x + k + 31) div 32 = x + 1" using assms(1,2) by (intro div_nat_eqI) auto
  then have nw: "ROUNDUP_DIV (32 * x + k) 32 = x + 1" using assms(3) by (simp add: ROUNDUP_DIV_def)
  let ?b = "\<lparr>nbits = 32 * x + k, nwords = x + 1, bmap = replicate (x + 1) (- 1)\<rparr>"
  let ?c = "?b\<lparr>bmap := (bmap ?b)[x := clear_bits k (- 1)]\<rparr>"
  have at: "bit_at ?c i \<longleftrightarrow> i < 32 * x + k" if "i < 32 * (x + 1)" for i
  proof (cases "i div 32 = x")
    case True
    then have "i = x * 32 + i mod 32" by (metis div_mult_mod_eq)
    then have "i < 32 * x + k \<longleftrightarrow> i mod 32 < k" by linarith
    then show ?thesis using True bit_at_update [of x ?b] by (simp add: bit_clear_bits)
  next
    case False
    moreover have "i div 32 < x + 1" using that by (intro less_mult_imp_div_less) simp
    ultimately have "i div 32 < x" by linarith
    then have "i < x * 32" by (simp only: div_less_iff_less_mult [OF zero_less_numeral])
    then show ?thesis using False that bit_at_update [of x ?b] all_ones [of i "x + 1"] by simp
  qed
  have "bitmap_create (32 * x + k) True True = Some (Some ?c)"
    using assms nw by (simp add: bitmap_create_def Let_def mult.commute [of x 32] del: replicate_Suc)
  moreover have "bitmap_ok ?c" "nbits ?c = 32 * x + k" "free_bits ?c = {..<32 * x + k}"
    using at assms(2) by (auto simp: bitmap_ok_def free_bits_def simp del: replicate_Suc)
  ultimately show ?thesis by blast
qed

lemma bitmap_create_ok:
  assumes "0 < n" "n < 2 ^ 32"
  shows "\<exists>b. bitmap_create n True True = Some (Some b) \<and> bitmap_ok b \<and> nbits b = n \<and> free_bits b = {..<n}"
proof (cases "n mod 32 = 0")
  case True
  then have "n = 32 * (n div 32)" by (metis add.right_neutral mult_div_mod_eq)
  then show ?thesis using bitmap_create_aligned [of "n div 32"] assms by (metis mult_0_right not_gr0)
next
  case False
  have "n = 32 * (n div 32) + n mod 32" by simp
  then show ?thesis using bitmap_create_leftover [of "n mod 32" "n div 32"] assms False by (metis mod_less_divisor neq0_conv zero_less_numeral)
qed

text \<open>C22: The bitmap implements a finite set of free indices. \<^verbatim>\<open>bitmap_create\<close> makes the set of all indices
  below \<open>n\<close>, with the bits left over in the last word in use. \<^verbatim>\<open>bitmap_alloc\<close> takes out the least index, or
  returns \<^verbatim>\<open>-E_NO_MEM\<close> exactly when the set is empty; \<^verbatim>\<open>bitmap_test\<close> is membership; \<^verbatim>\<open>bitmap_free\<close> puts an
  index back and panics if it is out of range or free already. All of them keep the invariant.\<close>

theorem bitmap_refines_set:
  assumes ok: "bitmap_ok b" and n: "0 < n" "n < 2 ^ 32"
  shows "(\<exists>c. bitmap_create n True True = Some (Some c) \<and> bitmap_ok c \<and> nbits c = n \<and> free_bits c = {..<n}) \<and>
    (\<exists>c. bitmap_ok c \<and> nbits c = nbits b \<and>
      (if free_bits b = {} then bitmap_alloc b = Some (Inl (- E_NO_MEM), c) \<and> c = b
       else bitmap_alloc b = Some (Inr (Min (free_bits b)), c) \<and> free_bits c = free_bits b - {Min (free_bits b)})) \<and>
    bitmap_test i b = (if i < nbits b then Some (i \<in> free_bits b) else None) \<and>
    (if i < nbits b \<and> i \<notin> free_bits b
     then \<exists>c. bitmap_free i b = Some c \<and> bitmap_ok c \<and> nbits c = nbits b \<and> free_bits c = insert i (free_bits b)
     else bitmap_free i b = None)"
proof (intro conjI)
  show "bitmap_test i b = (if i < nbits b then Some (i \<in> free_bits b) else None)"
    by (simp add: bitmap_test_ok free_bits_def)
qed (use bitmap_create_ok [OF n] alloc_word_ok [OF ok, of 0] bitmap_free_ok [OF ok, of i] in
      \<open>simp_all only: bitmap_alloc_def mult_0_right not_less_zero all_simps simp_thms\<close>)

lemma sample_bitmap_ok: "bitmap_ok \<lparr>nbits = 32, nwords = 1, bmap = [6]\<rparr>"
  by (auto simp: bitmap_ok_def)

theorem bitmap_refines_set_witness:
  "bitmap_test 5 \<lparr>nbits = 32, nwords = 1, bmap = [6]\<rparr> =
    Some (5 \<in> free_bits \<lparr>nbits = 32, nwords = 1, bmap = [6]\<rparr>)"
  using bitmap_refines_set [OF sample_bitmap_ok, of 40 5] by simp

end
