(* ===== verification/Sfs_Disk.thy ===== *)
theory Sfs_Disk
  imports Bitmap
begin

section \<open>Blocks of the simple file system (fs/sfs/sfs_io.c, sfs_inode.c: block allocation)\<close>

text \<open>
  The mounted volume: superblock, map of free blocks, the scratch buffer \<^verbatim>\<open>sfs_buffer\<close> and the disk. The
  device works on whole blocks as \<open>Disk0.disk0_io_transfers\<close> shows; a block is a function from offsets to
  bytes, a block number is a natural number below \<open>2 ^ 32\<close>. A memory buffer is its contents and a
  position in it. The functions run under their locks, which are left out. A result is \<open>Inl\<close> an error code
  or \<open>Inr\<close> a value, \<open>None\<close> is a failed assertion or panic.
\<close>

subsection \<open>Numbers in memory\<close>

text \<open>Little-endian 16- and 32-bit numbers, the memory layout of the on-disk structures.\<close>

definition byte_of :: "nat \<Rightarrow> nat \<Rightarrow> 8 word" where
  "byte_of k n = of_nat (n div 256 ^ k)"

definition le2 :: "nat \<Rightarrow> 8 word list" where
  "le2 n = [byte_of 0 n, byte_of 1 n]"

definition le4 :: "nat \<Rightarrow> 8 word list" where
  "le4 n = [byte_of 0 n, byte_of 1 n, byte_of 2 n, byte_of 3 n]"

fun of_le :: "8 word list \<Rightarrow> nat" where
  "of_le [] = 0"
| "of_le (b # bs) = unat b + 256 * of_le bs"

lemma unat_byte_of: "unat (byte_of k n) = n div 256 ^ k mod 256"
  by (simp add: byte_of_def unat_of_nat)

lemma length_le [simp]: "length (le2 n) = 2" "length (le4 n) = 4"
  by (simp_all add: le2_def le4_def)

lemma of_le_le2 [simp]: "n < 2 ^ 16 \<Longrightarrow> of_le (le2 n) = n"
  by (simp add: le2_def unat_byte_of)

lemma of_le_le4 [simp]:
  assumes "n < 2 ^ 32"
  shows "of_le (le4 n) = n"
proof -
  have d: "n div 256 div 256 = n div 65536" "n div 65536 div 256 = n div 16777216"
    by (simp_all add: div_mult2_eq [symmetric])
  have "n div 16777216 < 256" using assms by (simp add: less_mult_imp_div_less)
  then have "of_le (le4 n) = n mod 256 + (256 * (n div 256 mod 256) + (65536 * (n div 65536 mod 256) + 16777216 * (n div 16777216)))"
    by (simp add: le4_def unat_byte_of)
  also have "\<dots> = n"
    using div_mult_mod_eq [of n 256] div_mult_mod_eq [of "n div 256" 256] div_mult_mod_eq [of "n div 65536" 256] d by linarith
  finally show ?thesis .
qed

subsection \<open>The volume\<close>

abbreviation (input) SFS_BLKSIZE :: nat where "SFS_BLKSIZE \<equiv> 4096"
abbreviation (input) SFS_BLKN_SUPER :: nat where "SFS_BLKN_SUPER \<equiv> 0"
abbreviation (input) SFS_BLKN_FREEMAP :: nat where "SFS_BLKN_FREEMAP \<equiv> 2"
abbreviation (input) SFS_BLKBITS :: nat where "SFS_BLKBITS \<equiv> SFS_BLKSIZE * 8"

type_synonym contents = "nat \<Rightarrow> 8 word"

record sfs_super =
  magic :: nat
  blocks :: nat
  unused_blocks :: nat
  info :: "8 word list"

record sfs_fs =
  super :: sfs_super
  dev_blocks :: nat
  disk :: "nat \<Rightarrow> contents"
  freemap :: bitmap
  super_dirty :: bool
  sfs_buffer :: contents

subsection \<open>Block I/O\<close>

definition sfs_rwblock_nolock ::
    "contents \<Rightarrow> nat \<Rightarrow> nat \<Rightarrow> bool \<Rightarrow> bool \<Rightarrow> sfs_fs \<Rightarrow> (int \<times> contents \<times> sfs_fs) option" where
  "sfs_rwblock_nolock buf pos blkno write check s = do {
     massert ((blkno \<noteq> 0 \<or> \<not> check) \<and> blkno < blocks (super s));
     let k = ((blkno * SFS_BLKSIZE) mod 2 ^ 32) div SFS_BLKSIZE;
     if dev_blocks s < k + 1 then Some (- E_INVAL, buf, s)
     else if write then
       Some (0, buf, s\<lparr>disk := (disk s)(k := (\<lambda>i. if i < SFS_BLKSIZE then buf (pos + i) else disk s k i))\<rparr>)
     else Some (0, (\<lambda>i. if pos \<le> i \<and> i < pos + SFS_BLKSIZE then disk s k (i - pos) else buf i), s)
   }"

fun sfs_rwblock :: "contents \<Rightarrow> nat \<Rightarrow> nat \<Rightarrow> nat \<Rightarrow> bool \<Rightarrow> sfs_fs \<Rightarrow> (int \<times> contents \<times> sfs_fs) option" where
  "sfs_rwblock buf pos blkno 0 write s = Some (0, buf, s)"
| "sfs_rwblock buf pos blkno (Suc nblks) write s = do {
     (ret, buf, s) \<leftarrow> sfs_rwblock_nolock buf pos blkno write True s;
     if ret \<noteq> 0 then Some (ret, buf, s)
     else sfs_rwblock buf (pos + SFS_BLKSIZE) (blkno + 1) nblks write s
   }"

definition sfs_rblock :: "contents \<Rightarrow> nat \<Rightarrow> nat \<Rightarrow> nat \<Rightarrow> sfs_fs \<Rightarrow> (int \<times> contents \<times> sfs_fs) option" where
  "sfs_rblock buf pos blkno nblks s = sfs_rwblock buf pos blkno nblks False s"

definition sfs_wblock :: "contents \<Rightarrow> nat \<Rightarrow> nat \<Rightarrow> nat \<Rightarrow> sfs_fs \<Rightarrow> (int \<times> contents \<times> sfs_fs) option" where
  "sfs_wblock buf pos blkno nblks s = sfs_rwblock buf pos blkno nblks True s"

text \<open>\<open>paste dst pos src off len\<close> is \<^verbatim>\<open>memcpy(dst + pos, src + off, len)\<close> between two separate buffers.\<close>

definition paste :: "contents \<Rightarrow> nat \<Rightarrow> contents \<Rightarrow> nat \<Rightarrow> nat \<Rightarrow> contents" where
  "paste dst pos src off len = (\<lambda>i. if pos \<le> i \<and> i < pos + len then src (off + (i - pos)) else dst i)"

definition sfs_rbuf :: "contents \<Rightarrow> nat \<Rightarrow> nat \<Rightarrow> nat \<Rightarrow> nat \<Rightarrow> sfs_fs \<Rightarrow> (int \<times> contents \<times> sfs_fs) option" where
  "sfs_rbuf buf pos len blkno offset s = do {
     massert (offset < SFS_BLKSIZE \<and> offset + len \<le> SFS_BLKSIZE);
     (ret, b, s) \<leftarrow> sfs_rwblock_nolock (sfs_buffer s) 0 blkno False True s;
     let s = s\<lparr>sfs_buffer := b\<rparr>;
     Some (ret, if ret = 0 then paste buf pos (sfs_buffer s) offset len else buf, s)
   }"

definition sfs_wbuf :: "contents \<Rightarrow> nat \<Rightarrow> nat \<Rightarrow> nat \<Rightarrow> nat \<Rightarrow> sfs_fs \<Rightarrow> (int \<times> contents \<times> sfs_fs) option" where
  "sfs_wbuf buf pos len blkno offset s = do {
     massert (offset < SFS_BLKSIZE \<and> offset + len \<le> SFS_BLKSIZE);
     (ret, b, s) \<leftarrow> sfs_rwblock_nolock (sfs_buffer s) 0 blkno False True s;
     let s = s\<lparr>sfs_buffer := b\<rparr>;
     if ret \<noteq> 0 then Some (ret, buf, s)
     else do {
       let s = s\<lparr>sfs_buffer := paste (sfs_buffer s) offset buf pos len\<rparr>;
       (ret, b, s) \<leftarrow> sfs_rwblock_nolock (sfs_buffer s) 0 blkno True True s;
       Some (ret, buf, s)
     }
   }"

definition of_list :: "8 word list \<Rightarrow> contents" where
  "of_list bs = (\<lambda>i. if i < length bs then bs ! i else 0)"

definition super_bytes :: "sfs_super \<Rightarrow> 8 word list" where
  "super_bytes sb = le4 (magic sb) @ le4 (blocks sb) @ le4 (unused_blocks sb) @ info sb"

definition sfs_sync_super :: "sfs_fs \<Rightarrow> (int \<times> sfs_fs) option" where
  "sfs_sync_super s = do {
     let s = s\<lparr>sfs_buffer := (\<lambda>i. if i < SFS_BLKSIZE then 0 else sfs_buffer s i)\<rparr>;
     let s = s\<lparr>sfs_buffer := paste (sfs_buffer s) 0 (of_list (super_bytes (super s))) 0 (length (super_bytes (super s)))\<rparr>;
     (ret, b, s) \<leftarrow> sfs_rwblock_nolock (sfs_buffer s) 0 SFS_BLKN_SUPER True False s;
     Some (ret, s)
   }"

definition sfs_freemap_blocks :: "sfs_super \<Rightarrow> nat" where
  "sfs_freemap_blocks sb = ROUNDUP_DIV (blocks sb) SFS_BLKBITS"

definition sfs_sync_freemap :: "sfs_fs \<Rightarrow> (int \<times> sfs_fs) option" where
  "sfs_sync_freemap s = do {
     (ret, b, s) \<leftarrow> sfs_wblock (of_list (concat (map (\<lambda>w. le4 (unat w)) (fst (bitmap_getdata (freemap s)))))) 0
       SFS_BLKN_FREEMAP (sfs_freemap_blocks (super s)) s;
     Some (ret, s)
   }"

fun sfs_clear_loop :: "nat \<Rightarrow> nat \<Rightarrow> sfs_fs \<Rightarrow> (int \<times> sfs_fs) option" where
  "sfs_clear_loop blkno 0 s = Some (0, s)"
| "sfs_clear_loop blkno (Suc nblks) s = do {
     (ret, b, s) \<leftarrow> sfs_rwblock_nolock (sfs_buffer s) 0 blkno True True s;
     if ret \<noteq> 0 then Some (ret, s) else sfs_clear_loop (blkno + 1) nblks s
   }"

text \<open>For no blocks at all the C function returns an uninitialised variable; the model has no value there.\<close>

definition sfs_clear_block :: "nat \<Rightarrow> nat \<Rightarrow> sfs_fs \<Rightarrow> (int \<times> sfs_fs) option" where
  "sfs_clear_block blkno nblks s = do {
     let s = s\<lparr>sfs_buffer := (\<lambda>i. if i < SFS_BLKSIZE then 0 else sfs_buffer s i)\<rparr>;
     massert (nblks \<noteq> 0);
     sfs_clear_loop blkno nblks s
   }"

subsection \<open>Block allocation\<close>

definition sfs_block_inuse :: "nat \<Rightarrow> sfs_fs \<Rightarrow> bool option" where
  "sfs_block_inuse ino s =
     (if ino \<noteq> 0 \<and> ino < blocks (super s) then do { t \<leftarrow> bitmap_test ino (freemap s); Some (\<not> t) } else None)"

definition add_unused :: "int \<Rightarrow> sfs_fs \<Rightarrow> sfs_fs" where
  "add_unused n s = s\<lparr>super := (super s)\<lparr>unused_blocks := nat (int (unused_blocks (super s)) + n)\<rparr>, super_dirty := True\<rparr>"

definition sfs_block_alloc :: "sfs_fs \<Rightarrow> ((int + nat) \<times> sfs_fs) option" where
  "sfs_block_alloc s = do {
     (r, fm) \<leftarrow> bitmap_alloc (freemap s);
     let s = s\<lparr>freemap := fm\<rparr>;
     case r of
       Inl ret \<Rightarrow> Some (Inl ret, s)
     | Inr ino \<Rightarrow> do {
         massert (unused_blocks (super s) > 0);
         let s = add_unused (- 1) s;
         u \<leftarrow> sfs_block_inuse ino s;
         massert u;
         (ret, s) \<leftarrow> sfs_clear_block ino 1 s;
         Some (if ret = 0 then Inr ino else Inl ret, s)
       }
   }"

definition sfs_block_free :: "nat \<Rightarrow> sfs_fs \<Rightarrow> sfs_fs option" where
  "sfs_block_free ino s = do {
     u \<leftarrow> sfs_block_inuse ino s;
     massert u;
     fm \<leftarrow> bitmap_free ino (freemap s);
     Some (add_unused 1 (s\<lparr>freemap := fm\<rparr>))
   }"

subsection \<open>The volume invariant\<close>

abbreviation free :: "sfs_fs \<Rightarrow> nat set" where "free s \<equiv> free_bits (freemap s)"

definition used :: "sfs_fs \<Rightarrow> nat \<Rightarrow> bool" where
  "used s b \<longleftrightarrow> 0 < b \<and> b < blocks (super s) \<and> b \<notin> free s"

text \<open>Free blocks are blocks of the volume other than the superblock, their number is the one in the
  superblock, the device is large enough, and byte offsets on it fit 32 bits.\<close>

definition sfs_ok :: "sfs_fs \<Rightarrow> bool" where
  "sfs_ok s \<longleftrightarrow> bitmap_ok (freemap s) \<and> blocks (super s) \<le> nbits (freemap s) \<and>
     free s \<subseteq> {0<..<blocks (super s)} \<and> unused_blocks (super s) = card (free s) \<and>
     blocks (super s) \<le> dev_blocks s \<and> blocks (super s) * SFS_BLKSIZE \<le> 2 ^ 32"

lemma sfs_ok_sel [simp]:
  "sfs_ok (s\<lparr>disk := d\<rparr>) = sfs_ok s" "sfs_ok (s\<lparr>sfs_buffer := b\<rparr>) = sfs_ok s" "sfs_ok (s\<lparr>super_dirty := x\<rparr>) = sfs_ok s"
  "used (s\<lparr>disk := d\<rparr>) = used s" "used (s\<lparr>sfs_buffer := b\<rparr>) = used s" "used (s\<lparr>super_dirty := x\<rparr>) = used s"
  by (simp_all add: sfs_ok_def used_def fun_eq_iff)

lemma used_bound: "used s b \<Longrightarrow> 0 < b \<and> b < blocks (super s) \<and> b \<notin> free s"
  by (simp add: used_def)

lemma blkno_offset: "sfs_ok s \<Longrightarrow> b < blocks (super s) \<Longrightarrow> ((b * SFS_BLKSIZE) mod 2 ^ 32) div SFS_BLKSIZE = b"
proof -
  assume "sfs_ok s" "b < blocks (super s)"
  then have "b * 4096 < blocks (super s) * 4096" "blocks (super s) * 4096 \<le> 2 ^ 32" by (simp_all add: sfs_ok_def)
  then have "b * 4096 < 2 ^ 32" by linarith
  then show ?thesis by simp
qed

lemma rwblock_nolock_ok:
  assumes "sfs_ok s" "b < blocks (super s)" "b \<noteq> 0 \<or> \<not> check"
  shows "sfs_rwblock_nolock buf pos b True check s =
      Some (0, buf, s\<lparr>disk := (disk s)(b := paste (disk s b) 0 buf pos SFS_BLKSIZE)\<rparr>)"
    "sfs_rwblock_nolock buf pos b False check s = Some (0, paste buf pos (disk s b) 0 SFS_BLKSIZE, s)"
proof -
  note k = blkno_offset [OF assms(1,2)]
  have dev: "\<not> dev_blocks s < b + 1" using assms(1,2) by (auto simp: sfs_ok_def)
  show "sfs_rwblock_nolock buf pos b True check s =
      Some (0, buf, s\<lparr>disk := (disk s)(b := paste (disk s b) 0 buf pos SFS_BLKSIZE)\<rparr>)"
    "sfs_rwblock_nolock buf pos b False check s = Some (0, paste buf pos (disk s b) 0 SFS_BLKSIZE, s)"
    using assms(2,3) dev unfolding sfs_rwblock_nolock_def Let_def k
    by (simp_all add: paste_def fun_eq_iff cong: if_cong)
qed

lemma rbuf_ok:
  assumes "sfs_ok s" "used s b" "off < SFS_BLKSIZE" "off + len \<le> SFS_BLKSIZE"
  shows "\<exists>sb. sfs_rbuf buf pos len b off s = Some (0, paste buf pos (disk s b) off len, s\<lparr>sfs_buffer := sb\<rparr>)"
proof -
  have "paste buf pos (paste (sfs_buffer s) 0 (disk s b) 0 SFS_BLKSIZE) off len = paste buf pos (disk s b) off len"
    using assms(4) by (auto simp: paste_def fun_eq_iff)
  then show ?thesis using rwblock_nolock_ok(2) [OF assms(1), of b] assms(2-4)
    by (auto simp: sfs_rbuf_def used_def)
qed

lemma wbuf_ok:
  assumes "sfs_ok s" "used s b" "off < SFS_BLKSIZE" "off + len \<le> SFS_BLKSIZE"
  shows "\<exists>sb. sfs_wbuf buf pos len b off s =
    Some (0, buf, s\<lparr>sfs_buffer := sb, disk := (disk s)(b := paste (disk s b) off buf pos len)\<rparr>)"
proof -
  have e: "paste (disk s b) 0 (paste (paste (sfs_buffer s) 0 (disk s b) 0 SFS_BLKSIZE) off buf pos len) 0 SFS_BLKSIZE =
      paste (disk s b) off buf pos len"
    using assms(4) by (auto simp: paste_def fun_eq_iff)
  have b: "b < blocks (super s)" "b \<noteq> 0" using assms(2) by (auto simp: used_def)
  have "sfs_wbuf buf pos len b off s = Some (0, buf, s\<lparr>sfs_buffer := paste (paste (sfs_buffer s) 0 (disk s b) 0 SFS_BLKSIZE) off buf pos len,
      disk := (disk s)(b := paste (disk s b) off buf pos len)\<rparr>)"
    using assms(1,3,4) b by (simp add: sfs_wbuf_def rwblock_nolock_ok e)
  then show ?thesis by blast
qed

lemma rblock_ok:
  assumes "sfs_ok s" "used s b"
  shows "sfs_rblock buf pos b 1 s = Some (0, paste buf pos (disk s b) 0 SFS_BLKSIZE, s)"
    "sfs_wblock buf pos b 1 s = Some (0, buf, s\<lparr>disk := (disk s)(b := paste (disk s b) 0 buf pos SFS_BLKSIZE)\<rparr>)"
  using rwblock_nolock_ok [OF assms(1), of b] assms(2)
  by (simp_all add: sfs_rblock_def sfs_wblock_def used_def)

lemma block_inuse_ok: "sfs_ok s \<Longrightarrow> sfs_block_inuse b s = (if b \<noteq> 0 \<and> b < blocks (super s) then Some (b \<notin> free s) else None)"
  by (auto simp: sfs_block_inuse_def bitmap_test_ok sfs_ok_def free_bits_def)

lemma inuse_used [simp]: "sfs_ok s \<Longrightarrow> used s b \<Longrightarrow> sfs_block_inuse b s = Some True"
  by (simp add: block_inuse_ok used_def)

lemma clear_block_ok:
  assumes "sfs_ok s" "0 < b" "b < blocks (super s)"
  shows "\<exists>sb. sfs_clear_block b 1 s =
    Some (0, s\<lparr>sfs_buffer := sb, disk := (disk s)(b := (\<lambda>i. if i < SFS_BLKSIZE then 0 else disk s b i))\<rparr>)"
proof -
  have "paste (disk s b) 0 (\<lambda>i. if i < SFS_BLKSIZE then 0 else sfs_buffer s i) 0 SFS_BLKSIZE =
      (\<lambda>i. if i < SFS_BLKSIZE then 0 else disk s b i)"
    by (auto simp: paste_def fun_eq_iff)
  then show ?thesis using rwblock_nolock_ok(1) [of "s\<lparr>sfs_buffer := _\<rparr>" b True] assms
    by (simp add: sfs_clear_block_def) blast
qed

text \<open>Allocation takes the least free block and clears it.\<close>

lemma block_alloc_ok:
  assumes "sfs_ok s"
  shows "if free s = {} then sfs_block_alloc s = Some (Inl (- E_NO_MEM), s)
    else \<exists>s' fm sb. sfs_block_alloc s = Some (Inr (Min (free s)), s') \<and> sfs_ok s' \<and>
      free s' = free s - {Min (free s)} \<and>
      s' = s\<lparr>freemap := fm, super := (super s)\<lparr>unused_blocks := unused_blocks (super s) - 1\<rparr>, super_dirty := True, sfs_buffer := sb,
        disk := (disk s)(Min (free s) := (\<lambda>i. if i < SFS_BLKSIZE then 0 else disk s (Min (free s)) i))\<rparr>"
proof (cases "free s = {}")
  case True
  then show ?thesis
    using alloc_word_ok [of "freemap s" 0] assms by (auto simp: sfs_block_alloc_def bitmap_alloc_def sfs_ok_def)
next
  case False
  let ?b = "Min (free s)"
  note ok = assms [unfolded sfs_ok_def]
  obtain fm where fm: "bitmap_alloc (freemap s) = Some (Inr ?b, fm)" "bitmap_ok fm" "nbits fm = nbits (freemap s)"
    "free_bits fm = free s - {?b}"
    using alloc_word_ok [of "freemap s" 0] ok False by (auto simp: bitmap_alloc_def)
  have b: "?b \<in> free s" using False by simp
  then have b2: "0 < ?b" "?b < blocks (super s)" using ok by auto
  have pos: "0 < unused_blocks (super s)" using ok False by (simp add: card_gt_0_iff)
  let ?s = "add_unused (- 1) (s\<lparr>freemap := fm\<rparr>)"
  have s: "?s = s\<lparr>freemap := fm, super := (super s)\<lparr>unused_blocks := unused_blocks (super s) - 1\<rparr>, super_dirty := True\<rparr>"
    using pos by (simp add: add_unused_def nat_diff_distrib')
  have oks: "sfs_ok ?s" using ok fm b pos unfolding s by (auto simp: sfs_ok_def)
  obtain sb where sb: "sfs_clear_block ?b 1 ?s =
    Some (0, ?s\<lparr>sfs_buffer := sb, disk := (disk ?s)(?b := (\<lambda>i. if i < SFS_BLKSIZE then 0 else disk ?s ?b i))\<rparr>)"
    using clear_block_ok [OF oks, of ?b] b2 by (auto simp: s)
  have d: "disk ?s = disk s" by (simp add: s)
  have "sfs_block_inuse ?b ?s = Some True" using block_inuse_ok [OF oks] b2 fm(4) by (simp add: s)
  then have "sfs_block_alloc s = Some (Inr ?b, ?s\<lparr>sfs_buffer := sb, disk := (disk ?s)(?b := (\<lambda>i. if i < SFS_BLKSIZE then 0 else disk ?s ?b i))\<rparr>)"
    using fm(1) pos sb by (simp add: sfs_block_alloc_def Let_def)
  moreover have "sfs_ok (?s\<lparr>sfs_buffer := sb, disk := (disk ?s)(?b := (\<lambda>i. if i < SFS_BLKSIZE then 0 else disk ?s ?b i))\<rparr>)"
    using oks by simp
  ultimately have "\<exists>s'. sfs_block_alloc s = Some (Inr ?b, s') \<and> sfs_ok s' \<and> free s' = free s - {?b} \<and>
      s' = s\<lparr>freemap := fm, super := (super s)\<lparr>unused_blocks := unused_blocks (super s) - 1\<rparr>, super_dirty := True, sfs_buffer := sb,
        disk := (disk s)(?b := (\<lambda>i. if i < SFS_BLKSIZE then 0 else disk s ?b i))\<rparr>"
    using fm(4) unfolding d unfolding s by simp
  then show ?thesis using False by auto
qed

lemma block_free_ok:
  assumes "sfs_ok s" "used s b"
  shows "\<exists>s' fm. sfs_block_free b s = Some s' \<and> sfs_ok s' \<and> free s' = insert b (free s) \<and>
    s' = s\<lparr>freemap := fm, super := (super s)\<lparr>unused_blocks := unused_blocks (super s) + 1\<rparr>, super_dirty := True\<rparr>"
proof -
  note ok = assms(1) [unfolded sfs_ok_def]
  have b: "0 < b" "b < blocks (super s)" "b \<notin> free s" using assms(2) by (auto simp: used_def)
  obtain fm where fm: "bitmap_free b (freemap s) = Some fm" "bitmap_ok fm" "nbits fm = nbits (freemap s)"
    "free_bits fm = insert b (free s)"
    using bitmap_free_ok [of "freemap s" b] ok b by auto
  have s: "add_unused 1 (s\<lparr>freemap := fm\<rparr>) =
    s\<lparr>freemap := fm, super := (super s)\<lparr>unused_blocks := unused_blocks (super s) + 1\<rparr>, super_dirty := True\<rparr>"
    by (simp add: add_unused_def)
  have "sfs_block_free b s = Some (add_unused 1 (s\<lparr>freemap := fm\<rparr>))"
    using assms fm(1) by (simp add: sfs_block_free_def)
  moreover have "sfs_ok (add_unused 1 (s\<lparr>freemap := fm\<rparr>))" using ok fm b unfolding s by (auto simp: sfs_ok_def)
  ultimately show ?thesis using fm(4) unfolding s by auto
qed

end
