(* ===== verification/Sfs_Bmap.thy ===== *)
theory Sfs_Bmap
  imports Sfs_Disk
begin

section \<open>The block map of a file (fs/sfs/sfs_inode.c)\<close>

text \<open>
  An inode names its data blocks by twelve direct entries and one indirect block with 1024 entries.
  \<open>bmap s din i\<close> is the number of the \<open>i\<close>-th block of the file (0 for none); \<open>file_ok s din\<close> is the invariant
  of a file on the volume \<open>s\<close>: exactly the first \<^verbatim>\<open>blocks\<close> entries are set, all blocks of the file are in
  use and different. The lemmas give every outcome of looking up, appending and cutting off a block.
\<close>

subsection \<open>Operations\<close>

abbreviation (input) SFS_NDIRECT :: nat where "SFS_NDIRECT \<equiv> 12"
abbreviation (input) SFS_BLK_NENTRY :: nat where "SFS_BLK_NENTRY \<equiv> 1024"

record sfs_disk_inode =
  din_size :: nat
  din_type :: nat
  din_nlinks :: nat
  din_blocks :: nat
  direct :: "nat list"
  indirect :: nat

record sfs_inode =
  din :: sfs_disk_inode
  sin_ino :: nat
  sin_dirty :: bool
  reclaim_count :: int

definition sfs_rbuf32 :: "nat \<Rightarrow> nat \<Rightarrow> sfs_fs \<Rightarrow> (int \<times> nat \<times> sfs_fs) option" where
  "sfs_rbuf32 ent offset s = do {
     (ret, buf, s) \<leftarrow> sfs_rbuf (of_list (le4 0)) 0 4 ent offset s;
     Some (ret, of_le (map buf [0..<4]), s)
   }"

definition sfs_wbuf32 :: "nat \<Rightarrow> nat \<Rightarrow> nat \<Rightarrow> sfs_fs \<Rightarrow> (int \<times> sfs_fs) option" where
  "sfs_wbuf32 n ent offset s = do {
     (ret, buf, s) \<leftarrow> sfs_wbuf (of_list (le4 n)) 0 4 ent offset s;
     Some (ret, s)
   }"

definition sub_cleanup :: "nat \<Rightarrow> nat \<Rightarrow> int \<Rightarrow> sfs_fs \<Rightarrow> ((int + nat \<times> nat) \<times> sfs_fs) option" where
  "sub_cleanup entp ent ret s =
     (if ent \<noteq> entp then do { s \<leftarrow> sfs_block_free ent s; Some (Inl ret, s) } else Some (Inl ret, s))"

definition sub_create :: "nat \<Rightarrow> nat \<Rightarrow> nat \<Rightarrow> sfs_fs \<Rightarrow> ((int + nat \<times> nat) \<times> sfs_fs) option" where
  "sub_create entp ent offset s = do {
     (r, s) \<leftarrow> sfs_block_alloc s;
     case r of
       Inl ret \<Rightarrow> sub_cleanup entp ent ret s
     | Inr ino \<Rightarrow> do {
         (ret, s) \<leftarrow> sfs_wbuf32 ino ent offset s;
         if ret \<noteq> 0 then do { s \<leftarrow> sfs_block_free ino s; sub_cleanup entp ent ret s }
         else Some (Inr (ino, ent), s)
       }
   }"

text \<open>The result is the block number and the new value of \<^verbatim>\<open>*entp\<close>.\<close>

definition sfs_bmap_get_sub_nolock :: "nat \<Rightarrow> nat \<Rightarrow> bool \<Rightarrow> sfs_fs \<Rightarrow> ((int + nat \<times> nat) \<times> sfs_fs) option" where
  "sfs_bmap_get_sub_nolock entp index create s = do {
     massert (index < SFS_BLK_NENTRY);
     let offset = index * 4;
     if entp \<noteq> 0 then do {
       (ret, ino, s) \<leftarrow> sfs_rbuf32 entp offset s;
       if ret \<noteq> 0 then Some (Inl ret, s)
       else if ino \<noteq> 0 \<or> \<not> create then Some (Inr (ino, entp), s)
       else sub_create entp entp offset s
     }
     else if \<not> create then Some (Inr (0, entp), s)
     else do {
       (r, s) \<leftarrow> sfs_block_alloc s;
       case r of Inl ret \<Rightarrow> Some (Inl ret, s) | Inr ent \<Rightarrow> sub_create entp ent offset s
     }
   }"

definition bmap_out :: "nat \<Rightarrow> sfs_inode \<Rightarrow> sfs_fs \<Rightarrow> ((int + nat) \<times> sfs_inode \<times> sfs_fs) option" where
  "bmap_out ino sin s = do {
     (if ino = 0 then Some () else do { u \<leftarrow> sfs_block_inuse ino s; massert u });
     Some (Inr ino, sin, s)
   }"

definition sfs_bmap_get_nolock ::
    "sfs_inode \<Rightarrow> nat \<Rightarrow> bool \<Rightarrow> sfs_fs \<Rightarrow> ((int + nat) \<times> sfs_inode \<times> sfs_fs) option" where
  "sfs_bmap_get_nolock sin index create s =
     (let d = din sin in
      if index < SFS_NDIRECT then
        if direct d ! index = 0 \<and> create then do {
          (r, s) \<leftarrow> sfs_block_alloc s;
          case r of
            Inl ret \<Rightarrow> Some (Inl ret, sin, s)
          | Inr ino \<Rightarrow> bmap_out ino (sin\<lparr>din := d\<lparr>direct := (direct d)[index := ino]\<rparr>, sin_dirty := True\<rparr>) s
        }
        else bmap_out (direct d ! index) sin s
      else if index - SFS_NDIRECT < SFS_BLK_NENTRY then do {
        (r, s) \<leftarrow> sfs_bmap_get_sub_nolock (indirect d) (index - SFS_NDIRECT) create s;
        case r of
          Inl ret \<Rightarrow> Some (Inl ret, sin, s)
        | Inr (ino, ent) \<Rightarrow>
            if ent \<noteq> indirect d then do {
              massert (indirect d = 0);
              bmap_out ino (sin\<lparr>din := d\<lparr>indirect := ent\<rparr>, sin_dirty := True\<rparr>) s
            }
            else bmap_out ino sin s
      }
      else None)"

definition sfs_bmap_free_sub_nolock :: "nat \<Rightarrow> nat \<Rightarrow> sfs_fs \<Rightarrow> (int \<times> sfs_fs) option" where
  "sfs_bmap_free_sub_nolock ent index s = do {
     u \<leftarrow> sfs_block_inuse ent s;
     massert (u \<and> index < SFS_BLK_NENTRY);
     let offset = index * 4;
     (ret, ino, s) \<leftarrow> sfs_rbuf32 ent offset s;
     if ret \<noteq> 0 then Some (ret, s)
     else if ino \<noteq> 0 then do {
       (ret, s) \<leftarrow> sfs_wbuf32 0 ent offset s;
       if ret \<noteq> 0 then Some (ret, s) else do { s \<leftarrow> sfs_block_free ino s; Some (0, s) }
     }
     else Some (0, s)
   }"

definition sfs_bmap_free_nolock :: "sfs_inode \<Rightarrow> nat \<Rightarrow> sfs_fs \<Rightarrow> (int \<times> sfs_inode \<times> sfs_fs) option" where
  "sfs_bmap_free_nolock sin index s =
     (let d = din sin in
      if index < SFS_NDIRECT then
        if direct d ! index \<noteq> 0 then do {
          s \<leftarrow> sfs_block_free (direct d ! index) s;
          Some (0, sin\<lparr>din := d\<lparr>direct := (direct d)[index := 0]\<rparr>, sin_dirty := True\<rparr>, s)
        }
        else Some (0, sin, s)
      else if index - SFS_NDIRECT < SFS_BLK_NENTRY then
        if indirect d \<noteq> 0 then do {
          (ret, s) \<leftarrow> sfs_bmap_free_sub_nolock (indirect d) (index - SFS_NDIRECT) s;
          Some (ret, sin, s)
        }
        else Some (0, sin, s)
      else Some (0, sin, s))"

definition sfs_bmap_load_nolock :: "sfs_inode \<Rightarrow> nat \<Rightarrow> sfs_fs \<Rightarrow> ((int + nat) \<times> sfs_inode \<times> sfs_fs) option" where
  "sfs_bmap_load_nolock sin index s = do {
     massert (index \<le> din_blocks (din sin));
     let create = (index = din_blocks (din sin));
     (r, sin, s) \<leftarrow> sfs_bmap_get_nolock sin index create s;
     case r of
       Inl ret \<Rightarrow> Some (Inl ret, sin, s)
     | Inr ino \<Rightarrow> do {
         u \<leftarrow> sfs_block_inuse ino s;
         massert u;
         Some (Inr ino, if create then sin\<lparr>din := (din sin)\<lparr>din_blocks := din_blocks (din sin) + 1\<rparr>\<rparr> else sin, s)
       }
   }"

definition sfs_bmap_truncate_nolock :: "sfs_inode \<Rightarrow> sfs_fs \<Rightarrow> (int \<times> sfs_inode \<times> sfs_fs) option" where
  "sfs_bmap_truncate_nolock sin s = do {
     massert (din_blocks (din sin) \<noteq> 0);
     (ret, sin, s) \<leftarrow> sfs_bmap_free_nolock sin (din_blocks (din sin) - 1) s;
     if ret \<noteq> 0 then Some (ret, sin, s)
     else Some (0, sin\<lparr>din := (din sin)\<lparr>din_blocks := din_blocks (din sin) - 1\<rparr>, sin_dirty := True\<rparr>, s)
   }"

subsection \<open>Entries of the indirect block\<close>

definition entry :: "sfs_fs \<Rightarrow> nat \<Rightarrow> nat \<Rightarrow> nat" where
  "entry s e j = of_le (map (\<lambda>i. disk s e (4 * j + i)) [0..<4])"

lemma map4 [simp]: "map f [0..<4] = [f 0, f 1, f 2, f (3 :: nat)]"
  by (simp add: upt_conv_Cons numeral_3_eq_3 numeral_2_eq_2)

lemma rbuf32_ok:
  assumes "sfs_ok s" "used s e" "j < 1024"
  shows "\<exists>sb. sfs_rbuf32 e (j * 4) s = Some (0, entry s e j, s\<lparr>sfs_buffer := sb\<rparr>)"
  using rbuf_ok [OF assms(1,2), of "j * 4" 4 "of_list (le4 0)" 0] assms(3)
  by (auto simp: sfs_rbuf32_def entry_def paste_def ac_simps)

lemma wbuf32_ok:
  assumes "sfs_ok s" "used s e" "j < 1024"
  shows "\<exists>sb. sfs_wbuf32 n e (j * 4) s =
    Some (0, s\<lparr>sfs_buffer := sb, disk := (disk s)(e := paste (disk s e) (j * 4) (of_list (le4 n)) 0 4)\<rparr>)"
  using wbuf_ok [OF assms(1,2), of "j * 4" 4 "of_list (le4 n)" 0] assms(3)
  by (auto simp: sfs_wbuf32_def)

lemma entry_paste:
  assumes "n < 2 ^ 32" "disk s' e = paste (disk s e) (j * 4) (of_list (le4 n)) 0 4"
  shows "entry s' e i = (if i = j then n else entry s e i)"
proof (cases "i = j")
  case True
  have "map (\<lambda>k. disk s' e (4 * j + k)) [0..<4] = le4 n"
    using assms(2) by (simp add: paste_def of_list_def le4_def)
  then show ?thesis using True assms(1) of_le_le4 [of n] unfolding entry_def by presburger
next
  case False
  then have out: "\<not> (j * 4 \<le> 4 * i + k \<and> 4 * i + k < j * 4 + 4)" if "k < 4" for k using that by linarith
  have "disk s' e (4 * i + k) = disk s e (4 * i + k)" if "k < 4" for k
    using assms(2) out [OF that] by (auto simp: paste_def)
  then have "map (\<lambda>k. disk s' e (4 * i + k)) [0..<4] = map (\<lambda>k. disk s e (4 * i + k)) [0..<4]"
    by (intro map_cong) auto
  then show ?thesis using False unfolding entry_def by presburger
qed

lemma entry_cong: "disk s' e = disk s e \<Longrightarrow> entry s' e = entry s e"
  by (simp add: entry_def fun_eq_iff)

lemma entry_clear [simp]: "j < 1024 \<Longrightarrow> disk s e = (\<lambda>i. if i < 4096 then 0 else f i) \<Longrightarrow> entry s e j = 0"
  by (simp add: entry_def)

subsection \<open>Invariant of a file\<close>

definition bmap_at :: "sfs_fs \<Rightarrow> sfs_disk_inode \<Rightarrow> nat \<Rightarrow> nat" where
  "bmap_at s d i =
     (if i < 12 then direct d ! i else if indirect d = 0 then 0 else entry s (indirect d) (i - 12))"

definition file_ok :: "sfs_fs \<Rightarrow> sfs_disk_inode \<Rightarrow> bool" where
  "file_ok s d \<longleftrightarrow> length (direct d) = 12 \<and> din_blocks d \<le> 1036 \<and>
     (\<forall>i<1036. bmap_at s d i \<noteq> 0 \<longleftrightarrow> i < din_blocks d) \<and>
     (\<forall>i<din_blocks d. used s (bmap_at s d i) \<and> bmap_at s d i \<noteq> indirect d) \<and>
     inj_on (bmap_at s d) {..<din_blocks d} \<and> (indirect d \<noteq> 0 \<longrightarrow> used s (indirect d))"

definition file_blocks :: "sfs_fs \<Rightarrow> sfs_disk_inode \<Rightarrow> nat set" where
  "file_blocks s d = bmap_at s d ` {..<din_blocks d} \<union> {indirect d} - {0}"

text \<open>The map depends on the volume only through the indirect block.\<close>

lemma bmap_at_cong: "disk s' (indirect d) = disk s (indirect d) \<Longrightarrow> bmap_at s' d = bmap_at s d"
  by (rule ext) (simp add: bmap_at_def entry_def)

lemma file_ok_cong:
  assumes "file_ok s d" "\<And>b. used s b \<Longrightarrow> b \<in> file_blocks s d \<Longrightarrow> used s' b"
    "indirect d \<noteq> 0 \<Longrightarrow> disk s' (indirect d) = disk s (indirect d)"
  shows "file_ok s' d" "bmap_at s' d = bmap_at s d"
proof -
  show eq: "bmap_at s' d = bmap_at s d"
  proof (cases "indirect d = 0")
    case True
    then show ?thesis by (intro ext) (simp add: bmap_at_def)
  next
    case False
    then show ?thesis using assms(3) by (intro bmap_at_cong) simp
  qed
  show "file_ok s' d"
    using assms(1,2) unfolding file_ok_def eq by (auto simp: file_blocks_def used_def)
qed

lemma file_ok_sel [simp]:
  "bmap_at (s\<lparr>sfs_buffer := sb\<rparr>) = bmap_at s" "bmap_at s (d\<lparr>din_size := n\<rparr>) = bmap_at s d"
  by (intro ext, simp add: bmap_at_def entry_def)+

lemma file_ok_sel2 [simp]:
  "file_ok (s\<lparr>sfs_buffer := sb\<rparr>) = file_ok s" "file_ok s (d\<lparr>din_size := n\<rparr>) = file_ok s d"
  "file_blocks (s\<lparr>sfs_buffer := sb\<rparr>) = file_blocks s" "file_blocks s (d\<lparr>din_size := n\<rparr>) = file_blocks s d"
  by (simp_all add: file_ok_def fun_eq_iff file_blocks_def)

lemma file_ok_bmap: "file_ok s d \<Longrightarrow> i < din_blocks d \<Longrightarrow> used s (bmap_at s d i) \<and> bmap_at s d i \<noteq> 0 \<and> i < 1036"
  unfolding file_ok_def using order.strict_trans2 by blast

text \<open>\<open>appends s d b s' d'\<close>: \<open>d'\<close> is the file \<open>d\<close> with the former free block \<open>b\<close>, cleared, as its last block. Of the
  blocks in use only the indirect block of this file may have changed.\<close>

definition appends :: "sfs_fs \<Rightarrow> sfs_disk_inode \<Rightarrow> nat \<Rightarrow> sfs_fs \<Rightarrow> sfs_disk_inode \<Rightarrow> bool" where
  "appends s d b s' d' \<longleftrightarrow> sfs_ok s' \<and> file_ok s' d' \<and> din_blocks d' = din_blocks d + 1 \<and> din_size d' = din_size d \<and>
     din_type d' = din_type d \<and> din_nlinks d' = din_nlinks d \<and>
     b \<in> free s \<and> bmap_at s' d' (din_blocks d) = b \<and> (\<forall>i<din_blocks d. bmap_at s' d' i = bmap_at s d i) \<and>
     (\<forall>i<4096. disk s' b i = 0) \<and> super s' = (super s)\<lparr>unused_blocks := unused_blocks (super s')\<rparr> \<and>
     free s' = free s - file_blocks s' d' \<and>
     (indirect d' = indirect d \<or> indirect d' \<in> free s) \<and>
     (\<forall>k. used s k \<and> k \<noteq> indirect d \<longrightarrow> disk s' k = disk s k)"

text \<open>\<open>fresh s b s'\<close>: \<open>s'\<close> is \<open>s\<close> with the free block \<open>b\<close> taken and cleared.\<close>

definition fresh :: "sfs_fs \<Rightarrow> nat \<Rightarrow> sfs_fs \<Rightarrow> bool" where
  "fresh s b s' \<longleftrightarrow> b \<in> free s \<and> sfs_ok s' \<and> free s' = free s - {b} \<and> (\<forall>i<4096. disk s' b i = 0) \<and>
     (\<forall>k. k \<noteq> b \<longrightarrow> disk s' k = disk s k) \<and> super s' = (super s)\<lparr>unused_blocks := unused_blocks (super s')\<rparr>"

lemma alloc_fresh:
  assumes "sfs_ok s" "free s \<noteq> {}"
  shows "\<exists>b s'. sfs_block_alloc s = Some (Inr b, s') \<and> fresh s b s'"
proof -
  let ?b = "Min (free s)"
  obtain s' fm sb where s': "sfs_block_alloc s = Some (Inr ?b, s')" "sfs_ok s'" "free s' = free s - {?b}"
    "s' = s\<lparr>freemap := fm, super := (super s)\<lparr>unused_blocks := unused_blocks (super s) - 1\<rparr>, super_dirty := True, sfs_buffer := sb,
        disk := (disk s)(?b := (\<lambda>i. if i < 4096 then 0 else disk s ?b i))\<rparr>"
    using block_alloc_ok [OF assms(1)] unfolding if_not_P [OF assms(2)] by blast
  have b: "?b \<in> free s" using assms(2) by simp
  have sup: "disk s' = (disk s)(?b := (\<lambda>i. if i < 4096 then 0 else disk s ?b i))"
    "super s' = (super s)\<lparr>unused_blocks := unused_blocks (super s')\<rparr>"
    by (subst s'(4), simp)+
  have "fresh s ?b s'" using b s'(2,3) sup by (simp add: fresh_def)
  then show ?thesis using s'(1) by blast
qed

lemma freshD:
  assumes "sfs_ok s" "fresh s b s'"
  shows "b \<in> free s" "sfs_ok s'" "free s' = free s - {b}" "0 < b" "b < 2 ^ 32" "used s' k \<longleftrightarrow> used s k \<or> k = b"
    "\<not> used s b" "k \<noteq> b \<Longrightarrow> disk s' k = disk s k" "i < 4096 \<Longrightarrow> disk s' b i = 0"
    "super s' = (super s)\<lparr>unused_blocks := unused_blocks (super s')\<rparr>" "j < 1024 \<Longrightarrow> entry s' b j = 0"
proof -
  note f = assms(2) [unfolded fresh_def]
  then show "b \<in> free s" "sfs_ok s'" "free s' = free s - {b}" "k \<noteq> b \<Longrightarrow> disk s' k = disk s k" "i < 4096 \<Longrightarrow> disk s' b i = 0"
    and sup: "super s' = (super s)\<lparr>unused_blocks := unused_blocks (super s')\<rparr>" by blast+
  have b: "0 < b" "b < blocks (super s)" "blocks (super s) * 4096 \<le> 2 ^ 32" using assms(1) f by (auto simp: sfs_ok_def)
  then show "0 < b" "b < 2 ^ 32" by linarith+
  have bl: "blocks (super s') = blocks (super s)" by (subst sup) simp
  show "used s' k \<longleftrightarrow> used s k \<or> k = b" "\<not> used s b" using b(1,2) f bl by (auto simp: used_def)
  show "j < 1024 \<Longrightarrow> entry s' b j = 0" using f by (simp add: entry_def)
qed

lemma no_space: "sfs_ok s \<Longrightarrow> free s = {} \<Longrightarrow> sfs_block_alloc s = Some (Inl (- E_NO_MEM), s)"
  using block_alloc_ok by auto

lemma file_ok_append:
  assumes d: "file_ok s d" and n: "din_blocks d < 1036" "din_blocks d' = din_blocks d + 1" "length (direct d') = 12"
    and at: "\<forall>i<1036. bmap_at s' d' i = (if i = din_blocks d then b else bmap_at s d i)"
    and b: "b \<in> free s" "0 < b" "used s' b" "b \<noteq> indirect d'"
    and u: "\<And>k. used s k \<Longrightarrow> used s' k"
    and e: "indirect d' \<noteq> 0 \<longrightarrow> used s' (indirect d')" "indirect d' = indirect d \<or> indirect d' \<in> free s"
  shows "file_ok s' d'"
    "file_blocks s' d' = insert b (bmap_at s d ` {..<din_blocks d} \<union> {indirect d'} - {0})"
proof -
  note old = d [unfolded file_ok_def]
  have lt: "i < 1036" if "i < din_blocks d'" for i using that n by linarith
  have mem: "used s (bmap_at s d i)" "bmap_at s d i \<noteq> indirect d" "bmap_at s d i \<noteq> b" if "i < din_blocks d" for i
    using old that b(1) by (auto simp: used_def)
  have fr: "bmap_at s d i \<noteq> indirect d'" if "i < din_blocks d" for i
    using mem(1,2) [OF that] e(2) by (auto simp: used_def)
  have im: "bmap_at s' d' ` {..<din_blocks d} = bmap_at s d ` {..<din_blocks d}"
    using at n(1) by (intro image_cong) auto
  have all: "{..<din_blocks d'} = insert (din_blocks d) {..<din_blocks d}" using n(2) by auto
  have "inj_on (bmap_at s' d') {..<din_blocks d}"
    using old at n(1) by (auto simp: inj_on_def)
  then have inj: "inj_on (bmap_at s' d') {..<din_blocks d'}"
    using mem(3) at n(1) unfolding all inj_on_insert im by auto
  have "\<forall>i<din_blocks d'. used s' (bmap_at s' d' i) \<and> bmap_at s' d' i \<noteq> indirect d'"
    using mem(1) fr at b(3,4) u n by (auto simp: less_Suc_eq)
  moreover have "\<forall>i<1036. bmap_at s' d' i \<noteq> 0 \<longleftrightarrow> i < din_blocks d'"
    using old at b(2) n(2) by auto
  ultimately show "file_ok s' d'" using n inj e(1) by (simp add: file_ok_def)
  show "file_blocks s' d' = insert b (bmap_at s d ` {..<din_blocks d} \<union> {indirect d'} - {0})"
    using b(2) at n(1) unfolding file_blocks_def all image_insert im by auto
qed

lemma bmap_out_ok: "sfs_ok s \<Longrightarrow> used s b \<Longrightarrow> bmap_out b sin s = Some (Inr b, sin, s)"
  by (simp add: bmap_out_def)

lemma bmap_at_next: "file_ok s d \<Longrightarrow> din_blocks d < 1036 \<Longrightarrow> bmap_at s d (din_blocks d) = 0"
  unfolding file_ok_def by (metis less_irrefl)

lemma get_append_direct:
  assumes s: "sfs_ok s" and d: "file_ok s (din sin)" and n: "din_blocks (din sin) < 12" and f: "free s \<noteq> {}"
  shows "\<exists>b sin' s'. sfs_bmap_get_nolock sin (din_blocks (din sin)) True s = Some (Inr b, sin', s') \<and>
    appends s (din sin) b s' ((din sin')\<lparr>din_blocks := din_blocks (din sin) + 1\<rparr>) \<and> sin_ino sin' = sin_ino sin \<and>
    din_blocks (din sin') = din_blocks (din sin) \<and> sin_dirty sin'"
proof -
  let ?d = "din sin" and ?n = "din_blocks (din sin)"
  obtain b s' where al: "sfs_block_alloc s = Some (Inr b, s')" "fresh s b s'" using alloc_fresh [OF s f] by blast
  note b = freshD [OF s al(2)]
  let ?sin = "sin\<lparr>din := ?d\<lparr>direct := (direct ?d)[?n := b]\<rparr>, sin_dirty := True\<rparr>"
  let ?e = "(din ?sin)\<lparr>din_blocks := ?n + 1\<rparr>"
  have len: "length (direct ?d) = 12" using d by (simp add: file_ok_def)
  have z: "direct ?d ! ?n = 0" using bmap_at_next [OF d] n by (simp add: bmap_at_def)
  have ind: "disk s' (indirect ?d) = disk s (indirect ?d)" if "indirect ?d \<noteq> 0"
    using b(7) b(8) [of "indirect ?d"] d that by (auto simp: file_ok_def)
  have at: "bmap_at s' ?e i = (if i = ?n then b else bmap_at s ?d i)" for i
    using ind n len by (cases "indirect ?d = 0") (auto simp: bmap_at_def entry_def nth_list_update)
  have di: "b \<noteq> indirect ?e" "indirect ?e \<noteq> 0 \<longrightarrow> used s' (indirect ?e)" "indirect ?e = indirect ?d"
    using d b(4,6,7) by (auto simp: file_ok_def)
  have nn: "?n < 1036" "din_blocks ?e = ?n + 1" "length (direct ?e) = 12" using n len by auto
  have ok: "file_ok s' ?e" "file_blocks s' ?e = insert b (bmap_at s ?d ` {..<?n} \<union> {indirect ?d} - {0})"
    using file_ok_append [OF d nn, of s' b] at b(1,4,6) di by (auto simp del: One_nat_def)
  have "free s' = free s - file_blocks s' ?e"
    using b(3) d unfolding ok(2) by (auto simp: file_ok_def used_def)
  moreover have "\<forall>k. used s k \<and> k \<noteq> indirect ?d \<longrightarrow> disk s' k = disk s k" using b(7,8) by metis
  ultimately have "appends s ?d b s' ?e"
    using b(1,2,9,10) ok(1) at by (simp add: appends_def)
  moreover have "sfs_bmap_get_nolock sin ?n True s = Some (Inr b, ?sin, s')"
    using n z al(1) bmap_out_ok [OF b(2), of b] b(6) by (simp add: sfs_bmap_get_nolock_def Let_def)
  ultimately show ?thesis by (intro exI [of _ b] exI [of _ ?sin] exI [of _ s']) simp
qed

text \<open>\<open>entered s e j b s'\<close>: the free block \<open>b\<close> of \<open>s\<close> is taken, cleared, and entered at \<open>j\<close> in the indirect
  block \<open>e\<close>.\<close>

definition entered :: "sfs_fs \<Rightarrow> nat \<Rightarrow> nat \<Rightarrow> nat \<Rightarrow> sfs_fs \<Rightarrow> bool" where
  "entered s e j b s' \<longleftrightarrow> b \<in> free s \<and> b \<noteq> e \<and> 0 < b \<and> sfs_ok s' \<and> free s' = free s - {b} \<and> (\<forall>i<4096. disk s' b i = 0) \<and>
     (\<forall>k. used s' k \<longleftrightarrow> used s k \<or> k = b) \<and> (\<forall>k. k \<noteq> b \<and> k \<noteq> e \<longrightarrow> disk s' k = disk s k) \<and>
     (\<forall>i. entry s' e i = (if i = j then b else entry s e i)) \<and>
     super s' = (super s)\<lparr>unused_blocks := unused_blocks (super s')\<rparr>"

lemma sub_create_ok:
  assumes s: "sfs_ok s" and e: "used s e" and j: "j < 1024" and f: "free s \<noteq> {}"
  shows "\<exists>b s'. sub_create entp e (j * 4) s = Some (Inr (b, e), s') \<and> entered s e j b s'"
proof -
  obtain b s1 where al: "sfs_block_alloc s = Some (Inr b, s1)" "fresh s b s1" using alloc_fresh [OF s f] by blast
  note b = freshD [OF s al(2)]
  have be: "b \<noteq> e" using b(7) e by blast
  obtain sb where w: "sfs_wbuf32 b e (j * 4) s1 =
      Some (0, s1\<lparr>sfs_buffer := sb, disk := (disk s1)(e := paste (disk s1 e) (j * 4) (of_list (le4 b)) 0 4)\<rparr>)"
    using wbuf32_ok [OF b(2) _ j, of e b] b(6) e by blast
  let ?s = "s1\<lparr>sfs_buffer := sb, disk := (disk s1)(e := paste (disk s1 e) (j * 4) (of_list (le4 b)) 0 4)\<rparr>"
  have de: "disk s1 e = disk s e" using b(8) be by metis
  have "entry ?s e i = (if i = j then b else entry s1 e i)" for i using entry_paste [OF b(5), of ?s e s1 j i] by simp
  moreover have "entry s1 e i = entry s e i" for i using de by (simp add: entry_def)
  moreover have "disk ?s k = disk s k" if "k \<noteq> b" "k \<noteq> e" for k using b(8) that by simp
  moreover have "super ?s = (super s)\<lparr>unused_blocks := unused_blocks (super ?s)\<rparr>" using b(10) by simp
  ultimately have "entered s e j b ?s" using b(1-4,6,9) be by (simp add: entered_def)
  moreover have "sub_create entp e (j * 4) s = Some (Inr (b, e), ?s)" using al(1) w by (simp add: sub_create_def)
  ultimately show ?thesis by blast
qed

lemma appends_indirect:
  assumes s: "sfs_ok s" and d: "file_ok s d" and n: "12 \<le> din_blocks d" "din_blocks d < 1036"
    and e: "if indirect d = 0 then fresh s e s1 else e = indirect d \<and> s1 = s\<lparr>sfs_buffer := sb\<rparr>"
    and en: "entered s1 e (din_blocks d - 12) b s'"
  shows "appends s d b s' (d\<lparr>indirect := e, din_blocks := din_blocks d + 1\<rparr>)"
proof -
  let ?d = "d\<lparr>indirect := e, din_blocks := din_blocks d + 1\<rparr>"
  note en = en [unfolded entered_def]
  have "free s1 \<subseteq> free s \<and> free s1 = free s - (if indirect d = 0 then {e} else {}) \<and> 0 < e \<and> used s1 e \<and>
      (e = indirect d \<or> e \<in> free s) \<and> (\<forall>k. used s k \<longrightarrow> used s1 k) \<and>
      (\<forall>k. used s k \<and> k \<noteq> indirect d \<longrightarrow> k \<noteq> e \<and> disk s1 k = disk s k) \<and>
      super s1 = (super s)\<lparr>unused_blocks := unused_blocks (super s1)\<rparr> \<and>
      (\<forall>i<1024. entry s1 e i = (if indirect d = 0 then 0 else entry s e i))"
  proof (cases "indirect d = 0")
    case True
    then have fr: "fresh s e s1" using e by simp
    note f = freshD [OF s fr]
    have "\<forall>k. used s k \<longrightarrow> k \<noteq> e \<and> disk s1 k = disk s k" using f(7,8) by metis
    then show ?thesis
      using True f(1,3,4,6,10,11) by auto
  next
    case False
    then show ?thesis
      using e d by (simp add: file_ok_def entry_def)
  qed
  then have s1: "free s1 \<subseteq> free s" "free s1 = free s - (if indirect d = 0 then {e} else {})" "0 < e" "used s1 e"
    "e = indirect d \<or> e \<in> free s" "\<forall>k. used s k \<longrightarrow> used s1 k" "\<forall>k. used s k \<and> k \<noteq> indirect d \<longrightarrow> k \<noteq> e \<and> disk s1 k = disk s k"
    "super s1 = (super s)\<lparr>unused_blocks := unused_blocks (super s1)\<rparr>"
    "\<forall>i<1024. entry s1 e i = (if indirect d = 0 then 0 else entry s e i)"
    by blast+
  have at: "\<forall>i<1036. bmap_at s' ?d i = (if i = din_blocks d then b else bmap_at s d i)"
    using en s1(3,9) e n by (auto simp: bmap_at_def)
  have b: "b \<in> free s" "0 < b" "used s' b" "b \<noteq> indirect ?d" using en s1(1) by auto
  have u: "\<And>k. used s k \<Longrightarrow> used s' k" using en s1(6) by blast
  have ee: "indirect ?d \<noteq> 0 \<longrightarrow> used s' (indirect ?d)" "indirect ?d = indirect d \<or> indirect ?d \<in> free s"
    using en s1(4,5) by auto
  have ok: "file_ok s' ?d" "file_blocks s' ?d = insert b (bmap_at s d ` {..<din_blocks d} \<union> {indirect ?d} - {0})"
    using file_ok_append [OF d n(2) _ _ at b u ee] d by (auto simp: file_ok_def)
  have "free s \<inter> bmap_at s d ` {..<din_blocks d} = {}" using d by (auto simp: file_ok_def used_def)
  moreover have "free s1 = free s - {e}"
  proof (cases "indirect d = 0")
    case True
    then show ?thesis using s1(2) by simp
  next
    case False
    then have "e \<notin> free s" using e d by (simp add: file_ok_def used_def)
    then show ?thesis using s1(2) False by simp
  qed
  moreover have "free s' = free s1 - {b}" using en by blast
  ultimately have "free s' = free s - file_blocks s' ?d"
    unfolding ok(2) using s1(3) by auto
  moreover have "\<forall>k. used s k \<and> k \<noteq> indirect d \<longrightarrow> disk s' k = disk s k"
    using en s1(7) b(1) by (metis used_def)
  moreover have "super s' = (super s)\<lparr>unused_blocks := unused_blocks (super s')\<rparr>"
    using en s1(8) by (metis sfs_super.surjective sfs_super.update_convs(3))
  ultimately show ?thesis using en b(1) ok(1) at n ee(2) by (simp add: appends_def)
qed

lemma get_append_indirect:
  assumes s: "sfs_ok s" and d: "file_ok s (din sin)" and n: "12 \<le> din_blocks (din sin)" "din_blocks (din sin) < 1036"
    and f: "if indirect (din sin) = 0 then 2 \<le> card (free s) else free s \<noteq> {}"
  shows "\<exists>b sin' s'. sfs_bmap_get_nolock sin (din_blocks (din sin)) True s = Some (Inr b, sin', s') \<and>
    appends s (din sin) b s' ((din sin')\<lparr>din_blocks := din_blocks (din sin) + 1\<rparr>) \<and> sin_ino sin' = sin_ino sin \<and>
    din_blocks (din sin') = din_blocks (din sin)"
proof -
  let ?d = "din sin" and ?n = "din_blocks (din sin)"
  have j: "?n - 12 < 1024" using n by linarith
  have z: "bmap_at s ?d ?n = 0" using bmap_at_next [OF d n(2)] .
  show ?thesis
  proof (cases "indirect ?d = 0")
    case False
    then have u: "used s (indirect ?d)" using d by (simp add: file_ok_def)
    obtain sb where r: "sfs_rbuf32 (indirect ?d) ((?n - 12) * 4) s = Some (0, 0, s\<lparr>sfs_buffer := sb\<rparr>)"
      using rbuf32_ok [OF s u j] z False n(1) by (auto simp: bmap_at_def)
    obtain b s' where c: "sub_create (indirect ?d) (indirect ?d) ((?n - 12) * 4) (s\<lparr>sfs_buffer := sb\<rparr>) = Some (Inr (b, indirect ?d), s')"
      "entered (s\<lparr>sfs_buffer := sb\<rparr>) (indirect ?d) (?n - 12) b s'"
      using sub_create_ok [of "s\<lparr>sfs_buffer := sb\<rparr>" "indirect ?d" "?n - 12" "indirect ?d"] s u j f False by auto
    have ap: "appends s ?d b s' (?d\<lparr>indirect := indirect ?d, din_blocks := ?n + 1\<rparr>)"
      using appends_indirect [OF s d n _ c(2)] False by simp
    have "sfs_ok s'" "used s' b" using c(2) by (auto simp: entered_def)
    then have "sfs_bmap_get_nolock sin ?n True s = Some (Inr b, sin, s')"
      using n j r c(1) False bmap_out_ok by (simp add: sfs_bmap_get_nolock_def sfs_bmap_get_sub_nolock_def Let_def)
    then show ?thesis using ap by auto
  next
    case True
    have ne: "free s \<noteq> {}" using f True by auto
    obtain e s1 where al: "sfs_block_alloc s = Some (Inr e, s1)" "fresh s e s1" using alloc_fresh [OF s ne] by blast
    note fr = freshD [OF s al(2)]
    have "card (free s1) = card (free s) - 1" using fr(1,3) by simp
    then have "free s1 \<noteq> {}" using f True by auto
    then obtain b s' where c: "sub_create 0 e ((?n - 12) * 4) s1 = Some (Inr (b, e), s')" "entered s1 e (?n - 12) b s'"
      using sub_create_ok [OF fr(2) _ j, of e 0] fr(6) by blast
    have ap: "appends s ?d b s' (?d\<lparr>indirect := e, din_blocks := ?n + 1\<rparr>)"
      using appends_indirect [OF s d n _ c(2)] True al(2) by simp
    have "sfs_ok s'" "used s' b" using c(2) by (auto simp: entered_def)
    then have "sfs_bmap_get_nolock sin ?n True s =
        Some (Inr b, sin\<lparr>din := ?d\<lparr>indirect := e\<rparr>, sin_dirty := True\<rparr>, s')"
      using n j al(1) c(1) True bmap_out_ok fr(4) by (simp add: sfs_bmap_get_nolock_def sfs_bmap_get_sub_nolock_def Let_def)
    then show ?thesis using ap by auto
  qed
qed

text \<open>The number of blocks an append needs.\<close>

definition needed :: "sfs_disk_inode \<Rightarrow> nat" where
  "needed d = (if 12 \<le> din_blocks d \<and> indirect d = 0 then 2 else 1)"

lemma load_existing:
  assumes s: "sfs_ok s" and d: "file_ok s (din sin)" and i: "i < din_blocks (din sin)"
  shows "\<exists>sb. sfs_bmap_load_nolock sin i s = Some (Inr (bmap_at s (din sin) i), sin, s\<lparr>sfs_buffer := sb\<rparr>)"
proof -
  let ?b = "bmap_at s (din sin) i"
  have b: "used s ?b" "?b \<noteq> 0" "i < 1036" using file_ok_bmap [OF d i] by auto
  have "\<exists>sb. sfs_bmap_get_nolock sin i False s = Some (Inr ?b, sin, s\<lparr>sfs_buffer := sb\<rparr>)"
  proof (cases "i < 12")
    case True
    then have "sfs_bmap_get_nolock sin i False s = Some (Inr ?b, sin, s)"
      using bmap_out_ok [OF s b(1)] by (simp add: sfs_bmap_get_nolock_def bmap_at_def)
    then show ?thesis by (metis sfs_fs.surjective sfs_fs.update_convs(6))
  next
    case False
    then have e: "indirect (din sin) \<noteq> 0" "entry s (indirect (din sin)) (i - 12) = ?b"
      using b(2) by (auto simp: bmap_at_def split: if_splits)
    have j: "i - 12 < 1024" using b(3) False by linarith
    have u: "used s (indirect (din sin))" using d e(1) by (simp add: file_ok_def)
    obtain sb where "sfs_rbuf32 (indirect (din sin)) ((i - 12) * 4) s = Some (0, ?b, s\<lparr>sfs_buffer := sb\<rparr>)"
      using rbuf32_ok [OF s u j] e(2) by auto
    then show ?thesis using False j e(1) s b(1,2) bmap_out_ok [of "s\<lparr>sfs_buffer := sb\<rparr>" ?b sin]
      by (auto simp: sfs_bmap_get_nolock_def sfs_bmap_get_sub_nolock_def Let_def)
  qed
  then show ?thesis using s b(1) i by (auto simp: sfs_bmap_load_nolock_def)
qed

lemma load_append:
  assumes s: "sfs_ok s" and d: "file_ok s (din sin)" and n: "din_blocks (din sin) < 1036"
    and f: "needed (din sin) \<le> card (free s)"
  shows "\<exists>b sin' s'. sfs_bmap_load_nolock sin (din_blocks (din sin)) s = Some (Inr b, sin', s') \<and>
    appends s (din sin) b s' (din sin') \<and> sin_ino sin' = sin_ino sin"
proof -
  let ?n = "din_blocks (din sin)"
  have ne: "free s \<noteq> {}" using f by (auto simp: needed_def split: if_splits)
  have "\<exists>b sin' s'. sfs_bmap_get_nolock sin ?n True s = Some (Inr b, sin', s') \<and>
    appends s (din sin) b s' ((din sin')\<lparr>din_blocks := ?n + 1\<rparr>) \<and> sin_ino sin' = sin_ino sin \<and>
    din_blocks (din sin') = ?n"
  proof (cases "?n < 12")
    case True
    then show ?thesis using get_append_direct [OF s d True ne] by blast
  next
    case False
    then show ?thesis using get_append_indirect [OF s d _ n] f ne by (auto simp: needed_def not_less split: if_splits)
  qed
  then obtain b sin' s' where g: "sfs_bmap_get_nolock sin ?n True s = Some (Inr b, sin', s')"
    "appends s (din sin) b s' ((din sin')\<lparr>din_blocks := ?n + 1\<rparr>)" "sin_ino sin' = sin_ino sin" "din_blocks (din sin') = ?n"
    by blast
  let ?sin = "sin'\<lparr>din := (din sin')\<lparr>din_blocks := din_blocks (din sin') + 1\<rparr>\<rparr>"
  have "sfs_ok s'" "used s' b"
    using g(2) file_ok_bmap [of s' "(din sin')\<lparr>din_blocks := ?n + 1\<rparr>" ?n] by (auto simp: appends_def)
  then have "sfs_bmap_load_nolock sin ?n s = Some (Inr b, ?sin, s')"
    using g(1) by (simp add: sfs_bmap_load_nolock_def)
  then show ?thesis using g by (intro exI [of _ b] exI [of _ ?sin] exI [of _ s']) simp
qed

text \<open>\<open>same_volume s s'\<close>: allocation and the blocks in use are as before.\<close>

definition same_volume :: "sfs_fs \<Rightarrow> sfs_fs \<Rightarrow> bool" where
  "same_volume s s' \<longleftrightarrow> sfs_ok s' \<and> free s' = free s \<and> super s' = super s \<and> (\<forall>k. used s k \<longrightarrow> disk s' k = disk s k)"

lemma same_volume_buffer: "sfs_ok s \<Longrightarrow> same_volume s (s\<lparr>sfs_buffer := sb\<rparr>)"
  by (simp add: same_volume_def)

lemma same_volume_self: "sfs_ok s \<Longrightarrow> same_volume s s"
  by (simp add: same_volume_def)

lemma same_volumeD:
  assumes "same_volume s s'"
  shows "sfs_ok s'" "used s' = used s" "file_ok s d \<Longrightarrow> file_ok s' d \<and> bmap_at s' d = bmap_at s d"
proof -
  show "sfs_ok s'" and u: "used s' = used s" using assms by (auto simp: same_volume_def used_def fun_eq_iff)
  show "file_ok s d \<Longrightarrow> file_ok s' d \<and> bmap_at s' d = bmap_at s d"
    using file_ok_cong [of s d s'] assms u by (auto simp: same_volume_def file_ok_def)
qed

lemma load_no_space:
  assumes s: "sfs_ok s" and d: "file_ok s (din sin)" and n: "din_blocks (din sin) < 1036"
    and f: "card (free s) < needed (din sin)"
  shows "\<exists>s'. sfs_bmap_load_nolock sin (din_blocks (din sin)) s = Some (Inl (- E_NO_MEM), sin, s') \<and> same_volume s s'"
proof -
  let ?d = "din sin" and ?n = "din_blocks (din sin)"
  have z: "bmap_at s ?d ?n = 0" using bmap_at_next [OF d n] .
  have j: "?n - 12 < 1024" using n by linarith
  consider "?n < 12" | "12 \<le> ?n" "indirect ?d \<noteq> 0" | "12 \<le> ?n" "indirect ?d = 0" "free s = {}" |
    "12 \<le> ?n" "indirect ?d = 0" "free s \<noteq> {}" by linarith
  then show ?thesis
  proof cases
    case 1
    then have "free s = {}" using f by (simp add: needed_def)
    then show ?thesis using 1 z no_space [OF s] same_volume_self [OF s]
      by (simp add: sfs_bmap_load_nolock_def sfs_bmap_get_nolock_def bmap_at_def)
  next
    case 2
    then have e: "free s = {}" and u: "used s (indirect ?d)" using f d by (auto simp: needed_def file_ok_def)
    obtain sb where "sfs_rbuf32 (indirect ?d) ((?n - 12) * 4) s = Some (0, 0, s\<lparr>sfs_buffer := sb\<rparr>)"
      using rbuf32_ok [OF s u j] z 2 by (auto simp: bmap_at_def)
    then have "sfs_bmap_load_nolock sin ?n s = Some (Inl (- E_NO_MEM), sin, s\<lparr>sfs_buffer := sb\<rparr>)"
      using 2 j no_space [of "s\<lparr>sfs_buffer := sb\<rparr>"] s e
      by (simp add: sfs_bmap_load_nolock_def sfs_bmap_get_nolock_def sfs_bmap_get_sub_nolock_def sub_create_def sub_cleanup_def Let_def)
    then show ?thesis using same_volume_buffer [OF s] by blast
  next
    case 3
    then have "sfs_bmap_load_nolock sin ?n s = Some (Inl (- E_NO_MEM), sin, s)"
      using j no_space [OF s]
      by (simp add: sfs_bmap_load_nolock_def sfs_bmap_get_nolock_def sfs_bmap_get_sub_nolock_def Let_def)
    then show ?thesis using same_volume_self [OF s] by blast
  next
    case 4
    obtain e s1 where al: "sfs_block_alloc s = Some (Inr e, s1)" "fresh s e s1" using alloc_fresh [OF s 4(3)] by blast
    note fr = freshD [OF s al(2)]
    have "card (free s) < 2" "0 < card (free s)" using f 4 by (simp_all add: needed_def card_gt_0_iff)
    then have "card (free s) = 1" by linarith
    then have "free s = {e}" using fr(1) by (auto simp: card_1_singleton_iff)
    then have e: "free s1 = {}" using fr(3) by simp
    have u: "used s1 e" using fr(6) by simp
    obtain s2 fm where s2: "sfs_block_free e s1 = Some s2" "sfs_ok s2" "free s2 = insert e (free s1)"
      "s2 = s1\<lparr>freemap := fm, super := (super s1)\<lparr>unused_blocks := unused_blocks (super s1) + 1\<rparr>, super_dirty := True\<rparr>"
      using block_free_ok [OF fr(2) u] by blast
    have sup: "super s2 = (super s)\<lparr>unused_blocks := unused_blocks (super s2)\<rparr>" "disk s2 = disk s1"
      unfolding s2(4) by (subst fr(10), simp) simp
    have "free s2 = free s" using s2(3) e \<open>free s = {e}\<close> by simp
    moreover have "unused_blocks (super s2) = unused_blocks (super s)"
      using s2(2) s \<open>free s2 = free s\<close> by (simp add: sfs_ok_def)
    moreover have "\<forall>k. used s k \<longrightarrow> disk s2 k = disk s k" using fr(7,8) sup(2) by metis
    ultimately have "same_volume s s2" using s2(2) sup(1) by (simp add: same_volume_def)
    moreover have "sfs_bmap_load_nolock sin ?n s = Some (Inl (- E_NO_MEM), sin, s2)"
      using 4 j al(1) no_space [OF fr(2) e] s2(1) fr(4)
      by (simp add: sfs_bmap_load_nolock_def sfs_bmap_get_nolock_def sfs_bmap_get_sub_nolock_def sub_create_def sub_cleanup_def Let_def)
    ultimately show ?thesis by blast
  qed
qed

lemma load_out_of_range:
  assumes "din_blocks (din sin) < i \<or> 1036 \<le> i"
  shows "sfs_bmap_load_nolock sin i s = None"
  using assms by (auto simp: sfs_bmap_load_nolock_def sfs_bmap_get_nolock_def Let_def)

text \<open>C7: Every outcome of \<^verbatim>\<open>sfs_bmap_load_nolock\<close>. An existing block is looked up and nothing changes. For the
  index after the last block a free block is taken, cleared and appended, and the indirect block is
  allocated when it is needed; the file and volume invariants are kept, exactly the blocks of the file
  leave the free set, and no other block in use changes. Without enough free blocks the call returns
  \<^verbatim>\<open>-E_NO_MEM\<close>, with everything allocated on the way given back. Beyond that, and beyond block 1035, it
  panics.\<close>

theorem sfs_bmap_load_correct:
  assumes s: "sfs_ok s" and d: "file_ok s (din sin)"
  shows "if i < din_blocks (din sin)
    then \<exists>sb. sfs_bmap_load_nolock sin i s = Some (Inr (bmap_at s (din sin) i), sin, s\<lparr>sfs_buffer := sb\<rparr>)
    else if i = din_blocks (din sin) \<and> i < 1036
    then if needed (din sin) \<le> card (free s)
      then \<exists>b sin' s'. sfs_bmap_load_nolock sin i s = Some (Inr b, sin', s') \<and> appends s (din sin) b s' (din sin') \<and>
        sin_ino sin' = sin_ino sin
      else \<exists>s'. sfs_bmap_load_nolock sin i s = Some (Inl (- E_NO_MEM), sin, s') \<and> same_volume s s'
    else sfs_bmap_load_nolock sin i s = None"
  using load_existing [OF s d] load_append [OF s d] load_no_space [OF s d] load_out_of_range [of sin i s]
  by (auto simp: not_le)

text \<open>A volume of 64 blocks, the first three in use, and an empty file on it.\<close>

definition small_volume :: sfs_fs where
  "small_volume = \<lparr>super = \<lparr>magic = 0x2f8dbe2a, blocks = 64, unused_blocks = 61, info = replicate 32 0\<rparr>, dev_blocks = 64,
     disk = \<lambda>_ _. 0, freemap = \<lparr>nbits = 64, nwords = 2, bmap = [0xFFFFFFF8, 0xFFFFFFFF]\<rparr>, super_dirty = False,
     sfs_buffer = \<lambda>_. 0\<rparr>"

definition empty_file :: sfs_inode where
  "empty_file = \<lparr>din = \<lparr>din_size = 0, din_type = 1, din_nlinks = 1, din_blocks = 0, direct = replicate 12 0, indirect = 0\<rparr>,
     sin_ino = 2, sin_dirty = False, reclaim_count = 1\<rparr>"

lemma small_volume_free: "free small_volume = {3..<64}"
proof -
  have "bit_at (freemap small_volume) i \<longleftrightarrow> 3 \<le> i" if "i < 64" for i
  proof -
    have "\<forall>i\<in>set [0..<64]. bit_at (freemap small_volume) i \<longleftrightarrow> 3 \<le> i"
      by (simp add: small_volume_def bit_at_def upt_rec)
    then show ?thesis using that by simp
  qed
  then show ?thesis by (auto simp: free_bits_def) (auto simp: small_volume_def)
qed

lemma small_volume_ok: "sfs_ok small_volume" "file_ok small_volume (din empty_file)"
proof -
  show "sfs_ok small_volume"
    using small_volume_free by (simp add: sfs_ok_def bitmap_ok_def) (auto simp: small_volume_def)
  show "file_ok small_volume (din empty_file)"
    by (simp add: file_ok_def empty_file_def bmap_at_def)
qed

theorem sfs_bmap_load_correct_witness:
  "\<exists>b sin' s'. sfs_bmap_load_nolock empty_file 0 small_volume = Some (Inr b, sin', s') \<and>
     appends small_volume (din empty_file) b s' (din sin') \<and> sin_ino sin' = 2"
  using sfs_bmap_load_correct [OF small_volume_ok, of 0] small_volume_free
  by (simp add: empty_file_def needed_def)

end
