(* ===== verification/Sfs_File.thy ===== *)
theory Sfs_File
  imports Sfs_Bmap
begin

section \<open>Reading and writing files (fs/sfs/sfs_inode.c: sfs_io_nolock)\<close>

text \<open>
  A file is a sequence of bytes: \<open>fbyte s d p\<close> is the byte at position \<open>p\<close>, found through the block map. The
  lemmas show that \<^verbatim>\<open>sfs_io_nolock\<close> reads and writes this sequence, whatever the alignment of the range.
  File positions are signed 64-bit numbers that wrap; the buffer is its contents from \<^verbatim>\<open>buf\<close> on.
\<close>

subsection \<open>Operations\<close>

abbreviation (input) SFS_MAX_FILE_SIZE :: nat where "SFS_MAX_FILE_SIZE \<equiv> 1024 * 1024 * 128"
abbreviation (input) SFS_TYPE_DIR :: nat where "SFS_TYPE_DIR \<equiv> 2"

definition swrap :: "int \<Rightarrow> int" where
  "swrap x = (x + 2 ^ 63) mod 2 ^ 64 - 2 ^ 63"

type_synonym io_state = "int \<times> nat \<times> contents \<times> sfs_inode \<times> sfs_fs"

text \<open>Part of one block: the first and the last block of an unaligned range.\<close>

definition io_buf :: "bool \<Rightarrow> contents \<Rightarrow> nat \<Rightarrow> nat \<Rightarrow> nat \<Rightarrow> nat \<Rightarrow> sfs_inode \<Rightarrow> sfs_fs \<Rightarrow> io_state option" where
  "io_buf write buf alen sz blkno blkoff sin s = do {
     (r, sin, s) \<leftarrow> sfs_bmap_load_nolock sin blkno s;
     case r of
       Inl ret \<Rightarrow> Some (ret, alen, buf, sin, s)
     | Inr ino \<Rightarrow> do {
         (ret, buf, s) \<leftarrow> (if write then sfs_wbuf buf alen sz ino blkoff s else sfs_rbuf buf alen sz ino blkoff s);
         if ret \<noteq> 0 then Some (ret, alen, buf, sin, s) else Some (0, alen + sz, buf, sin, s)
       }
   }"

fun io_blocks :: "bool \<Rightarrow> contents \<Rightarrow> nat \<Rightarrow> nat \<Rightarrow> nat \<Rightarrow> sfs_inode \<Rightarrow> sfs_fs \<Rightarrow> io_state option" where
  "io_blocks write buf alen blkno 0 sin s = Some (0, alen, buf, sin, s)"
| "io_blocks write buf alen blkno (Suc nblks) sin s = do {
     (r, sin, s) \<leftarrow> sfs_bmap_load_nolock sin blkno s;
     case r of
       Inl ret \<Rightarrow> Some (ret, alen, buf, sin, s)
     | Inr ino \<Rightarrow> do {
         (ret, buf, s) \<leftarrow> (if write then sfs_wblock buf alen ino 1 s else sfs_rblock buf alen ino 1 s);
         if ret \<noteq> 0 then Some (ret, alen, buf, sin, s)
         else io_blocks write buf (alen + SFS_BLKSIZE) (blkno + 1) nblks sin s
       }
   }"

definition io_transfer :: "bool \<Rightarrow> contents \<Rightarrow> nat \<Rightarrow> nat \<Rightarrow> sfs_inode \<Rightarrow> sfs_fs \<Rightarrow> io_state option" where
  "io_transfer write buf offset endpos sin s =
     (let blkno = offset div SFS_BLKSIZE; nblks = endpos div SFS_BLKSIZE - blkno; blkoff = offset mod SFS_BLKSIZE;
          sz = (if nblks \<noteq> 0 then SFS_BLKSIZE - blkoff else endpos - offset) in do {
        (ret, alen, buf, sin, s) \<leftarrow>
          (if blkoff \<noteq> 0 then io_buf write buf 0 sz blkno blkoff sin s else Some (0, 0, buf, sin, s));
        if ret \<noteq> 0 then Some (ret, alen, buf, sin, s)
        else let blkno = (if blkoff \<noteq> 0 then blkno + 1 else blkno);
                 nblks = (if blkoff \<noteq> 0 \<and> nblks \<noteq> 0 then nblks - 1 else nblks) in do {
          (ret, alen, buf, sin, s) \<leftarrow> io_blocks write buf alen blkno nblks sin s;
          if ret \<noteq> 0 then Some (ret, alen, buf, sin, s)
          else if offset + alen < endpos
          then io_buf write buf alen (endpos - (offset + alen)) (blkno + nblks) 0 sin s
          else Some (ret, alen, buf, sin, s)
        }
      })"

definition sfs_io_nolock :: "bool \<Rightarrow> contents \<Rightarrow> int \<Rightarrow> nat \<Rightarrow> sfs_inode \<Rightarrow> sfs_fs \<Rightarrow> io_state option" where
  "sfs_io_nolock write buf offset alen sin s = do {
     massert (din_type (din sin) \<noteq> SFS_TYPE_DIR);
     let endpos = swrap (offset + int alen);
     if offset < 0 \<or> int SFS_MAX_FILE_SIZE \<le> offset \<or> endpos < offset then Some (- E_INVAL, 0, buf, sin, s)
     else if offset = endpos then Some (0, 0, buf, sin, s)
     else let endpos = (if int SFS_MAX_FILE_SIZE < endpos then int SFS_MAX_FILE_SIZE else endpos) in
       if \<not> write \<and> int (din_size (din sin)) \<le> offset then Some (0, 0, buf, sin, s)
       else let endpos = (if \<not> write \<and> int (din_size (din sin)) < endpos then int (din_size (din sin)) else endpos) in do {
         (ret, alen, buf, sin, s) \<leftarrow> io_transfer write buf (nat offset) (nat endpos) sin s;
         if din_size (din sin) < nat offset + alen
         then Some (ret, alen, buf, sin\<lparr>din := (din sin)\<lparr>din_size := nat offset + alen\<rparr>, sin_dirty := True\<rparr>, s)
         else Some (ret, alen, buf, sin, s)
       }
   }"

subsection \<open>The bytes of a file\<close>

definition fbyte :: "sfs_fs \<Rightarrow> sfs_disk_inode \<Rightarrow> nat \<Rightarrow> 8 word" where
  "fbyte s d p = disk s (bmap_at s d (p div 4096)) (p mod 4096)"

lemma fbyte_buffer [simp]: "fbyte (s\<lparr>sfs_buffer := sb\<rparr>) d = fbyte s d"
  by (simp add: fbyte_def fun_eq_iff)

lemma fbyte_size [simp]: "fbyte s (d\<lparr>din_size := n\<rparr>) = fbyte s d"
  by (simp add: fbyte_def fun_eq_iff)

text \<open>\<open>got s d o buf lo hi buf'\<close>: the bytes \<open>lo..<hi\<close> of the file were put at their place in a buffer for a
  transfer that began at \<open>o\<close>.\<close>

definition got :: "sfs_fs \<Rightarrow> sfs_disk_inode \<Rightarrow> nat \<Rightarrow> contents \<Rightarrow> nat \<Rightarrow> nat \<Rightarrow> contents \<Rightarrow> bool" where
  "got s d start buf lo hi buf' \<longleftrightarrow>
     (\<forall>i. buf' i = (if lo \<le> start + i \<and> start + i < hi then fbyte s d (start + i) else buf i))"

lemma got_append: "got s d o1 buf lo mid b1 \<Longrightarrow> got s d o1 b1 mid hi b2 \<Longrightarrow> lo \<le> mid \<Longrightarrow> mid \<le> hi \<Longrightarrow> got s d o1 buf lo hi b2"
  by (auto simp: got_def)

lemma got_none: "got s d o1 buf lo lo buf"
  by (auto simp: got_def)

lemma got_paste:
  assumes "off + len \<le> 4096" "start + alen = 4096 * k + off"
  shows "got s d start buf (start + alen) (start + alen + len) (paste buf alen (disk s (bmap_at s d k)) off len)"
  unfolding got_def
proof
  fix i
  show "paste buf alen (disk s (bmap_at s d k)) off len i =
    (if start + alen \<le> start + i \<and> start + i < start + alen + len then fbyte s d (start + i) else buf i)"
  proof (cases "alen \<le> i \<and> i < alen + len")
    case True
    then have p: "start + i = (off + (i - alen)) + 4096 * k" "off + (i - alen) < 4096" using assms by linarith+
    then have "(start + i) div 4096 = k" "(start + i) mod 4096 = off + (i - alen)" by simp_all
    then show ?thesis using True by (simp add: paste_def fbyte_def)
  next
    case False
    then show ?thesis by (auto simp: paste_def)
  qed
qed

lemma io_buf_read:
  assumes s: "sfs_ok s" and d: "file_ok s (din sin)" and k: "k < din_blocks (din sin)"
    and len: "off + len \<le> 4096" "off < 4096" and at: "start + alen = 4096 * k + off"
  shows "\<exists>buf' sb. io_buf False buf alen len k off sin s = Some (0, alen + len, buf', sin, s\<lparr>sfs_buffer := sb\<rparr>) \<and>
    got s (din sin) start buf (start + alen) (start + alen + len) buf'"
proof -
  obtain sb where l: "sfs_bmap_load_nolock sin k s = Some (Inr (bmap_at s (din sin) k), sin, s\<lparr>sfs_buffer := sb\<rparr>)"
    using load_existing [OF s d k] by blast
  have "used s (bmap_at s (din sin) k)" using file_ok_bmap [OF d k] by simp
  then obtain sb' where "sfs_rbuf buf alen len (bmap_at s (din sin) k) off (s\<lparr>sfs_buffer := sb\<rparr>) =
      Some (0, paste buf alen (disk s (bmap_at s (din sin) k)) off len, s\<lparr>sfs_buffer := sb'\<rparr>)"
    using rbuf_ok [of "s\<lparr>sfs_buffer := sb\<rparr>" "bmap_at s (din sin) k" off len buf alen] s len by auto
  then show ?thesis using l got_paste [OF len(1) at] by (auto simp: io_buf_def)
qed

lemma io_blocks_read:
  assumes "sfs_ok s" "file_ok s (din sin)" "k + n \<le> din_blocks (din sin)" "start + alen = 4096 * k"
  shows "\<exists>buf' sb. io_blocks False buf alen k n sin s = Some (0, alen + 4096 * n, buf', sin, s\<lparr>sfs_buffer := sb\<rparr>) \<and>
    got s (din sin) start buf (start + alen) (start + alen + 4096 * n) buf'"
  using assms
proof (induction n arbitrary: buf alen k s)
  case 0
  have "s = s\<lparr>sfs_buffer := sfs_buffer s\<rparr>" by simp
  then show ?case using got_none by (metis add_0_right io_blocks.simps(1) mult_0_right)
next
  case (Suc n)
  have k: "k < din_blocks (din sin)" using Suc.prems(3) by simp
  obtain sb where l: "sfs_bmap_load_nolock sin k s = Some (Inr (bmap_at s (din sin) k), sin, s\<lparr>sfs_buffer := sb\<rparr>)"
    using load_existing [OF Suc.prems(1,2) k] by blast
  let ?b = "paste buf alen (disk s (bmap_at s (din sin) k)) 0 4096" and ?s = "s\<lparr>sfs_buffer := sb\<rparr>"
  have "used s (bmap_at s (din sin) k)" using file_ok_bmap [OF Suc.prems(2) k] by simp
  then have r: "sfs_rblock buf alen (bmap_at s (din sin) k) 1 ?s = Some (0, ?b, ?s)"
    using rblock_ok(1) [of ?s "bmap_at s (din sin) k" buf alen] Suc.prems(1) by simp
  have at: "start + (alen + 4096) = 4096 * (k + 1)" "k + 1 + n \<le> din_blocks (din sin)" "start + alen = 4096 * k + 0"
    using Suc.prems(3,4) by simp_all
  obtain buf' sb' where g: "io_blocks False ?b (alen + 4096) (k + 1) n sin ?s =
      Some (0, alen + 4096 + 4096 * n, buf', sin, ?s\<lparr>sfs_buffer := sb'\<rparr>)"
    "got ?s (din sin) start ?b (start + (alen + 4096)) (start + (alen + 4096) + 4096 * n) buf'"
    using Suc.IH [of ?s "k + 1" "alen + 4096" ?b] Suc.prems(1,2) at by auto
  have "got s (din sin) start buf (start + alen) (start + alen + 4096) ?b"
    using got_paste [OF _ at(3), of 4096 s "din sin" buf] by simp
  then have "got s (din sin) start buf (start + alen) (start + alen + 4096 * Suc n) buf'"
    using got_append [of s "din sin" start buf "start + alen" "start + alen + 4096" ?b] g(2)
    by (simp add: got_def ac_simps)
  then show ?case using l r g(1) by (auto simp: ac_simps)
qed

text \<open>The shape of a range: inside one block, or \<open>a\<close> bytes up to a block boundary (none for an aligned start),
  \<open>n\<close> whole blocks from block \<open>k\<close> on, and \<open>r\<close> bytes of the next block.\<close>

lemma transfer_split:
  fixes start stop :: nat
  assumes "start < stop"
  obtains (one) k off where "start = 4096 * k + off" "off < 4096" "stop < 4096 * (k + 1)"
      "\<And>write buf sin s. io_transfer write buf start stop sin s = do {
         (ret, alen, buf, sin, s) \<leftarrow> io_buf write buf 0 (stop - start) k off sin s;
         if ret \<noteq> 0 then Some (ret, alen, buf, sin, s)
         else do {
           (ret, alen, buf, sin, s) \<leftarrow> io_blocks write buf alen (k + 1) 0 sin s;
           if ret \<noteq> 0 then Some (ret, alen, buf, sin, s)
           else if start + alen < stop then io_buf write buf alen (stop - (start + alen)) (k + 1 + 0) 0 sin s
           else Some (ret, alen, buf, sin, s)
         }
       }"
  | (more) h off a k n r where "start + a = 4096 * k" "off = 0 \<longrightarrow> a = 0" "off \<noteq> 0 \<longrightarrow> start = 4096 * h + off \<and> k = h + 1"
      "off + a \<le> 4096" "off < 4096" "stop = 4096 * (k + n) + r" "r < 4096"
      "\<And>write buf sin s. io_transfer write buf start stop sin s = do {
         (ret, alen, buf, sin, s) \<leftarrow> (if off \<noteq> 0 then io_buf write buf 0 a h off sin s else Some (0, 0, buf, sin, s));
         if ret \<noteq> 0 then Some (ret, alen, buf, sin, s)
         else do {
           (ret, alen, buf, sin, s) \<leftarrow> io_blocks write buf alen k n sin s;
           if ret \<noteq> 0 then Some (ret, alen, buf, sin, s)
           else if start + alen < stop then io_buf write buf alen (stop - (start + alen)) (k + n) 0 sin s
           else Some (ret, alen, buf, sin, s)
         }
       }"
proof -
  define h off q where "h = start div 4096" and "off = start mod 4096" and "q = stop div 4096 - h"
  have le: "h \<le> stop div 4096" using assms by (simp add: div_le_mono h_def)
  have e: "start = 4096 * h + off" "off < 4096" "stop = 4096 * (h + q) + stop mod 4096"
    using le by (simp_all add: h_def off_def q_def)
  have lt: "stop mod 4096 < 4096" by simp
  have unf: "io_transfer write buf start stop sin s = do {
        (ret, alen, buf, sin, s) \<leftarrow>
          (if off \<noteq> 0 then io_buf write buf 0 (if q \<noteq> 0 then 4096 - off else stop - start) h off sin s else Some (0, 0, buf, sin, s));
        if ret \<noteq> 0 then Some (ret, alen, buf, sin, s)
        else do {
          (ret, alen, buf, sin, s) \<leftarrow> io_blocks write buf alen (if off \<noteq> 0 then h + 1 else h) (if off \<noteq> 0 \<and> q \<noteq> 0 then q - 1 else q) sin s;
          if ret \<noteq> 0 then Some (ret, alen, buf, sin, s)
          else if start + alen < stop
          then io_buf write buf alen (stop - (start + alen)) ((if off \<noteq> 0 then h + 1 else h) + (if off \<noteq> 0 \<and> q \<noteq> 0 then q - 1 else q)) 0 sin s
          else Some (ret, alen, buf, sin, s)
        }
      }" for "write" buf sin s
    by (simp only: io_transfer_def Let_def h_def off_def q_def)
  show ?thesis
  proof (cases "off \<noteq> 0 \<and> q = 0")
    case True
    then have lt1: "stop < 4096 * (h + 1)" using e lt by simp
    have c: "off \<noteq> 0" "\<not> q \<noteq> 0" "\<not> (off \<noteq> 0 \<and> q \<noteq> 0)" "q = 0" using True by simp_all
    show ?thesis
      by (rule one [OF e(1,2) lt1])
        (unfold unf if_P [OF c(1)] if_not_P [OF c(2)] if_not_P [OF c(3)], unfold c(4), rule refl)
  next
    case False
    define n where "n = (if off \<noteq> 0 \<and> q \<noteq> 0 then q - 1 else q)"
    define k where "k = (if off \<noteq> 0 then h + 1 else h)"
    define a where "a = (if off \<noteq> 0 then 4096 - off else 0)"
    have f: "start + a = 4096 * k" "k + n = h + q" "off = 0 \<longrightarrow> a = 0" "off \<noteq> 0 \<longrightarrow> start = 4096 * h + off \<and> k = h + 1"
      "off + a \<le> 4096" using False e(1,2) by (auto simp: a_def k_def n_def)
    have st: "stop = 4096 * (k + n) + stop mod 4096" using e(3) f(2) by simp
    have hd: "(if off \<noteq> 0 then io_buf write buf 0 (if q \<noteq> 0 then 4096 - off else stop - start) h off sin s else Some (0, 0, buf, sin, s)) =
      (if off \<noteq> 0 then io_buf write buf 0 a h off sin s else Some (0, 0, buf, sin, s))" for "write" buf sin s
      using False by (auto simp: a_def)
    show ?thesis
      by (rule more [OF f(1,3,4,5) e(2) st lt]) (simp only: unf hd n_def [symmetric] k_def [symmetric])
  qed
qed

lemma io_transfer_read:
  assumes s: "sfs_ok s" and d: "file_ok s (din sin)" and p: "start < stop" "stop \<le> 4096 * din_blocks (din sin)"
  shows "\<exists>buf' sb. io_transfer False buf start stop sin s = Some (0, stop - start, buf', sin, s\<lparr>sfs_buffer := sb\<rparr>) \<and>
    got s (din sin) start buf start stop buf'"
  using p(1)
proof (cases rule: transfer_split)
  case (one k off)
  then have k: "k < din_blocks (din sin)" using p by linarith
  have len: "off + (stop - start) \<le> 4096" "start + 0 = 4096 * k + off" "off < 4096" "start + 0 + (stop - start) = stop"
    using one(1-3) p(1) by auto
  obtain b sb where "io_buf False buf 0 (stop - start) k off sin s = Some (0, 0 + (stop - start), b, sin, s\<lparr>sfs_buffer := sb\<rparr>)"
    "got s (din sin) start buf (start + 0) stop b"
    using io_buf_read [OF s d k len(1,3,2)] unfolding len(4) by blast
  then show ?thesis using p(1) unfolding one(4) by auto
next
  case (more h off a k n r)
  have "\<exists>b sb. (if off \<noteq> 0 then io_buf False buf 0 a h off sin s else Some (0, 0, buf, sin, s)) =
      Some (0, a, b, sin, s\<lparr>sfs_buffer := sb\<rparr>) \<and> got s (din sin) start buf start (start + a) b"
  proof (cases "off = 0")
    case True
    have "s = s\<lparr>sfs_buffer := sfs_buffer s\<rparr>" by simp
    then show ?thesis using True more(2) got_none [of s "din sin" start buf] by (metis add_0_right)
  next
    case False
    then have h: "h < din_blocks (din sin)" "start + 0 = 4096 * h + off" using more(3,6) p by (simp_all add: algebra_simps)
    show ?thesis using io_buf_read [OF s d h(1) more(4,5) h(2)] False by auto
  qed
  then obtain b sb where h: "(if off \<noteq> 0 then io_buf False buf 0 a h off sin s else Some (0, 0, buf, sin, s)) =
      Some (0, a, b, sin, s\<lparr>sfs_buffer := sb\<rparr>)" "got s (din sin) start buf start (start + a) b" by blast
  have mid: "start + a + 4096 * n = 4096 * (k + n)" using more(1) by simp
  have "4096 * (k + n) \<le> 4096 * din_blocks (din sin)" using more(6) p(2) by linarith
  then have kn: "k + n \<le> din_blocks (din sin)" by simp
  obtain b2 sb2 where m: "io_blocks False b a k n sin (s\<lparr>sfs_buffer := sb\<rparr>) =
      Some (0, a + 4096 * n, b2, sin, s\<lparr>sfs_buffer := sb2\<rparr>)"
    "got s (din sin) start b (start + a) (4096 * (k + n)) b2"
    using io_blocks_read [of "s\<lparr>sfs_buffer := sb\<rparr>" sin k n start a b] s d kn more(1) unfolding mid
    by (auto simp: got_def)
  have g2: "got s (din sin) start buf start (4096 * (k + n)) b2"
    using got_append [OF h(2) m(2)] mid by simp
  show ?thesis
  proof (cases "r = 0")
    case True
    then have "\<not> start + (a + 4096 * n) < stop" "stop = 4096 * (k + n)" "a + 4096 * n = stop - start" using more(6) mid by auto
    then show ?thesis using h(1) m(1) g2 unfolding more(8) by (auto simp del: One_nat_def)
  next
    case False
    have lt: "start + (a + 4096 * n) < stop" "start + (a + 4096 * n) = 4096 * (k + n) + 0"
      "stop - (start + (a + 4096 * n)) = r" "4096 * (k + n) + r = stop" "a + 4096 * n + r = stop - start"
      using False more(6) mid by auto
    have kn2: "k + n < din_blocks (din sin)" using False more(6) p(2) kn by (metis add_leD1 add_le_same_cancel1 le_neq_implies_less le_trans le_zero_eq)
    have rr: "0 + r \<le> 4096" using more(7) by simp
    obtain b3 sb3 where t: "io_buf False b2 (a + 4096 * n) r (k + n) 0 sin (s\<lparr>sfs_buffer := sb2\<rparr>) =
        Some (0, a + 4096 * n + r, b3, sin, s\<lparr>sfs_buffer := sb3\<rparr>)"
      "got s (din sin) start b2 (4096 * (k + n)) stop b3"
      using io_buf_read [of "s\<lparr>sfs_buffer := sb2\<rparr>" sin "k + n" 0 r start "a + 4096 * n" b2] s d lt(2,4) rr kn2
      by (auto simp: got_def)
    have g3: "got s (din sin) start buf start stop b3" using got_append [OF g2 t(2)] mid more(6) by simp
    show ?thesis using h(1) m(1) t(1) g3 lt(1,3,5) unfolding more(8) by auto
  qed
qed

subsection \<open>Writing\<close>

text \<open>\<open>written s d s' d' start buf lo hi\<close>: the bytes \<open>lo..<hi\<close> of the file come from a buffer for a transfer that
  began at \<open>start\<close>, all other bytes of its old blocks and all blocks of other files are as before.\<close>

definition written ::
    "sfs_fs \<Rightarrow> sfs_disk_inode \<Rightarrow> sfs_fs \<Rightarrow> sfs_disk_inode \<Rightarrow> nat \<Rightarrow> contents \<Rightarrow> nat \<Rightarrow> nat \<Rightarrow> bool" where
  "written s d s' d' start buf lo hi \<longleftrightarrow> sfs_ok s' \<and> file_ok s' d' \<and> din_blocks d \<le> din_blocks d' \<and>
     (lo < hi \<longrightarrow> hi \<le> 4096 * din_blocks d') \<and>
     (\<forall>p. lo \<le> p \<and> p < hi \<longrightarrow> fbyte s' d' p = buf (p - start)) \<and>
     (\<forall>p. p < 4096 * din_blocks d \<and> \<not> (lo \<le> p \<and> p < hi) \<longrightarrow> fbyte s' d' p = fbyte s d p) \<and>
     (\<forall>k. used s k \<and> k \<notin> file_blocks s d \<longrightarrow> used s' k \<and> k \<notin> file_blocks s' d' \<and> disk s' k = disk s k) \<and>
     din_size d' = din_size d \<and> din_type d' = din_type d \<and> din_nlinks d' = din_nlinks d"

lemma written_append:
  assumes "written s d s1 d1 start buf lo mid" "written s1 d1 s2 d2 start buf mid hi" "lo \<le> mid" "mid \<le> hi"
  shows "written s d s2 d2 start buf lo hi"
proof -
  note a = assms(1) [unfolded written_def] and b = assms(2) [unfolded written_def]
  have "fbyte s2 d2 p = buf (p - start)" if p: "lo \<le> p" "p < hi" for p
  proof (cases "p < mid")
    case True
    then have "p < 4096 * din_blocks d1" "fbyte s1 d1 p = buf (p - start)" using a p by auto
    then show ?thesis using b True by auto
  qed (use b p in auto)
  moreover have "fbyte s2 d2 p = fbyte s d p" if "p < 4096 * din_blocks d" "\<not> (lo \<le> p \<and> p < hi)" for p
  proof -
    have "p < 4096 * din_blocks d1" "\<not> (lo \<le> p \<and> p < mid)" "\<not> (mid \<le> p \<and> p < hi)" using a that assms(3,4) by auto
    then show ?thesis using a b that(1) by auto
  qed
  moreover have "lo < hi \<longrightarrow> hi \<le> 4096 * din_blocks d2" using a b assms(3,4) by (cases "mid < hi") auto
  moreover have "din_blocks d \<le> din_blocks d2" using a b by linarith
  ultimately show ?thesis using a b unfolding written_def by auto
qed

lemma written_self: "sfs_ok s \<Longrightarrow> file_ok s d \<Longrightarrow> written s d s d start buf lo lo"
  by (auto simp: written_def)

lemma written_same_volume: "same_volume s s' \<Longrightarrow> file_ok s d \<Longrightarrow> written s d s' d start buf lo lo"
  using same_volumeD(1,2) [of s s'] same_volumeD(3) [of s s' d] file_ok_bmap [of s d]
  by (auto simp: written_def same_volume_def fbyte_def file_blocks_def less_mult_imp_div_less)

lemma written_buffer: "sfs_ok s \<Longrightarrow> file_ok s d \<Longrightarrow> written s d (s\<lparr>sfs_buffer := sb\<rparr>) d start buf lo lo"
  by (auto simp: written_def)

lemma written_appends:
  assumes "sfs_ok s" "file_ok s d" "appends s d b s' d'"
  shows "written s d s' d' start buf lo lo"
proof -
  note ap = assms(3) [unfolded appends_def]
  have bl: "blocks (super s') = blocks (super s)" using ap by (metis sfs_super.select_convs(2) sfs_super.surjective sfs_super.update_convs(3))
  have "fbyte s' d' p = fbyte s d p" if "p < 4096 * din_blocks d" for p
  proof -
    have i: "p div 4096 < din_blocks d" using that by (simp add: less_mult_imp_div_less)
    then have "used s (bmap_at s d (p div 4096))" "bmap_at s d (p div 4096) \<noteq> indirect d"
      using assms(2) by (auto simp: file_ok_def)
    then show ?thesis using ap i by (simp add: fbyte_def)
  qed
  moreover have "file_blocks s' d' \<subseteq> file_blocks s d \<union> free s"
  proof -
    have "bmap_at s' d' i \<in> insert b (bmap_at s d ` {..<din_blocks d})" if "i < din_blocks d'" for i
      using ap that by (cases "i = din_blocks d") auto
    then have "bmap_at s' d' ` {..<din_blocks d'} \<subseteq> insert b (bmap_at s d ` {..<din_blocks d})" by blast
    moreover have "b \<in> free s" "indirect d' = indirect d \<or> indirect d' \<in> free s" using ap by blast+
    ultimately show ?thesis unfolding file_blocks_def by blast
  qed
  moreover have "k \<noteq> indirect d" if "used s k" "k \<notin> file_blocks s d" for k using that by (auto simp: file_blocks_def used_def)
  ultimately show ?thesis using ap bl unfolding written_def by (auto simp: used_def)
qed

text \<open>Writing into one block of the file.\<close>

lemma written_block:
  assumes s: "sfs_ok s" and d: "file_ok s d" and k: "k < din_blocks d" and len: "off + len \<le> 4096"
    and at: "start + alen = 4096 * k + off"
    and s': "s' = s\<lparr>sfs_buffer := sb, disk := (disk s)(bmap_at s d k := paste (disk s (bmap_at s d k)) off buf alen len)\<rparr>"
  shows "written s d s' d start buf (start + alen) (start + alen + len)"
proof -
  let ?b = "bmap_at s d k"
  have u: "used s' = used s" "sfs_ok s'" using s by (simp_all add: s')
  have ne: "?b \<noteq> indirect d" "used s ?b" "?b \<noteq> 0" using d k file_ok_bmap [OF d k] by (auto simp: file_ok_def)
  have ok: "file_ok s' d" "bmap_at s' d = bmap_at s d"
    using file_ok_cong [of s d s'] d ne u(1) by (auto simp: s')
  have "fbyte s' d p = (if start + alen \<le> p \<and> p < start + alen + len then buf (p - start) else fbyte s d p)"
    if p: "p < 4096 * din_blocks d" for p
  proof (cases "p div 4096 = k")
    case True
    then have pk: "p = 4096 * k + p mod 4096" by (metis mult_div_mod_eq)
    have "fbyte s' d p = paste (disk s ?b) off buf alen len (p mod 4096)" using True ok(2) by (simp add: fbyte_def s')
    moreover have "off \<le> p mod 4096 \<longleftrightarrow> start + alen \<le> p" "p mod 4096 < off + len \<longleftrightarrow> p < start + alen + len"
      "off \<le> p mod 4096 \<Longrightarrow> alen + (p mod 4096 - off) = p - start"
      using pk at by linarith+
    ultimately show ?thesis using True by (auto simp: paste_def fbyte_def)
  next
    case False
    have i: "p div 4096 < din_blocks d" using p by (simp add: less_mult_imp_div_less)
    then have "bmap_at s d (p div 4096) \<noteq> ?b" using d k False by (auto simp: file_ok_def inj_on_def)
    moreover have "\<not> (start + alen \<le> p \<and> p < start + alen + len)"
    proof
      assume "start + alen \<le> p \<and> p < start + alen + len"
      then have "4096 * k \<le> p" "p < 4096 * k + 4096" using at len by linarith+
      then have "p div 4096 = k" by (intro div_nat_eqI) simp_all
      then show False using False by simp
    qed
    ultimately show ?thesis using ok(2) by (auto simp: fbyte_def s')
  qed
  moreover have "start + alen + len \<le> 4096 * din_blocks d"
  proof -
    have "4096 * (k + 1) \<le> 4096 * din_blocks d" using k by (intro mult_le_mono2) simp
    then show ?thesis using at len by simp
  qed
  moreover have "file_blocks s' d = file_blocks s d" using ok(2) by (simp add: file_blocks_def)
  moreover have "disk s' j = disk s j" if "j \<notin> file_blocks s d" for j
    using that k ne(3) by (auto simp: s' file_blocks_def)
  ultimately show ?thesis using ok(1) u unfolding written_def by auto
qed

text \<open>Outcome of a write stage: complete, or cut short at a block boundary because the volume is full.\<close>

definition io_outcome :: "int \<Rightarrow> bool \<Rightarrow> sfs_fs \<Rightarrow> bool" where
  "io_outcome ret complete s \<longleftrightarrow> (if complete then ret = 0 else ret = - E_NO_MEM \<and> card (free s) < 2)"

lemma load_for_write:
  assumes s: "sfs_ok s" and d: "file_ok s (din sin)" and k: "k \<le> din_blocks (din sin)" "k < 1036"
  shows "\<exists>r sin' s'. sfs_bmap_load_nolock sin k s = Some (r, sin', s') \<and> sin_ino sin' = sin_ino sin \<and>
    written s (din sin) s' (din sin') start buf lo lo \<and>
    (r = Inr (bmap_at s' (din sin') k) \<and> k < din_blocks (din sin') \<or> r = Inl (- E_NO_MEM) \<and> card (free s') < 2)"
proof (cases "k < din_blocks (din sin)")
  case True
  then obtain sb where "sfs_bmap_load_nolock sin k s = Some (Inr (bmap_at s (din sin) k), sin, s\<lparr>sfs_buffer := sb\<rparr>)"
    using load_existing [OF s d] by blast
  then show ?thesis using True written_buffer [OF s d] by auto
next
  case False
  then have n: "k = din_blocks (din sin)" using k by simp
  show ?thesis
  proof (cases "needed (din sin) \<le> card (free s)")
    case True
    then obtain b sin' s' where l: "sfs_bmap_load_nolock sin k s = Some (Inr b, sin', s')" "appends s (din sin) b s' (din sin')"
      "sin_ino sin' = sin_ino sin" using load_append [OF s d] n k by auto
    then have "b = bmap_at s' (din sin') k" "k < din_blocks (din sin')" using n by (auto simp: appends_def)
    then show ?thesis using l written_appends [OF s d l(2)] by auto
  next
    case False
    then obtain s' where l: "sfs_bmap_load_nolock sin k s = Some (Inl (- E_NO_MEM), sin, s')" "same_volume s s'"
      using load_no_space [OF s d] n k by auto
    then have "card (free s') < 2" using False by (auto simp: needed_def same_volume_def split: if_splits)
    then show ?thesis using l written_same_volume [OF l(2) d] by auto
  qed
qed

lemma io_buf_write:
  assumes s: "sfs_ok s" and d: "file_ok s (din sin)" and k: "k \<le> din_blocks (din sin)" "k < 1036"
    and len: "off + len \<le> 4096" "off < 4096" and at: "start + alen = 4096 * k + off"
  shows "\<exists>ret n sin' s'. io_buf True buf alen len k off sin s = Some (ret, alen + n, buf, sin', s') \<and> sin_ino sin' = sin_ino sin \<and>
    written s (din sin) s' (din sin') start buf (start + alen) (start + alen + n) \<and> n \<le> len \<and>
    (ret = 0 \<longrightarrow> n = len \<and> k < din_blocks (din sin')) \<and> io_outcome ret (ret = 0) s'"
proof -
  obtain r sin' s' where l: "sfs_bmap_load_nolock sin k s = Some (r, sin', s')" "sin_ino sin' = sin_ino sin"
    "written s (din sin) s' (din sin') start buf (start + alen) (start + alen)"
    "r = Inr (bmap_at s' (din sin') k) \<and> k < din_blocks (din sin') \<or> r = Inl (- E_NO_MEM) \<and> card (free s') < 2"
    using load_for_write [OF s d k, of start buf "start + alen"] by blast
  show ?thesis
  proof (cases "r = Inl (- E_NO_MEM) \<and> card (free s') < 2")
    case True
    then have "io_buf True buf alen len k off sin s = Some (- E_NO_MEM, alen + 0, buf, sin', s')" using l(1) by (simp add: io_buf_def)
    then show ?thesis using l(2,3) True by (intro exI conjI) (assumption | simp add: io_outcome_def)+
  next
    case False
    then have r: "r = Inr (bmap_at s' (din sin') k)" "k < din_blocks (din sin')" using l(4) by auto
    have w: "sfs_ok s'" "file_ok s' (din sin')" using l(3) by (auto simp: written_def)
    obtain sb where "sfs_wbuf buf alen len (bmap_at s' (din sin') k) off s' = Some (0, buf, s'\<lparr>sfs_buffer := sb,
        disk := (disk s')(bmap_at s' (din sin') k := paste (disk s' (bmap_at s' (din sin') k)) off buf alen len)\<rparr>)"
      using wbuf_ok [OF w(1) _ len(2,1)] file_ok_bmap [OF w(2) r(2)] by blast
    note b = this
    have "written s' (din sin') (s'\<lparr>sfs_buffer := sb,
        disk := (disk s')(bmap_at s' (din sin') k := paste (disk s' (bmap_at s' (din sin') k)) off buf alen len)\<rparr>) (din sin')
        start buf (start + alen) (start + alen + len)"
      by (rule written_block [OF w r(2) len(1) at refl])
    note ww = written_append [OF l(3) this]
    show ?thesis using l(1,2) r b ww
      by (intro exI [of _ 0] exI [of _ len] exI [of _ sin'] exI) (auto simp: io_buf_def io_outcome_def)
  qed
qed

lemma io_blocks_write:
  assumes "sfs_ok s" "file_ok s (din sin)" "k \<le> din_blocks (din sin)" "k + n \<le> 1036" "start + alen = 4096 * k"
  shows "\<exists>ret m sin' s'. io_blocks True buf alen k n sin s = Some (ret, alen + m, buf, sin', s') \<and> sin_ino sin' = sin_ino sin \<and>
    written s (din sin) s' (din sin') start buf (start + alen) (start + alen + m) \<and> m \<le> 4096 * n \<and>
    (ret = 0 \<longrightarrow> m = 4096 * n \<and> k + n \<le> din_blocks (din sin')) \<and> io_outcome ret (ret = 0) s'"
  using assms
proof (induction n arbitrary: alen k sin s)
  case 0
  then show ?case using written_self [OF 0(1,2)] by (auto simp: io_outcome_def)
next
  case (Suc n)
  have k: "k < 1036" using Suc.prems(4) by simp
  obtain r sin1 s1 where l: "sfs_bmap_load_nolock sin k s = Some (r, sin1, s1)" "sin_ino sin1 = sin_ino sin"
    "written s (din sin) s1 (din sin1) start buf (start + alen) (start + alen)"
    "r = Inr (bmap_at s1 (din sin1) k) \<and> k < din_blocks (din sin1) \<or> r = Inl (- E_NO_MEM) \<and> card (free s1) < 2"
    using load_for_write [OF Suc.prems(1,2,3) k, of start buf "start + alen"] by blast
  show ?case
  proof (cases "r = Inl (- E_NO_MEM) \<and> card (free s1) < 2")
    case True
    then have "io_blocks True buf alen k (Suc n) sin s = Some (- E_NO_MEM, alen + 0, buf, sin1, s1)" using l(1) by simp
    then show ?thesis using l(2,3) True by (intro exI conjI) (assumption | simp add: io_outcome_def)+
  next
    case False
    then have r: "r = Inr (bmap_at s1 (din sin1) k)" "k < din_blocks (din sin1)" using l(4) by auto
    have w: "sfs_ok s1" "file_ok s1 (din sin1)" using l(3) by (auto simp: written_def)
    let ?b = "bmap_at s1 (din sin1) k"
    let ?s = "s1\<lparr>sfs_buffer := sfs_buffer s1, disk := (disk s1)(?b := paste (disk s1 ?b) 0 buf alen 4096)\<rparr>"
    have b: "sfs_wblock buf alen ?b 1 s1 = Some (0, buf, ?s)"
      using rblock_ok(2) [OF w(1)] file_ok_bmap [OF w(2) r(2)] by simp
    have at: "start + alen = 4096 * k + 0" "0 + 4096 \<le> (4096 :: nat)" using Suc.prems(5) by simp_all
    have w2: "written s1 (din sin1) ?s (din sin1) start buf (start + alen) (start + alen + 4096)"
      by (rule written_block [OF w r(2) at(2,1) refl])
    then have ok2: "sfs_ok ?s" "file_ok ?s (din sin1)" by (simp_all only: written_def)
    have pre: "k + 1 \<le> din_blocks (din sin1)" "k + 1 + n \<le> 1036" "start + (alen + 4096) = 4096 * (k + 1)"
      using r(2) Suc.prems(4,5) by simp_all
    obtain ret m sin' s' where ih: "io_blocks True buf (alen + 4096) (k + 1) n sin1 ?s = Some (ret, alen + 4096 + m, buf, sin', s')"
      "sin_ino sin' = sin_ino sin1" "written ?s (din sin1) s' (din sin') start buf (start + (alen + 4096)) (start + (alen + 4096) + m)"
      "m \<le> 4096 * n" "ret = 0 \<longrightarrow> m = 4096 * n \<and> k + 1 + n \<le> din_blocks (din sin')" "io_outcome ret (ret = 0) s'"
      using Suc.IH [OF ok2 pre] by blast
    have "written s (din sin) ?s (din sin1) start buf (start + alen) (start + alen + 4096)"
      using written_append [OF l(3) w2] by simp
    from written_append [OF this, of s' "din sin'" "start + alen + (4096 + m)"] ih(3)
    have "written s (din sin) s' (din sin') start buf (start + alen) (start + alen + (4096 + m))" by (simp add: ac_simps)
    moreover have "io_blocks True buf alen k (Suc n) sin s = Some (ret, alen + (4096 + m), buf, sin', s')"
      using l(1) r(1) b ih(1) by (simp add: ac_simps)
    ultimately show ?thesis using ih(2,4-6) l(2)
      by (intro exI [of _ ret] exI [of _ "4096 + m"] exI [of _ sin'] exI [of _ s']) auto
  qed
qed

lemma io_stages:
  assumes w: "written s d s1 d1 start buf start (start + n1)" "written s1 d1 s2 d2 start buf (start + n1) (start + n1 + n2)"
  shows "written s d s2 d2 start buf start (start + (n1 + n2))"
  using written_append [OF w] by (simp add: add.assoc)

lemma io_transfer_write:
  assumes s: "sfs_ok s" and d: "file_ok s (din sin)" and p: "start < stop" "stop \<le> 4096 * 1036" "start \<le> 4096 * din_blocks (din sin)"
  shows "\<exists>ret n sin' s'. io_transfer True buf start stop sin s = Some (ret, n, buf, sin', s') \<and> sin_ino sin' = sin_ino sin \<and>
    written s (din sin) s' (din sin') start buf start (start + n) \<and> n \<le> stop - start \<and>
    (ret = 0 \<longrightarrow> n = stop - start) \<and> io_outcome ret (ret = 0) s'"
  using p(1)
proof (cases rule: transfer_split)
  case (one k off)
  have k: "k \<le> din_blocks (din sin)" "k < 1036" using one(1) p by linarith+
  have len: "off + (stop - start) \<le> 4096" "start + 0 = 4096 * k + off" using one(1-3) p(1) by auto
  obtain ret n sin' s' where w: "io_buf True buf 0 (stop - start) k off sin s = Some (ret, n, buf, sin', s')"
    "sin_ino sin' = sin_ino sin" "written s (din sin) s' (din sin') start buf start (start + n)" "n \<le> stop - start"
    "ret = 0 \<longrightarrow> n = stop - start \<and> k < din_blocks (din sin')" "io_outcome ret (ret = 0) s'"
    using io_buf_write [OF s d k len(1) one(2) len(2), of buf] by (simp only: add_0 add_0_right) blast
  then show ?thesis using p(1) unfolding one(4) by (cases "ret = 0") (auto simp: io_outcome_def)
next
  case (more h off a k n r)
  let ?head = "if off \<noteq> 0 then io_buf True buf 0 a h off sin s else Some (0, 0, buf, sin, s)"
  have "\<exists>ret n1 sin1 s1. ?head = Some (ret, n1, buf, sin1, s1) \<and> sin_ino sin1 = sin_ino sin \<and>
    written s (din sin) s1 (din sin1) start buf start (start + n1) \<and> n1 \<le> a \<and>
    (ret = 0 \<longrightarrow> n1 = a \<and> k \<le> din_blocks (din sin1)) \<and> io_outcome ret (ret = 0) s1"
  proof (cases "off = 0")
    case True
    then have "k \<le> din_blocks (din sin)" using more(1,2) p(3) by simp
    then show ?thesis using True more(2) written_self [OF s d, of start buf start] by (auto simp: io_outcome_def)
  next
    case False
    then have h: "h \<le> din_blocks (din sin)" "h < 1036" "start + 0 = 4096 * h + off" using more(3) p by linarith+
    obtain ret n1 sin' s' where w: "io_buf True buf 0 a h off sin s = Some (ret, n1, buf, sin', s')"
      "sin_ino sin' = sin_ino sin" "written s (din sin) s' (din sin') start buf start (start + n1)" "n1 \<le> a"
      "ret = 0 \<longrightarrow> n1 = a \<and> h < din_blocks (din sin')" "io_outcome ret (ret = 0) s'"
      using io_buf_write [OF s d h(1,2) more(4,5) h(3), of buf] by (simp only: add_0 add_0_right) blast
    then show ?thesis using False more(3) by auto
  qed
  then obtain ret n1 sin1 s1 where h: "?head = Some (ret, n1, buf, sin1, s1)" "sin_ino sin1 = sin_ino sin"
    "written s (din sin) s1 (din sin1) start buf start (start + n1)" "n1 \<le> a"
    "ret = 0 \<longrightarrow> n1 = a \<and> k \<le> din_blocks (din sin1)" "io_outcome ret (ret = 0) s1" by blast
  have mid: "start + a + 4096 * n = 4096 * (k + n)" using more(1) by simp
  have tot: "stop - start = a + (4096 * n + r)" using mid more(6) by simp
  show ?thesis
  proof (cases "ret = 0")
    case False
    then have "io_transfer True buf start stop sin s = Some (ret, n1, buf, sin1, s1)" unfolding more(8) h(1) by simp
    moreover have "n1 \<le> stop - start" using h(4) tot by simp
    ultimately show ?thesis using h False by blast
  next
    case True
    then have n1: "n1 = a" "k \<le> din_blocks (din sin1)" using h(5) by auto
    have w1: "sfs_ok s1" "file_ok s1 (din sin1)" using h(3) by (auto simp: written_def)
    have "4096 * (k + n) \<le> 4096 * 1036" using more(6) p(2) by simp
    then have kn: "k + n \<le> 1036" by simp
    obtain ret2 n2 sin2 s2 where m: "io_blocks True buf a k n sin1 s1 = Some (ret2, a + n2, buf, sin2, s2)"
      "sin_ino sin2 = sin_ino sin1" "written s1 (din sin1) s2 (din sin2) start buf (start + a) (start + a + n2)" "n2 \<le> 4096 * n"
      "ret2 = 0 \<longrightarrow> n2 = 4096 * n \<and> k + n \<le> din_blocks (din sin2)" "io_outcome ret2 (ret2 = 0) s2"
      using io_blocks_write [OF w1 n1(2) kn more(1), of buf] by blast
    have ww: "written s (din sin) s2 (din sin2) start buf start (start + (a + n2))"
      using io_stages [OF h(3) [unfolded n1(1)] m(3)] .
    show ?thesis
    proof (cases "ret2 = 0 \<and> r \<noteq> 0")
      case False
      then have "\<not> (ret2 = 0 \<and> start + (a + n2) < stop)" using m(5) mid more(6) by auto
      then have "io_transfer True buf start stop sin s = Some (ret2, a + n2, buf, sin2, s2)"
        unfolding more(8) h(1) using True n1(1) m(1) by auto
      moreover have "a + n2 \<le> stop - start" using m(4) tot by simp
      moreover have "ret2 = 0 \<longrightarrow> a + n2 = stop - start" using False m(5) mid more(6) by auto
      ultimately show ?thesis using ww m(2,6) h(2) by (intro exI conjI) (assumption | simp)+
    next
      case more2: True
      then have n2: "n2 = 4096 * n" "k + n \<le> din_blocks (din sin2)" using m(5) by auto
      have w2: "sfs_ok s2" "file_ok s2 (din sin2)" using ww by (auto simp: written_def)
      have lt: "start + (a + n2) < stop" "start + (a + n2) = 4096 * (k + n) + 0" "stop - (start + (a + n2)) = r"
        "stop - start = a + n2 + r" "k + n < 1036" "0 + r \<le> 4096" "0 < (4096 :: nat)"
        using more2 more(6,7) mid n2(1) p(2) by auto
      obtain ret3 n3 sin3 s3 where t: "io_buf True buf (a + n2) r (k + n) 0 sin2 s2 = Some (ret3, a + n2 + n3, buf, sin3, s3)"
        "sin_ino sin3 = sin_ino sin2" "written s2 (din sin2) s3 (din sin3) start buf (start + (a + n2)) (start + (a + n2) + n3)"
        "n3 \<le> r" "ret3 = 0 \<longrightarrow> n3 = r \<and> k + n < din_blocks (din sin3)" "io_outcome ret3 (ret3 = 0) s3"
        using io_buf_write [OF w2 n2(2) lt(5-7,2), of buf] by blast
      have "io_transfer True buf start stop sin s = Some (ret3, a + n2 + n3, buf, sin3, s3)"
        unfolding more(8) h(1) using True n1(1) m(1) more2 lt(1,3) t(1) by simp
      moreover have "written s (din sin) s3 (din sin3) start buf start (start + (a + n2 + n3))"
        using io_stages [OF ww t(3)] .
      moreover have "a + n2 + n3 \<le> stop - start" "ret3 = 0 \<longrightarrow> a + n2 + n3 = stop - start" using lt(4) t(4,5) by auto
      ultimately show ?thesis using t(2,6) m(2) h(2) by (intro exI conjI) (assumption | simp)+
    qed
  qed
qed

subsection \<open>Files as byte sequences\<close>

definition content :: "sfs_fs \<Rightarrow> sfs_disk_inode \<Rightarrow> 8 word list" where
  "content s d = map (fbyte s d) [0..<din_size d]"

definition file_inv :: "sfs_fs \<Rightarrow> sfs_inode \<Rightarrow> bool" where
  "file_inv s sin \<longleftrightarrow> sfs_ok s \<and> file_ok s (din sin) \<and> din_size (din sin) \<le> 4096 * din_blocks (din sin) \<and>
     din_type (din sin) \<noteq> SFS_TYPE_DIR"

lemma length_content [simp]: "length (content s d) = din_size d"
  by (simp add: content_def)

lemma swrap_id [simp]: "0 \<le> x \<Longrightarrow> x < 2 ^ 63 \<Longrightarrow> swrap x = x"
  by (simp add: swrap_def)

lemma file_inv_bound: "file_inv s sin \<Longrightarrow> din_size (din sin) \<le> 4096 * 1036"
  by (auto simp: file_inv_def file_ok_def intro: order_trans)

lemma content_write:
  assumes w: "written s d s' d' start buf start (start + n)" and st: "start \<le> din_size d" "din_size d \<le> 4096 * din_blocks d"
  shows "content s' (d'\<lparr>din_size := max (din_size d) (start + n)\<rparr>) =
    take start (content s d) @ map buf [0..<n] @ drop (start + n) (content s d)"
proof (rule nth_equalityI)
  show "length (content s' (d'\<lparr>din_size := max (din_size d) (start + n)\<rparr>)) =
      length (take start (content s d) @ map buf [0..<n] @ drop (start + n) (content s d))"
    using st by simp
  fix p assume "p < length (content s' (d'\<lparr>din_size := max (din_size d) (start + n)\<rparr>))"
  then have p: "p < max (din_size d) (start + n)" by simp
  have l: "content s' (d'\<lparr>din_size := max (din_size d) (start + n)\<rparr>) ! p = fbyte s' d' p"
    using p by (simp add: content_def)
  consider "p < start" | "start \<le> p" "p < start + n" | "start + n \<le> p" "p < din_size d" using p by linarith
  then show "content s' (d'\<lparr>din_size := max (din_size d) (start + n)\<rparr>) ! p =
      (take start (content s d) @ map buf [0..<n] @ drop (start + n) (content s d)) ! p"
  proof cases
    case 1
    then have "fbyte s' d' p = fbyte s d p" using w st by (auto simp: written_def)
    then show ?thesis using 1 st l by (simp add: nth_append content_def)
  next
    case 2
    then have "fbyte s' d' p = buf (p - start)" "p - start < n" using w by (auto simp: written_def)
    then show ?thesis using 2 st l by (simp add: nth_append)
  next
    case 3
    then have "fbyte s' d' p = fbyte s d p" "\<not> p - start < n" using w st by (auto simp: written_def)
    then show ?thesis using 3 st l by (simp add: nth_append content_def)
  qed
qed

lemma written_inv:
  assumes "written s (din sin) s' (din sin') start buf start (start + n)" "file_inv s sin" "start \<le> din_size (din sin)"
  shows "file_inv s' (sin'\<lparr>din := (din sin')\<lparr>din_size := max (din_size (din sin)) (start + n)\<rparr>\<rparr>)"
    "din_size (din sin') = din_size (din sin)" "n = 0 \<Longrightarrow> file_inv s' sin'"
proof -
  note w = assms(1) [unfolded written_def]
  have "start + n \<le> 4096 * din_blocks (din sin')"
  proof (cases "n = 0")
    case True
    have "4096 * din_blocks (din sin) \<le> 4096 * din_blocks (din sin')" using w by simp
    moreover have "din_size (din sin) \<le> 4096 * din_blocks (din sin)" using assms(2) by (simp add: file_inv_def)
    ultimately show ?thesis using assms(3) True by linarith
  qed (use w in auto)
  moreover have "din_size (din sin) \<le> 4096 * din_blocks (din sin')"
    using w assms(2) by (auto simp: file_inv_def intro: order_trans)
  ultimately show "file_inv s' (sin'\<lparr>din := (din sin')\<lparr>din_size := max (din_size (din sin)) (start + n)\<rparr>\<rparr>)"
    "din_size (din sin') = din_size (din sin)" "n = 0 \<Longrightarrow> file_inv s' sin'"
    using w assms(2) by (auto simp: file_inv_def)
qed

lemma sfs_write_correct_lemma:
  assumes inv: "file_inv s sin" and st: "start \<le> din_size (din sin)" and len: "0 < len" "start + len \<le> 4096 * 1036"
  shows "\<exists>ret n sin' s'. sfs_io_nolock True buf (int start) len sin s = Some (ret, n, buf, sin', s') \<and>
    file_inv s' sin' \<and> content s' (din sin') = take start (content s (din sin)) @ map buf [0..<n] @ drop (start + n) (content s (din sin)) \<and>
    (ret = 0 \<and> n = len \<or> ret = - E_NO_MEM \<and> n \<le> len \<and> card (free s') < 2) \<and>
    (\<forall>k. used s k \<and> k \<notin> file_blocks s (din sin) \<longrightarrow> used s' k \<and> disk s' k = disk s k)"
proof -
  note i = inv [unfolded file_inv_def]
  have p: "start < start + len" "start + len \<le> 4096 * 1036" "start \<le> 4096 * din_blocks (din sin)" using len st i by auto
  obtain ret n sin' s' where t: "io_transfer True buf start (start + len) sin s = Some (ret, n, buf, sin', s')"
    "written s (din sin) s' (din sin') start buf start (start + n)" "n \<le> start + len - start"
    "ret = 0 \<longrightarrow> n = start + len - start" "io_outcome ret (ret = 0) s'"
    using io_transfer_write [OF _ _ p, of s buf] i by blast
  let ?sin = "if din_size (din sin) < start + n
    then sin'\<lparr>din := (din sin')\<lparr>din_size := start + n\<rparr>, sin_dirty := True\<rparr> else sin'"
  have sz: "din_size (din sin') = din_size (din sin)" using written_inv(2) [OF t(2) inv st] .
  have "sfs_io_nolock True buf (int start) len sin s = Some (ret, n, buf, ?sin, s')"
    using t(1) i len p sz by (simp add: sfs_io_nolock_def Let_def nat_int_add)
  moreover have d: "din ?sin = (din sin')\<lparr>din_size := max (din_size (din sin)) (start + n)\<rparr>"
    using sz by simp
  moreover have "file_inv s' ?sin" using written_inv(1) [OF t(2) inv st] d unfolding file_inv_def by simp
  moreover have "content s' (din ?sin) = take start (content s (din sin)) @ map buf [0..<n] @ drop (start + n) (content s (din sin))"
    unfolding d by (rule content_write [OF t(2) st]) (use i in simp)
  moreover have "ret = 0 \<and> n = len \<or> ret = - E_NO_MEM \<and> n \<le> len \<and> card (free s') < 2"
    using t(3-5) by (auto simp: io_outcome_def split: if_splits)
  moreover have "\<forall>k. used s k \<and> k \<notin> file_blocks s (din sin) \<longrightarrow> used s' k \<and> disk s' k = disk s k"
    using t(2) by (simp add: written_def)
  ultimately show ?thesis by (intro exI [of _ ret] exI [of _ n] exI [of _ ?sin] exI [of _ s']) blast
qed

text \<open>C4: Writing a file. A write of \<open>len\<close> bytes that begins anywhere up to the end of the file and ends within the
  1036 blocks that a block map can name (12 direct and 1024 indirect), whatever its alignment, returns; it replaces the bytes of the file from there on by the first \<open>n\<close> bytes of the
  buffer and extends the file as needed. Either all bytes are written and the result is 0, or the volume
  is full, the result is \<^verbatim>\<open>-E_NO_MEM\<close> and a prefix is written. The invariants of volume and file are kept,
  and no block of any other file changes.\<close>

theorem sfs_write_correct:
  assumes inv: "file_inv s sin" and st: "start \<le> din_size (din sin)" and len: "0 < len" "start + len \<le> 4096 * 1036"
  shows "\<exists>ret n sin' s'. sfs_io_nolock True buf (int start) len sin s = Some (ret, n, buf, sin', s') \<and>
    file_inv s' sin' \<and> content s' (din sin') = take start (content s (din sin)) @ map buf [0..<n] @ drop (start + n) (content s (din sin)) \<and>
    (ret = 0 \<and> n = len \<or> ret = - E_NO_MEM \<and> n \<le> len \<and> card (free s') < 2) \<and>
    (\<forall>k. used s k \<and> k \<notin> file_blocks s (din sin) \<longrightarrow> used s' k \<and> disk s' k = disk s k)"
  by (rule sfs_write_correct_lemma [OF assms])

lemma sfs_read_correct:
  assumes inv: "file_inv s sin" and len: "start < 1024 * 1024 * 128" "len < 2 ^ 32"
  shows "\<exists>buf' sb. sfs_io_nolock False buf (int start) len sin s =
      Some (0, length (take len (drop start (content s (din sin)))), buf', sin, s\<lparr>sfs_buffer := sb\<rparr>) \<and>
    map buf' [0..<length (take len (drop start (content s (din sin))))] = take len (drop start (content s (din sin)))"
proof -
  note i = inv [unfolded file_inv_def]
  let ?n = "min len (din_size (din sin) - start)"
  have bound: "din_size (din sin) \<le> 4096 * 1036" using file_inv_bound [OF inv] .
  have l: "length (take len (drop start (content s (din sin)))) = ?n" by simp
  have s0: "s = s\<lparr>sfs_buffer := sfs_buffer s\<rparr>" by simp
  show ?thesis
  proof (cases "len = 0 \<or> din_size (din sin) \<le> start")
    case True
    then have "sfs_io_nolock False buf (int start) len sin s = Some (0, 0, buf, sin, s)"
      using i len by (auto simp: sfs_io_nolock_def Let_def)
    moreover have "?n = 0" using True by auto
    ultimately show ?thesis using True s0 unfolding l by (intro exI [of _ buf] exI [of _ "sfs_buffer s"]) auto
  next
    case False
    define e where "e = min (start + len) (din_size (din sin))"
    have e: "start < e" "e \<le> 4096 * din_blocks (din sin)" "e - start = ?n" "start + ?n = e"
      using False i by (auto simp: e_def)
    obtain b sb where t: "io_transfer False buf start e sin s = Some (0, e - start, b, sin, s\<lparr>sfs_buffer := sb\<rparr>)"
      "got s (din sin) start buf start e b" using io_transfer_read [OF _ _ e(1,2), of s buf] i by blast
    have z: "\<not> din_size (din sin) < start + ?n" using False by auto
    have "sfs_io_nolock False buf (int start) len sin s = Some (0, ?n, b, sin, s\<lparr>sfs_buffer := sb\<rparr>)"
    proof (cases "din_size (din sin) < start + len")
      case True
      then have "e = din_size (din sin)" by (simp add: e_def)
      then have "io_transfer False buf start (din_size (din sin)) sin s = Some (0, ?n, b, sin, s\<lparr>sfs_buffer := sb\<rparr>)"
        using t(1) e(3) by simp
      then show ?thesis using True False i len z bound by (simp add: sfs_io_nolock_def Let_def)
    next
      case False2: False
      then have "e = start + len" by (simp add: e_def)
      then have "io_transfer False buf start (start + len) sin s = Some (0, ?n, b, sin, s\<lparr>sfs_buffer := sb\<rparr>)"
        using t(1) e(3) by simp
      then show ?thesis using False2 False i len z bound by (simp add: sfs_io_nolock_def Let_def nat_int_add)
    qed
    moreover have "map b [0..<?n] = take len (drop start (content s (din sin)))"
      using t(2) e by (intro nth_equalityI) (auto simp: got_def content_def)
    ultimately show ?thesis unfolding l by blast
  qed
qed

lemma empty_file_inv: "file_inv small_volume empty_file"
  using small_volume_ok by (simp add: file_inv_def) (simp add: empty_file_def)

theorem sfs_write_correct_witness:
  "\<exists>ret n sin' s'. sfs_io_nolock True (\<lambda>_. 7) (int 0) 5000 empty_file small_volume = Some (ret, n, \<lambda>_. 7, sin', s') \<and>
    file_inv s' sin' \<and> content s' (din sin') = take 0 (content small_volume (din empty_file)) @ map (\<lambda>_. 7) [0..<n] @
      drop (0 + n) (content small_volume (din empty_file)) \<and>
    (ret = 0 \<and> n = 5000 \<or> ret = - E_NO_MEM \<and> n \<le> 5000 \<and> card (free s') < 2) \<and>
    (\<forall>k. used small_volume k \<and> k \<notin> file_blocks small_volume (din empty_file) \<longrightarrow> used s' k \<and> disk s' k = disk small_volume k)"
  by (rule sfs_write_correct [OF empty_file_inv]) simp_all

text \<open>C6: What was written is read back. After a write of \<open>len\<close> bytes that returned 0, a read of the same
  range, into any buffer, returns 0 and \<open>len\<close> and delivers exactly the bytes written.\<close>

theorem sfs_write_read_roundtrip:
  assumes inv: "file_inv s sin" and st: "start \<le> din_size (din sin)" and len: "0 < len" "start + len \<le> 4096 * 1036"
    and w: "sfs_io_nolock True buf (int start) len sin s = Some (0, n, buf1, sin1, s1)"
  shows "\<exists>buf' sb. sfs_io_nolock False buf2 (int start) len sin1 s1 = Some (0, len, buf', sin1, s1\<lparr>sfs_buffer := sb\<rparr>) \<and>
    (\<forall>i<len. buf' i = buf i)"
proof -
  let ?c = "content s (din sin)"
  obtain ret m sin' s' where m: "sfs_io_nolock True buf (int start) len sin s = Some (ret, m, buf, sin', s')" "file_inv s' sin'"
    "content s' (din sin') = take start ?c @ map buf [0..<m] @ drop (start + m) ?c"
    "ret = 0 \<and> m = len \<or> ret = - E_NO_MEM \<and> m \<le> len \<and> card (free s') < 2"
    using sfs_write_correct_lemma [OF inv st len] by blast
  have e: "sin1 = sin'" "s1 = s'" "m = len" using w m(1,4) by auto
  have t: "take len (drop start (content s1 (din sin1))) = map buf [0..<len]" using m(3) e st by simp
  obtain buf' sb where r: "sfs_io_nolock False buf2 (int start) len sin1 s1 = Some (0, len, buf', sin1, s1\<lparr>sfs_buffer := sb\<rparr>)"
    "map buf' [0..<len] = map buf [0..<len]"
    using sfs_read_correct [of s1 sin1 start len buf2] m(2) e len unfolding t by auto
  then have "\<forall>i<len. buf' i = buf i" by simp
  then show ?thesis using r(1) by blast
qed

text \<open>A volume with one file of five bytes in block 3.\<close>

definition one_block_volume :: sfs_fs where
  "one_block_volume = small_volume\<lparr>super := (super small_volume)\<lparr>unused_blocks := 60\<rparr>,
     freemap := \<lparr>nbits = 64, nwords = 2, bmap = [0xFFFFFFF0, 0xFFFFFFFF]\<rparr>\<rparr>"

definition one_block_file :: sfs_inode where
  "one_block_file = empty_file\<lparr>din := (din empty_file)\<lparr>din_size := 5, din_blocks := 1, direct := 3 # replicate 11 0\<rparr>\<rparr>"

lemma one_block_free: "free one_block_volume = {4..<64}"
proof -
  have "bit_at (freemap one_block_volume) i \<longleftrightarrow> 4 \<le> i" if "i < 64" for i
  proof -
    have "\<forall>i\<in>set [0..<64]. bit_at (freemap one_block_volume) i \<longleftrightarrow> 4 \<le> i"
      by (simp add: one_block_volume_def bit_at_def upt_rec)
    then show ?thesis using that by simp
  qed
  then show ?thesis by (auto simp: free_bits_def) (auto simp: one_block_volume_def)
qed

lemma one_block_map: "i < 1036 \<Longrightarrow> bmap_at one_block_volume (din one_block_file) i = (if i = 0 then 3 else 0)"
  by (simp add: bmap_at_def one_block_file_def empty_file_def nth_Cons' nth_replicate)

lemma one_block_inv: "file_inv one_block_volume one_block_file"
proof -
  have ok: "sfs_ok one_block_volume"
    using one_block_free by (simp add: sfs_ok_def bitmap_ok_def) (auto simp: one_block_volume_def small_volume_def)
  have "used one_block_volume 3"
    using one_block_free by (simp add: used_def) (simp add: one_block_volume_def small_volume_def)
  moreover have "length (direct (din one_block_file)) = 12" "din_blocks (din one_block_file) = 1" "indirect (din one_block_file) = 0"
    by (simp_all add: one_block_file_def empty_file_def)
  ultimately have "file_ok one_block_volume (din one_block_file)"
    using one_block_map by (simp add: file_ok_def inj_on_def)
  with ok show ?thesis by (simp add: file_inv_def) (simp add: one_block_file_def empty_file_def)
qed

lemma one_block_write: "\<exists>n buf1 sin1 s1. sfs_io_nolock True (\<lambda>_. 7) (int 2) 1 one_block_file one_block_volume = Some (0, n, buf1, sin1, s1)"
proof -
  have ok: "sfs_ok one_block_volume" "file_ok one_block_volume (din one_block_file)"
    using one_block_inv by (auto simp: file_inv_def)
  have n: "0 < din_blocks (din one_block_file)" by (simp add: one_block_file_def)
  obtain sb where l: "sfs_bmap_load_nolock one_block_file 0 one_block_volume =
      Some (Inr 3, one_block_file, one_block_volume\<lparr>sfs_buffer := sb\<rparr>)"
    using load_existing [OF ok n] one_block_map [of 0] by auto
  have u: "used (one_block_volume\<lparr>sfs_buffer := sb\<rparr>) 3" using file_ok_bmap [OF ok(2) n] one_block_map [of 0] by simp
  obtain s' where "sfs_wbuf (\<lambda>_. 7) 0 1 3 2 (one_block_volume\<lparr>sfs_buffer := sb\<rparr>) = Some (0, \<lambda>_. 7, s')"
    using wbuf_ok [OF _ u, of 2 1 "\<lambda>_. 7" 0] ok(1) by auto
  then have "io_transfer True (\<lambda>_. 7) 2 3 one_block_file one_block_volume = Some (0, 1, \<lambda>_. 7, one_block_file, s')"
    using l by (simp add: io_transfer_def io_buf_def)
  then show ?thesis by (simp add: sfs_io_nolock_def) (simp add: one_block_file_def empty_file_def)
qed

theorem sfs_write_read_roundtrip_witness:
  "\<exists>sin1 s1 buf' sb. sfs_io_nolock False (\<lambda>_. 0) (int 2) 1 sin1 s1 = Some (0, 1, buf', sin1, s1\<lparr>sfs_buffer := sb\<rparr>) \<and>
    (\<forall>i<1. buf' i = 7)"
proof -
  obtain n buf1 sin1 s1 where w: "sfs_io_nolock True (\<lambda>_. 7) (int 2) 1 one_block_file one_block_volume = Some (0, n, buf1, sin1, s1)"
    using one_block_write by blast
  have "2 \<le> din_size (din one_block_file)" by (simp add: one_block_file_def)
  then show ?thesis using sfs_write_read_roundtrip [OF one_block_inv _ _ _ w, of "\<lambda>_. 0"] by fastforce
qed

end
